(* ===== verification/Turbulence_Prelude.thy ===== *)
theory Turbulence_Prelude
  imports Main "HOL-Library.Word" "HOL-Library.Monad_Syntax"
begin

text \<open>
  Shared vocabulary of the development.

  A Rust computation that may panic (failed \<open>assert!\<close>, \<open>unwrap\<close> of \<open>None\<close>, slice index out of
  range, arithmetic overflow in a build with overflow checks, a read of uninitialised memory) is a
  value of an option type: \<open>None\<close> is the panic, \<open>Some v\<close> a normal return of \<open>v\<close>. The monad syntax
  sequences such computations. Rust's own \<open>Option\<close> and \<open>Result\<close> values are ordinary values inside.

  Sizes (\<open>usize\<close>, \<open>u32\<close> counters) are natural numbers with checked operations, so that a proof that a
  computation returns \<open>Some\<close> also proves that no operation over- or underflows. Stream positions, which
  wrap, are words. Also here: slices and vector operations, \<open>slice::binary_search_by\<close>, and the
  little-endian codecs of the \<open>byteorder\<close> calls.
\<close>

named_theorems checked_simps \<open>checked operations that are known to return\<close>

type_synonym byte = "8 word"

subsection \<open>Panics and checked arithmetic\<close>

definition assert_that :: "bool \<Rightarrow> unit option" where
  "assert_that b = (if b then Some () else None)"

definition usize_max :: nat where
  "usize_max = 2 ^ 64 - 1"

definition isize_max :: nat where
  "isize_max = 2 ^ 63 - 1"

definition u32_max :: nat where
  "u32_max = 2 ^ 32 - 1"

definition u16_max :: nat where
  "u16_max = 2 ^ 16 - 1"

definition i16_max :: nat where
  "i16_max = 2 ^ 15 - 1"

definition usize_add :: "nat \<Rightarrow> nat \<Rightarrow> nat option" where
  "usize_add a b = (if a + b \<le> usize_max then Some (a + b) else None)"

definition usize_sub :: "nat \<Rightarrow> nat \<Rightarrow> nat option" where
  "usize_sub a b = (if b \<le> a then Some (a - b) else None)"

definition u32_add :: "nat \<Rightarrow> nat \<Rightarrow> nat option" where
  "u32_add a b = (if a + b \<le> u32_max then Some (a + b) else None)"

definition u32_sub :: "nat \<Rightarrow> nat \<Rightarrow> nat option" where
  "u32_sub a b = (if b \<le> a then Some (a - b) else None)"

text \<open>The casts \<open>x as u32\<close> of a \<open>usize\<close> and \<open>Wrapping(x)\<close> of a \<open>u32\<close>.\<close>

definition as_u32 :: "nat \<Rightarrow> nat" where
  "as_u32 n = n mod 2 ^ 32"

lemma assert_that_True [simp]: "assert_that True = Some ()"
  by (simp add: assert_that_def)

lemma assert_that_False [simp]: "assert_that False = None"
  by (simp add: assert_that_def)

lemma assert_that_eq_Some [simp]: "assert_that b = Some u \<longleftrightarrow> b"
  by (cases b) auto

lemma usize_add_ok [checked_simps]: "a + b \<le> usize_max \<Longrightarrow> usize_add a b = Some (a + b)"
  by (simp add: usize_add_def)

lemma usize_sub_ok [checked_simps]: "b \<le> a \<Longrightarrow> usize_sub a b = Some (a - b)"
  by (simp add: usize_sub_def)

lemma u32_add_ok [checked_simps]: "a + b \<le> u32_max \<Longrightarrow> u32_add a b = Some (a + b)"
  by (simp add: u32_add_def)

lemma u32_sub_ok [checked_simps]: "b \<le> a \<Longrightarrow> u32_sub a b = Some (a - b)"
  by (simp add: u32_sub_def)

lemma as_u32_ok [checked_simps]: "n \<le> u32_max \<Longrightarrow> as_u32 n = n"
  by (simp add: as_u32_def u32_max_def)

subsection \<open>Polls\<close>

text \<open>\<open>std::task::Poll\<close>.\<close>

datatype 'a poll = Pending | Ready 'a

text \<open>The result of a \<open>try_\<close> method from that of the poll it makes: \<open>Ok(false)\<close> or \<open>Ok(None)\<close> when pending.\<close>

definition try_result :: "('e + unit) poll \<Rightarrow> 'e + bool" where
  "try_result r = (case r of Pending \<Rightarrow> Inr False | Ready (Inr _) \<Rightarrow> Inr True | Ready (Inl e) \<Rightarrow> Inl e)"

definition try_value :: "('e + 'a) poll \<Rightarrow> 'e + 'a option" where
  "try_value r = (case r of Pending \<Rightarrow> Inr None | Ready (Inr x) \<Rightarrow> Inr (Some x) | Ready (Inl e) \<Rightarrow> Inl e)"

subsection \<open>Slices and vectors\<close>

definition vec_get :: "'a list \<Rightarrow> nat \<Rightarrow> 'a option" where
  "vec_get xs i = (if i < length xs then Some (xs ! i) else None)"

definition vec_set :: "'a list \<Rightarrow> nat \<Rightarrow> 'a \<Rightarrow> 'a list option" where
  "vec_set xs i v = (if i < length xs then Some (xs[i := v]) else None)"

definition vec_insert :: "'a list \<Rightarrow> nat \<Rightarrow> 'a \<Rightarrow> 'a list option" where
  "vec_insert xs i v = (if i \<le> length xs then Some (take i xs @ v # drop i xs) else None)"

definition vec_remove :: "'a list \<Rightarrow> nat \<Rightarrow> 'a list option" where
  "vec_remove xs i = (if i < length xs then Some (take i xs @ drop (Suc i) xs) else None)"

text \<open>\<open>vec.drain(a..b)\<close>, with the drained elements dropped.\<close>

definition vec_drain :: "'a list \<Rightarrow> nat \<Rightarrow> nat \<Rightarrow> 'a list option" where
  "vec_drain xs a b = (if a \<le> b \<and> b \<le> length xs then Some (take a xs @ drop b xs) else None)"

text \<open>\<open>&xs[a..b]\<close>, and \<open>vec.resize(n, v)\<close>.\<close>

definition slice :: "'a list \<Rightarrow> nat \<Rightarrow> nat \<Rightarrow> 'a list option" where
  "slice xs a b = (if a \<le> b \<and> b \<le> length xs then Some (take (b - a) (drop a xs)) else None)"

definition vec_resize :: "'a list \<Rightarrow> nat \<Rightarrow> 'a \<Rightarrow> 'a list" where
  "vec_resize xs n v = (if n \<le> length xs then take n xs else xs @ replicate (n - length xs) v)"

text \<open>\<open>xs[a..a + ys.len()].copy_from_slice(ys)\<close>.\<close>

definition copy_at :: "'a list \<Rightarrow> nat \<Rightarrow> 'a list \<Rightarrow> 'a list option" where
  "copy_at xs a ys =
     (if a + length ys \<le> length xs
      then Some (take a xs @ ys @ drop (a + length ys) xs) else None)"

lemma vec_get_ok [checked_simps]: "i < length xs \<Longrightarrow> vec_get xs i = Some (xs ! i)"
  by (simp add: vec_get_def)

lemma vec_set_ok [checked_simps]: "i < length xs \<Longrightarrow> vec_set xs i v = Some (xs[i := v])"
  by (simp add: vec_set_def)

lemma vec_insert_ok [checked_simps]:
  "i \<le> length xs \<Longrightarrow> vec_insert xs i v = Some (take i xs @ v # drop i xs)"
  by (simp add: vec_insert_def)

lemma vec_remove_ok [checked_simps]:
  "i < length xs \<Longrightarrow> vec_remove xs i = Some (take i xs @ drop (Suc i) xs)"
  by (simp add: vec_remove_def)

lemma vec_drain_ok [checked_simps]:
  "a \<le> b \<Longrightarrow> b \<le> length xs \<Longrightarrow> vec_drain xs a b = Some (take a xs @ drop b xs)"
  by (simp add: vec_drain_def)

lemma slice_ok [checked_simps]:
  "a \<le> b \<Longrightarrow> b \<le> length xs \<Longrightarrow> slice xs a b = Some (take (b - a) (drop a xs))"
  by (simp add: slice_def)

lemma copy_at_ok [checked_simps]:
  "a + length ys \<le> length xs \<Longrightarrow>
   copy_at xs a ys = Some (take a xs @ ys @ drop (a + length ys) xs)"
  by (simp add: copy_at_def)

lemma length_vec_resize [simp]: "length (vec_resize xs n v) = n"
  by (simp add: vec_resize_def)

lemma vec_resize_append:
  "length xs \<le> n \<Longrightarrow> vec_resize xs n v = xs @ replicate (n - length xs) v"
  by (auto simp: vec_resize_def)

lemma copy_at_length: "copy_at xs a ys = Some zs \<Longrightarrow> length zs = length xs"
  by (auto simp: copy_at_def split: if_splits)

lemma nth_copy_at:
  assumes "copy_at xs a ys = Some zs" and "i < length xs"
  shows "zs ! i = (if a \<le> i \<and> i < a + length ys then ys ! (i - a) else xs ! i)"
  using assms by (auto simp: copy_at_def nth_append split: if_splits)

lemma map_upt_shift: "map g [m..<m + k] = map (\<lambda>i. g (m + i)) [0..<k]"
  by (intro nth_equalityI) auto

lemma map_upt_append:
  "map g [0..<m] @ map (\<lambda>i. g (m + i)) [0..<k] = map g [0..<m + k]"
  unfolding upt_add_eq_append [OF le0] map_append map_upt_shift ..

lemma option_bind_eq_Some: "Option.bind x f = Some y \<longleftrightarrow> (\<exists>a. x = Some a \<and> f a = Some y)"
  by (cases x) auto

text \<open>A copy of bytes that are all initialised.\<close>

lemma those_map_Some [simp]: "those (map Some xs) = Some xs"
  by (induction xs) auto

lemma those_eq_Some: "those os = Some xs \<longleftrightarrow> os = map Some xs"
  by (induction os arbitrary: xs) (auto split: option.splits)


subsection \<open>Comparison and binary search\<close>

text \<open>
  \<open>std::cmp::Ordering\<close>, and \<open>slice::binary_search_by\<close>: the loop of the standard library, with
  \<open>Inr i\<close> for \<open>Ok(i)\<close> and \<open>Inl i\<close> for \<open>Err(i)\<close>. The comparator may panic, and then so does the
  search.
\<close>

datatype ordering = Less | Equal | Greater

definition ord_cmp :: "'a::linorder \<Rightarrow> 'a \<Rightarrow> ordering" where
  "ord_cmp a b = (if a < b then Less else if a = b then Equal else Greater)"

lemma ord_cmp_eqs [simp]:
  "a < b \<Longrightarrow> ord_cmp a b = Less" "ord_cmp a a = Equal" "b < a \<Longrightarrow> ord_cmp a b = Greater"
  by (auto simp: ord_cmp_def)

fun is_lt :: "ordering \<Rightarrow> bool" where
  "is_lt Less = True" | "is_lt _ = False"

fun is_le :: "ordering \<Rightarrow> bool" where
  "is_le Greater = False" | "is_le _ = True"

fun is_gt :: "ordering \<Rightarrow> bool" where
  "is_gt Greater = True" | "is_gt _ = False"

fun is_ge :: "ordering \<Rightarrow> bool" where
  "is_ge Less = False" | "is_ge _ = True"

function binary_search_loop ::
  "('a \<Rightarrow> ordering option) \<Rightarrow> 'a list \<Rightarrow> nat \<Rightarrow> nat \<Rightarrow> (nat + nat) option" where
  "binary_search_loop f xs left right =
     (if left < right then do {
        x \<leftarrow> vec_get xs (left + (right - left) div 2);
        c \<leftarrow> f x;
        (case c of
           Less \<Rightarrow> binary_search_loop f xs (left + (right - left) div 2 + 1) right
         | Greater \<Rightarrow> binary_search_loop f xs left (left + (right - left) div 2)
         | Equal \<Rightarrow> Some (Inr (left + (right - left) div 2)))
      } else Some (Inl left))"
  by pat_completeness auto
termination
  by (relation "measure (\<lambda>(f, xs, left, right). right - left)") auto

declare binary_search_loop.simps [simp del]

definition binary_search_by :: "('a \<Rightarrow> ordering option) \<Rightarrow> 'a list \<Rightarrow> (nat + nat) option" where
  "binary_search_by f xs = binary_search_loop f xs 0 (length xs)"

text \<open>The number of elements whose key is below the target: where a key belongs in a sorted list.\<close>

definition below :: "('b \<Rightarrow> int) \<Rightarrow> int \<Rightarrow> 'b list \<Rightarrow> nat" where
  "below g t rs = length (takeWhile (\<lambda>r. g r < t) rs)"

lemma below_le_length: "below g t rs \<le> length rs"
  by (simp add: below_def length_takeWhile_le)

lemma nth_before_below: "i < below g t rs \<Longrightarrow> g (rs ! i) < t"
  unfolding below_def by (metis nth_mem set_takeWhileD takeWhile_nth)

lemma nth_at_below: "below g t rs < length rs \<Longrightarrow> t \<le> g (rs ! below g t rs)"
  unfolding below_def using nth_length_takeWhile not_le by blast

lemma nth_from_below:
  assumes "sorted_wrt (\<lambda>x y. g x < g y) rs" and "below g t rs \<le> i" and "i < length rs"
  shows "t \<le> g (rs ! i)" and "below g t rs < i \<Longrightarrow> t < g (rs ! i)"
proof -
  let ?k = "below g t rs"
  have k: "t \<le> g (rs ! ?k)" using assms by (intro nth_at_below) simp
  have lt: "g (rs ! ?k) < g (rs ! i)" if "?k < i"
    using sorted_wrt_nth_less [OF assms(1) that assms(3)] .
  show "t \<le> g (rs ! i)" using k lt assms(2) by (cases "?k = i") fastforce+
  show "?k < i \<Longrightarrow> t < g (rs ! i)" using k lt by fastforce
qed

lemma take_below: "take (below g t rs) rs = takeWhile (\<lambda>r. g r < t) rs"
  unfolding below_def by (rule takeWhile_eq_take [symmetric])

lemma drop_below: "drop (below g t rs) rs = dropWhile (\<lambda>r. g r < t) rs"
  unfolding below_def by (rule dropWhile_eq_drop [symmetric])

lemma binary_search_loop_keys:
  assumes "\<And>r. r \<in> set rs \<Longrightarrow> f (h r) = Some (ord_cmp (g r) t)"
    and "sorted_wrt (\<lambda>x y. g x < g y) rs"
    and "left \<le> below g t rs" and "below g t rs \<le> right" and "right \<le> length rs"
    and "right < length rs \<Longrightarrow> t < g (rs ! right)"
  shows "binary_search_loop f (map h rs) left right =
     Some (if below g t rs < length rs \<and> g (rs ! below g t rs) = t
           then Inr (below g t rs) else Inl (below g t rs))"
  using assms(3-)
proof (induction "right - left" arbitrary: left right rule: less_induct)
  case less
  let ?k = "below g t rs"
  let ?m = "left + (right - left) div 2"
  show ?case
  proof (cases "left < right")
    case False
    then have "?k = right" "left = ?k" using less.prems by auto
    moreover have "binary_search_loop f (map h rs) left right = Some (Inl left)"
      using False by (subst binary_search_loop.simps) simp
    ultimately show ?thesis using less.prems by auto
  next
    case True
    then have m: "left \<le> ?m" "?m < right" "?m < length rs" using less.prems by auto
    then have f: "f (h (rs ! ?m)) = Some (ord_cmp (g (rs ! ?m)) t)" using assms(1) by simp
    consider "?m < ?k" | "?m = ?k" | "?k < ?m" by linarith
    then show ?thesis
    proof cases
      case 1
      then have "g (rs ! ?m) < t" by (rule nth_before_below)
      moreover have "binary_search_loop f (map h rs) (?m + 1) right =
          Some (if ?k < length rs \<and> g (rs ! ?k) = t then Inr ?k else Inl ?k)"
        using less.prems m 1 by (intro less.hyps) auto
      ultimately show ?thesis using True m f
        by (simp add: binary_search_loop.simps [of f _ left right] vec_get_def ord_cmp_def)
    next
      case 2
      then have k: "?k < length rs" using m by simp
      then have ge: "t \<le> g (rs ! ?k)" by (rule nth_at_below)
      show ?thesis
      proof (cases "g (rs ! ?k) = t")
        case True
        with \<open>left < right\<close> m f k 2 show ?thesis
          by (simp add: binary_search_loop.simps [of f _ left right] vec_get_def ord_cmp_def)
      next
        case False
        have "binary_search_loop f (map h rs) left ?m =
            Some (if ?k < length rs \<and> g (rs ! ?k) = t then Inr ?k else Inl ?k)"
          using less.prems m 2 ge False k by (intro less.hyps) auto
        with True m f ge False 2 show ?thesis
          by (simp add: binary_search_loop.simps [of f _ left right] vec_get_def ord_cmp_def)
      qed
    next
      case 3
      then have gt: "t < g (rs ! ?m)" using nth_from_below [OF assms(2), of t ?m] m by simp
      moreover have "binary_search_loop f (map h rs) left ?m =
          Some (if ?k < length rs \<and> g (rs ! ?k) = t then Inr ?k else Inl ?k)"
        using less.prems m 3 gt by (intro less.hyps) auto
      ultimately show ?thesis using True m f
        by (simp add: binary_search_loop.simps [of f _ left right] vec_get_def ord_cmp_def)
    qed
  qed
qed

lemma binary_search_by_keys:
  assumes "\<And>r. r \<in> set rs \<Longrightarrow> f (h r) = Some (ord_cmp (g r) t)"
    and "sorted_wrt (\<lambda>x y. g x < g y) rs"
  shows "binary_search_by f (map h rs) =
     Some (if below g t rs < length rs \<and> g (rs ! below g t rs) = t
           then Inr (below g t rs) else Inl (below g t rs))"
proof -
  have "binary_search_loop f (map h rs) 0 (length rs) =
     Some (if below g t rs < length rs \<and> g (rs ! below g t rs) = t
           then Inr (below g t rs) else Inl (below g t rs))"
    using assms by (intro binary_search_loop_keys) (simp_all add: below_le_length)
  then show ?thesis by (simp add: binary_search_by_def)
qed

subsection \<open>Little-endian codecs\<close>

definition le_encode :: "nat \<Rightarrow> nat \<Rightarrow> byte list" where
  "le_encode k n = map (\<lambda>i. of_nat (n div 256 ^ i)) [0..<k]"

fun le_decode :: "byte list \<Rightarrow> nat" where
  "le_decode [] = 0"
| "le_decode (b # bs) = unat b + 256 * le_decode bs"

lemma length_le_encode [simp]: "length (le_encode k n) = k"
  by (simp add: le_encode_def)

lemma le_encode_0 [simp]: "le_encode 0 n = []"
  by (simp add: le_encode_def)

lemma le_encode_Suc: "le_encode (Suc k) n = of_nat n # le_encode k (n div 256)"
  by (simp add: le_encode_def upt_conv_Cons map_Suc_upt [symmetric] div_mult2_eq
      del: upt_Suc map_Suc_upt)

lemma le_decode_encode_mod: "le_decode (le_encode k n) = n mod 256 ^ k"
proof (induction k arbitrary: n)
  case 0
  then show ?case by simp
next
  case (Suc k)
  have "unat (of_nat n :: byte) = n mod 256" by (simp add: unat_of_nat)
  with Suc show ?case by (simp add: le_encode_Suc mod_mult2_eq)
qed

lemma le_decode_encode [simp]: "n < 256 ^ k \<Longrightarrow> le_decode (le_encode k n) = n"
  by (simp add: le_decode_encode_mod)

lemma le_decode_bound: "le_decode bs < 256 ^ length bs"
proof (induction bs)
  case Nil
  then show ?case by simp
next
  case (Cons b bs)
  have "unat b < 256" using unsigned_less [of b] by simp
  with Cons show ?case by simp
qed

text \<open>\<open>LittleEndian::write_u16/read_u16\<close>, \<open>write_u32/read_u32\<close> and \<open>write_i16/read_i16\<close>.\<close>

definition write_u16 :: "nat \<Rightarrow> byte list" where
  "write_u16 n = le_encode 2 n"

definition read_u16 :: "byte list \<Rightarrow> nat" where
  "read_u16 bs = le_decode bs"

definition write_u32 :: "32 word \<Rightarrow> byte list" where
  "write_u32 w = le_encode 4 (unat w)"

definition read_u32 :: "byte list \<Rightarrow> 32 word" where
  "read_u32 bs = of_nat (le_decode bs)"

definition write_i16 :: "int \<Rightarrow> byte list" where
  "write_i16 v = le_encode 2 (nat (v mod 2 ^ 16))"

definition read_i16 :: "byte list \<Rightarrow> int" where
  "read_i16 bs = (let n = int (le_decode bs) in if n < 2 ^ 15 then n else n - 2 ^ 16)"

lemma length_write [simp]:
  "length (write_u16 n) = 2" "length (write_u32 w) = 4" "length (write_i16 v) = 2"
  by (simp_all add: write_u16_def write_u32_def write_i16_def)

lemma read_write_u16 [simp]: "n \<le> u16_max \<Longrightarrow> read_u16 (write_u16 n) = n"
  by (simp add: read_u16_def write_u16_def u16_max_def)

lemma read_write_u32 [simp]: "read_u32 (write_u32 w) = w"
proof -
  have "unat w < 256 ^ 4" using unsigned_less [of w] by simp
  then show ?thesis by (simp add: read_u32_def write_u32_def)
qed

lemma read_write_i16 [simp]:
  assumes "- (2 ^ 15) \<le> v" and "v < 2 ^ 15"
  shows "read_i16 (write_i16 v) = v"
proof -
  have b: "nat (v mod 2 ^ 16) < 256 ^ 2" by simp
  have d: "le_decode (le_encode 2 (nat (v mod 2 ^ 16))) = nat (v mod 2 ^ 16)"
    using b by (rule le_decode_encode)
  show ?thesis
  proof (cases "0 \<le> v")
    case True
    with assms have "v mod 2 ^ 16 = v" by simp
    with assms True d show ?thesis by (simp add: read_i16_def write_i16_def)
  next
    case False
    have "v mod 2 ^ 16 = (v + 2 ^ 16) mod 2 ^ 16" by simp
    also have "\<dots> = v + 2 ^ 16" using False assms by (intro mod_pos_pos_trivial) auto
    finally have "v mod 2 ^ 16 = v + 2 ^ 16" .
    with assms False d show ?thesis by (simp add: read_i16_def write_i16_def)
  qed
qed

lemma read_u16_bound: "length bs = 2 \<Longrightarrow> read_u16 bs \<le> u16_max"
  using le_decode_bound [of bs] by (simp add: read_u16_def u16_max_def)

lemma read_i16_bounds:
  assumes "length bs = 2"
  shows "- (2 ^ 15) \<le> read_i16 bs" and "read_i16 bs < 2 ^ 15"
  using le_decode_bound [of bs] assms by (auto simp: read_i16_def Let_def)

end
