(* ===== verification/Ring_Buffer.thy ===== *)
theory Ring_Buffer
  imports Turbulence_Prelude
begin

text \<open>
  The single-producer single-consumer byte ring of \<open>ring_buffer.rs\<close>.

  \<open>Writer\<close> and \<open>Reader\<close> are two handles on one shared \<open>RingBuffer\<close>, so the operations of both act on
  one record. Head and tail run over twice the capacity, which tells a full ring from an empty one.
  Memory obtained from the allocator is uninitialised, so a cell is an optional byte, and a read of an
  uninitialised cell is a panic of the model (undefined behaviour in the code).

  The abstraction \<open>rb_view\<close> is the ring seen from the tail: its first \<open>rb_count\<close> cells are readable,
  the rest is free space. The locale \<open>byte_ring\<close> states what the windows rely on in these terms and
  proves the queue behaviour of write-then-advance and read-then-advance once.
\<close>

record ring_buffer =
  rb_buffer :: "byte option list"
  rb_capacity :: nat
  rb_head :: nat
  rb_tail :: nat

definition collapse_position :: "nat \<Rightarrow> nat \<Rightarrow> nat" where
  "collapse_position cap pos = (if pos < cap then pos else pos - cap)"

definition tail_to_head :: "nat \<Rightarrow> nat \<Rightarrow> nat \<Rightarrow> nat option" where
  "tail_to_head cap tail head =
     (if tail \<le> head then Some (head - tail)
      else do { d \<leftarrow> usize_sub tail cap; e \<leftarrow> usize_sub cap d; usize_add e head })"

definition head_to_tail :: "nat \<Rightarrow> nat \<Rightarrow> nat \<Rightarrow> nat option" where
  "head_to_tail cap head tail = do { d \<leftarrow> tail_to_head cap tail head; usize_sub cap d }"

definition increment :: "nat \<Rightarrow> nat \<Rightarrow> nat \<Rightarrow> nat option" where
  "increment cap pos n =
     (if n = 0 then Some pos
      else do {
        d \<leftarrow> usize_sub cap n;
        threshold \<leftarrow> usize_add d cap;
        if pos < threshold then usize_add pos n else Some (pos - threshold)
      })"

definition write_slice :: "byte option list \<Rightarrow> nat \<Rightarrow> byte list \<Rightarrow> byte option list option" where
  "write_slice buf start src = copy_at buf start (map Some src)"

text \<open>\<open>slice::from_raw_parts\<close> at \<open>start\<close>, read as initialised bytes.\<close>

definition read_slice :: "byte option list \<Rightarrow> nat \<Rightarrow> nat \<Rightarrow> byte list option" where
  "read_slice buf start n = do { s \<leftarrow> slice buf start (start + n); those s }"

definition RingBuffer_new :: "nat \<Rightarrow> ring_buffer option" where
  "RingBuffer_new capacity = do {
     assert_that (capacity \<noteq> 0);
     assert_that (capacity \<le> isize_max);
     Some \<lparr>rb_buffer = replicate capacity None, rb_capacity = capacity, rb_head = 0, rb_tail = 0\<rparr>
   }"

definition RingBuffer_write_available :: "ring_buffer \<Rightarrow> nat option" where
  "RingBuffer_write_available rb = head_to_tail (rb_capacity rb) (rb_head rb) (rb_tail rb)"

definition RingBuffer_read_available :: "ring_buffer \<Rightarrow> nat option" where
  "RingBuffer_read_available rb = tail_to_head (rb_capacity rb) (rb_tail rb) (rb_head rb)"

definition Writer_write :: "ring_buffer \<Rightarrow> nat \<Rightarrow> byte list \<Rightarrow> (ring_buffer \<times> nat) option" where
  "Writer_write rb offset data = (
     let cap = rb_capacity rb;
         head_pos = rb_head rb; tail_pos = rb_tail rb;
         head = collapse_position cap head_pos; tail = collapse_position cap tail_pos
     in if head = tail \<and> head_pos \<noteq> tail_pos then Some (rb, 0)
        else do {
          (left, left_size, right, right_size) \<leftarrow>
            (if head < tail then Some (head, tail - head, 0, 0)
             else do { n \<leftarrow> usize_sub cap head; Some (head, n, 0, tail) });
          let left_eat = min left_size offset;
          let left = left + left_eat;
          let left_size = left_size - left_eat;
          let offset = offset - left_eat;
          let left_len = min left_size (length data);
          buf \<leftarrow> write_slice (rb_buffer rb) left (take left_len data);
          let data = drop left_len data;
          let right_eat = min right_size offset;
          let right = right + right_eat;
          let right_size = right_size - right_eat;
          let right_len = min right_size (length data);
          buf \<leftarrow> write_slice buf right (take right_len data);
          Some (rb\<lparr>rb_buffer := buf\<rparr>, left_len + right_len)
        })"

definition Writer_advance :: "ring_buffer \<Rightarrow> nat \<Rightarrow> (ring_buffer \<times> nat) option" where
  "Writer_advance rb offset = do {
     free \<leftarrow> head_to_tail (rb_capacity rb) (rb_head rb) (rb_tail rb);
     let offset = min offset free;
     head \<leftarrow> increment (rb_capacity rb) (rb_head rb) offset;
     Some (rb\<lparr>rb_head := head\<rparr>, offset)
   }"

text \<open>\<open>Reader::read\<close> fills a prefix of \<open>data\<close>; the result is the new buffer and the count.\<close>

definition Reader_read :: "ring_buffer \<Rightarrow> nat \<Rightarrow> byte list \<Rightarrow> (byte list \<times> nat) option" where
  "Reader_read rb offset data = (
     let cap = rb_capacity rb;
         head_pos = rb_head rb; tail_pos = rb_tail rb;
         head = collapse_position cap head_pos; tail = collapse_position cap tail_pos
     in if head = tail \<and> head_pos = tail_pos then Some (data, 0)
        else do {
          (left, left_size, right, right_size) \<leftarrow>
            (if tail < head then Some (tail, head - tail, 0, 0)
             else do { n \<leftarrow> usize_sub cap tail; Some (tail, n, 0, head) });
          let left_eat = min left_size offset;
          let left = left + left_eat;
          let left_size = left_size - left_eat;
          let offset = offset - left_eat;
          let left_len = min left_size (length data);
          left_bytes \<leftarrow> read_slice (rb_buffer rb) left left_len;
          let rest = drop left_len data;
          let right_eat = min right_size offset;
          let right = right + right_eat;
          let right_size = right_size - right_eat;
          let right_len = min right_size (length rest);
          right_bytes \<leftarrow> read_slice (rb_buffer rb) right right_len;
          Some (left_bytes @ right_bytes @ drop right_len rest, left_len + right_len)
        })"

definition Reader_advance :: "ring_buffer \<Rightarrow> nat \<Rightarrow> (ring_buffer \<times> nat) option" where
  "Reader_advance rb offset = do {
     avail \<leftarrow> tail_to_head (rb_capacity rb) (rb_tail rb) (rb_head rb);
     let offset = min offset avail;
     tail \<leftarrow> increment (rb_capacity rb) (rb_tail rb) offset;
     Some (rb\<lparr>rb_tail := tail\<rparr>, offset)
   }"

subsection \<open>Invariant and abstraction\<close>

text \<open>Distance and movement on the circle of twice the capacity.\<close>

definition ring_dist :: "nat \<Rightarrow> nat \<Rightarrow> nat \<Rightarrow> nat" where
  "ring_dist c t h = (if t \<le> h then h - t else h + 2 * c - t)"

definition ring_move :: "nat \<Rightarrow> nat \<Rightarrow> nat \<Rightarrow> nat" where
  "ring_move c p n = (if p + n < 2 * c then p + n else p + n - 2 * c)"

definition rb_count :: "ring_buffer \<Rightarrow> nat" where
  "rb_count rb = ring_dist (rb_capacity rb) (rb_tail rb) (rb_head rb)"

definition rb_ok :: "ring_buffer \<Rightarrow> bool" where
  "rb_ok rb \<longleftrightarrow>
     0 < rb_capacity rb \<and> rb_capacity rb \<le> isize_max \<and>
     length (rb_buffer rb) = rb_capacity rb \<and>
     rb_head rb < 2 * rb_capacity rb \<and> rb_tail rb < 2 * rb_capacity rb \<and>
     rb_count rb \<le> rb_capacity rb"

definition rb_view :: "ring_buffer \<Rightarrow> byte option list" where
  "rb_view rb = rotate (rb_tail rb) (rb_buffer rb)"

text \<open>\<open>write_over xs a ys\<close>: the list \<open>xs\<close> with \<open>ys\<close> written at \<open>a\<close>.\<close>

definition write_over :: "'a list \<Rightarrow> nat \<Rightarrow> 'a list \<Rightarrow> 'a list" where
  "write_over xs a ys = take a xs @ ys @ drop (a + length ys) xs"

lemma length_write_over: "a + length ys \<le> length xs \<Longrightarrow> length (write_over xs a ys) = length xs"
  by (simp add: write_over_def)

lemma nth_write_over:
  "a + length ys \<le> length xs \<Longrightarrow> i < length xs \<Longrightarrow>
   write_over xs a ys ! i = (if a \<le> i \<and> i < a + length ys then ys ! (i - a) else xs ! i)"
  by (auto simp: write_over_def nth_append)

lemma write_over_Nil [simp]: "write_over xs a [] = xs"
  by (simp add: write_over_def)

lemma length_rb_view [simp]: "length (rb_view rb) = length (rb_buffer rb)"
  by (simp add: rb_view_def)

lemma usize_double: "n \<le> isize_max \<Longrightarrow> m \<le> 2 * n \<Longrightarrow> m \<le> usize_max"
  by (simp add: isize_max_def usize_max_def)

lemma rb_okD:
  assumes "rb_ok rb"
  shows "0 < rb_capacity rb" "rb_capacity rb \<le> isize_max"
    "length (rb_buffer rb) = rb_capacity rb"
    "rb_head rb < 2 * rb_capacity rb" "rb_tail rb < 2 * rb_capacity rb"
    "rb_count rb \<le> rb_capacity rb"
  using assms by (auto simp: rb_ok_def)

lemma collapse_position_mod: "pos < 2 * cap \<Longrightarrow> collapse_position cap pos = pos mod cap"
  by (auto simp: collapse_position_def mod_if)

text \<open>The physical index of a logical offset, without \<open>mod\<close>.\<close>

definition wrap_index :: "nat \<Rightarrow> nat \<Rightarrow> nat" where
  "wrap_index cap i = (if i < cap then i else i - cap)"

lemma rb_view_nth:
  assumes "rb_ok rb" and "i < rb_capacity rb"
  shows "rb_view rb ! i =
    rb_buffer rb ! wrap_index (rb_capacity rb) (collapse_position (rb_capacity rb) (rb_tail rb) + i)"
  using rb_okD [OF assms(1)] assms(2)
  by (auto simp: rb_view_def nth_rotate wrap_index_def collapse_position_def mod_if)

lemma ring_move_bound: "p < 2 * c \<Longrightarrow> n \<le> c \<Longrightarrow> ring_move c p n < 2 * c"
  by (auto simp: ring_move_def)

lemma ring_move_mod: "p < 2 * c \<Longrightarrow> n \<le> c \<Longrightarrow> ring_move c p n mod c = (p + n) mod c"
  by (auto simp: ring_move_def mod_if)

lemma ring_dist_move_head:
  "h < 2 * c \<Longrightarrow> t < 2 * c \<Longrightarrow> ring_dist c t h + n \<le> c \<Longrightarrow> 0 < c \<Longrightarrow>
   ring_dist c t (ring_move c h n) = ring_dist c t h + n"
  by (auto simp: ring_move_def ring_dist_def split: if_splits)

lemma ring_dist_move_tail:
  "h < 2 * c \<Longrightarrow> t < 2 * c \<Longrightarrow> n \<le> ring_dist c t h \<Longrightarrow> ring_dist c t h \<le> c \<Longrightarrow> 0 < c \<Longrightarrow>
   ring_dist c (ring_move c t n) h = ring_dist c t h - n"
  by (auto simp: ring_move_def ring_dist_def split: if_splits)

lemma collapsed_head:
  assumes "rb_ok rb"
  defines "h \<equiv> collapse_position (rb_capacity rb) (rb_head rb)"
    and "t \<equiv> collapse_position (rb_capacity rb) (rb_tail rb)"
  shows "h < rb_capacity rb" "t < rb_capacity rb"
    "h = (if rb_count rb = rb_capacity rb then t else wrap_index (rb_capacity rb) (t + rb_count rb))"
    "h = t \<and> rb_head rb \<noteq> rb_tail rb \<longleftrightarrow> rb_count rb = rb_capacity rb"
    "h = t \<and> rb_head rb = rb_tail rb \<longleftrightarrow> rb_count rb = 0"
  using rb_okD [OF assms(1)]
  by (auto simp: h_def t_def collapse_position_def wrap_index_def rb_count_def ring_dist_def split: if_splits)

lemma tail_to_head_count:
  assumes "rb_ok rb"
  shows "tail_to_head (rb_capacity rb) (rb_tail rb) (rb_head rb) = Some (rb_count rb)"
  using rb_okD [OF assms] usize_double [OF rb_okD(2) [OF assms]]
  by (auto simp: tail_to_head_def rb_count_def ring_dist_def checked_simps)

lemma head_to_tail_free:
  assumes "rb_ok rb"
  shows "head_to_tail (rb_capacity rb) (rb_head rb) (rb_tail rb) =
    Some (rb_capacity rb - rb_count rb)"
  using rb_okD [OF assms] by (simp add: head_to_tail_def tail_to_head_count [OF assms] checked_simps)

lemma read_available_count: "rb_ok rb \<Longrightarrow> RingBuffer_read_available rb = Some (rb_count rb)"
  by (simp add: RingBuffer_read_available_def tail_to_head_count)

lemma write_available_free:
  "rb_ok rb \<Longrightarrow> RingBuffer_write_available rb = Some (rb_capacity rb - rb_count rb)"
  by (simp add: RingBuffer_write_available_def head_to_tail_free)

lemma increment_wraps:
  assumes "0 < cap" and "cap \<le> isize_max" and "pos < 2 * cap" and "n \<le> cap"
  shows "increment cap pos n = Some (ring_move cap pos n)"
  using assms usize_double [OF assms(2)]
  by (auto simp: increment_def ring_move_def checked_simps)

lemma RingBuffer_new_ok:
  assumes "RingBuffer_new c = Some rb"
  shows "rb_ok rb" and "rb_count rb = 0" and "rb_capacity rb = c"
  using assms by (auto simp: RingBuffer_new_def rb_ok_def rb_count_def ring_dist_def option_bind_eq_Some)

lemma RingBuffer_new_returns:
  "c \<noteq> 0 \<Longrightarrow> c \<le> isize_max \<Longrightarrow> \<exists>rb. RingBuffer_new c = Some rb"
  by (simp add: RingBuffer_new_def)

subsection \<open>What each operation does to the view\<close>

lemma copy_at_write_over: "a + length ys \<le> length xs \<Longrightarrow> copy_at xs a ys = Some (write_over xs a ys)"
  by (simp add: copy_at_def write_over_def)

lemma Writer_advance_spec:
  fixes k :: nat
  assumes "rb_ok rb"
  defines "n \<equiv> min k (rb_capacity rb - rb_count rb)"
  shows "\<exists>rb'. Writer_advance rb k = Some (rb', n) \<and> rb_ok rb' \<and>
     rb_capacity rb' = rb_capacity rb \<and> rb_count rb' = rb_count rb + n \<and> rb_view rb' = rb_view rb"
proof -
  note ok = rb_okD [OF assms(1)]
  let ?rb = "rb\<lparr>rb_head := ring_move (rb_capacity rb) (rb_head rb) n\<rparr>"
  have n: "rb_count rb + n \<le> rb_capacity rb" using ok by (simp add: n_def)
  have "increment (rb_capacity rb) (rb_head rb) n = Some (ring_move (rb_capacity rb) (rb_head rb) n)"
    using ok n by (intro increment_wraps) auto
  then have "Writer_advance rb k = Some (?rb, n)"
    by (simp add: Writer_advance_def head_to_tail_free [OF assms(1)] n_def Let_def)
  moreover have "rb_count ?rb = rb_count rb + n"
    using ok n by (simp add: rb_count_def ring_dist_move_head)
  moreover from this have "rb_ok ?rb"
    using ok n by (simp add: rb_ok_def ring_move_bound)
  ultimately show ?thesis by (simp add: rb_view_def)
qed

lemma rotate_rotate_mod: "length xs = c \<Longrightarrow> a mod c = (t + n) mod c \<Longrightarrow> rotate a xs = rotate n (rotate t xs)"
  by (metis add.commute rotate_conv_mod rotate_rotate)

lemma Reader_advance_spec:
  fixes k :: nat
  assumes "rb_ok rb"
  defines "n \<equiv> min k (rb_count rb)"
  shows "\<exists>rb'. Reader_advance rb k = Some (rb', n) \<and> rb_ok rb' \<and>
     rb_capacity rb' = rb_capacity rb \<and> rb_count rb' = rb_count rb - n \<and>
     rb_view rb' = rotate n (rb_view rb)"
proof -
  note ok = rb_okD [OF assms(1)]
  let ?rb = "rb\<lparr>rb_tail := ring_move (rb_capacity rb) (rb_tail rb) n\<rparr>"
  have n: "n \<le> rb_count rb" by (simp add: n_def)
  have "increment (rb_capacity rb) (rb_tail rb) n = Some (ring_move (rb_capacity rb) (rb_tail rb) n)"
    using ok n by (intro increment_wraps) auto
  then have "Reader_advance rb k = Some (?rb, n)"
    by (simp add: Reader_advance_def tail_to_head_count [OF assms(1)] n_def Let_def)
  moreover have "rb_count ?rb = rb_count rb - n"
    using ok n by (simp add: rb_count_def ring_dist_move_tail)
  moreover from this have "rb_ok ?rb"
    using ok n by (simp add: rb_ok_def ring_move_bound)
  moreover have "rb_view ?rb = rotate n (rb_view rb)"
    using ok n by (simp add: rb_view_def rotate_rotate_mod ring_move_mod)
  ultimately show ?thesis by simp
qed


text \<open>One contiguous physical region is one contiguous region of the view.\<close>

lemma wrap_index_region:
  assumes "t < c" and "i < c" and "j + n \<le> c" and "wrap_index c (t + j) + n \<le> c"
  shows "wrap_index c (t + j) \<le> wrap_index c (t + i) \<and> wrap_index c (t + i) < wrap_index c (t + j) + n
      \<longleftrightarrow> j \<le> i \<and> i < j + n"
    and "j \<le> i \<and> i < j + n \<Longrightarrow> wrap_index c (t + i) - wrap_index c (t + j) = i - j"
  using assms by (auto simp: wrap_index_def split: if_splits)

lemma rb_view_write_over:
  assumes "rb_ok rb" and "j + length xs \<le> rb_capacity rb"
    and "xs \<noteq> [] \<Longrightarrow>
      l = wrap_index (rb_capacity rb) (collapse_position (rb_capacity rb) (rb_tail rb) + j) \<and>
      l + length xs \<le> rb_capacity rb"
  shows "rb_view (rb\<lparr>rb_buffer := write_over (rb_buffer rb) l xs\<rparr>) = write_over (rb_view rb) j xs"
    (is "rb_view ?rb' = _") and "rb_ok (rb\<lparr>rb_buffer := write_over (rb_buffer rb) l xs\<rparr>)"
proof -
  note ok = rb_okD [OF assms(1)]
  show ok': "rb_ok ?rb'"
    using ok assms(3) by (cases "xs = []") (auto simp: rb_ok_def rb_count_def length_write_over)
  show "rb_view ?rb' = write_over (rb_view rb) j xs"
  proof (cases "xs = []")
    case False
    define c where "c = rb_capacity rb"
    define t where "t = collapse_position c (rb_tail rb)"
    have l: "l = wrap_index c (t + j)" "l + length xs \<le> c"
      using assms(3) False by (auto simp: c_def t_def)
    have len: "length (rb_buffer rb) = c" using ok by (simp add: c_def)
    show ?thesis
    proof (rule nth_equalityI)
      show "length (rb_view ?rb') = length (write_over (rb_view rb) j xs)"
        using len l assms(2) by (simp add: length_write_over c_def)
      fix i assume "i < length (rb_view ?rb')"
      then have i: "i < c" using len l by (simp add: length_write_over)
      have t: "t < c" using collapsed_head(2) [OF assms(1)] by (simp add: t_def c_def)
      then have w: "wrap_index c (t + i) < c" using i by (auto simp: wrap_index_def)
      have "rb_view ?rb' ! i = write_over (rb_buffer rb) l xs ! wrap_index c (t + i)"
        using rb_view_nth [OF ok'] i by (simp add: c_def t_def)
      also have "\<dots> = write_over (rb_view rb) j xs ! i"
        using rb_view_nth [OF assms(1)] i w l len assms(2) wrap_index_region [OF t i, of j "length xs"]
        by (simp add: nth_write_over c_def t_def)
      finally show "rb_view ?rb' ! i = write_over (rb_view rb) j xs ! i" .
    qed
  qed simp
qed

lemma write_over_twice: 
  assumes "a + length xs + length ys \<le> length zs"
  shows "write_over (write_over zs a xs) (a + length xs) ys = write_over zs a (xs @ ys)"
proof -
  have "min (length zs) a = a" using assms by simp
  then show ?thesis by (simp add: write_over_def ac_simps)
qed
lemma two_parts:
  fixes ls rs off d F :: nat
  assumes "ls + rs = F"
  shows "min (ls - min ls off) d + min (rs - min rs (off - min ls off)) (d - min (ls - min ls off) d) = min d (F - off)"
proof (cases "off \<le> ls")
  case True
  then show ?thesis using assms by (auto simp: min_def)
next
  case False
  then show ?thesis using assms by (auto simp: min_def)
qed


text \<open>
  \<open>write\<close> and \<open>read\<close> both cut their area (free or readable, \<open>F\<close> cells from logical offset \<open>b\<close>) into
  a left and a right physical region, skip \<open>off\<close> cells, and copy at most \<open>d\<close> bytes.
\<close>

definition two_regions :: "nat \<Rightarrow> nat \<Rightarrow> nat \<Rightarrow> nat \<Rightarrow> nat \<Rightarrow> nat \<Rightarrow> nat \<Rightarrow> bool" where
  "two_regions c t b F l ls rs \<longleftrightarrow>
     t < c \<and> l = wrap_index c (t + b) \<and> ls + rs = F \<and> b + F \<le> c \<and> l + ls \<le> c \<and> rs \<le> c \<and>
     (rs \<noteq> 0 \<longrightarrow> l + ls = c)"

lemma two_regions_copy:
  fixes off d :: nat
  assumes "two_regions c t b F l ls rs"
  defines "le \<equiv> min ls off"
  defines "ll \<equiv> min (ls - le) d"
  defines "re \<equiv> min rs (off - le)"
  defines "rl \<equiv> min (rs - re) (d - ll)"
  shows "ll + rl = min d (F - off)"
    and "l + le + ll \<le> c" and "re + rl \<le> c"
    and "ll \<noteq> 0 \<Longrightarrow> l + le = wrap_index c (t + (b + off))"
    and "rl \<noteq> 0 \<Longrightarrow> re = wrap_index c (t + (b + off + ll))"
proof -
  note r = assms(1) [unfolded two_regions_def]
  show "ll + rl = min d (F - off)"
    unfolding ll_def rl_def re_def le_def using r by (intro two_parts) blast
  have "le \<le> ls" "ll \<le> ls - le" "re \<le> rs" "rl \<le> rs - re"
    by (simp_all add: le_def ll_def re_def rl_def)
  then show "l + le + ll \<le> c" "re + rl \<le> c" using r by linarith+
  show "l + le = wrap_index c (t + (b + off))" if "ll \<noteq> 0"
  proof -
    from that have "le = off" "off < ls" by (auto simp: ll_def le_def)
    with r show ?thesis by (auto simp: wrap_index_def split: if_splits)
  qed
  show "re = wrap_index c (t + (b + off + ll))" if "rl \<noteq> 0"
  proof -
    from that have rs: "rs \<noteq> 0" "ll < d" "re = off - le" by (auto simp: rl_def re_def)
    then have "off + ll = ls + re" by (auto simp: ll_def le_def)
    moreover have "re < rs" using that by (simp add: rl_def)
    ultimately show ?thesis using r rs(1) by (auto simp: wrap_index_def split: if_splits)
  qed
qed

lemma write_regions:
  assumes "rb_ok rb" and "rb_count rb < rb_capacity rb"
  defines "h \<equiv> collapse_position (rb_capacity rb) (rb_head rb)"
    and "t \<equiv> collapse_position (rb_capacity rb) (rb_tail rb)"
  shows "two_regions (rb_capacity rb) t (rb_count rb) (rb_capacity rb - rb_count rb)
     h (if h < t then t - h else rb_capacity rb - h) (if h < t then 0 else t)"
proof -
  have "h < rb_capacity rb" "t < rb_capacity rb"
    and h: "h = wrap_index (rb_capacity rb) (t + rb_count rb)"
    using collapsed_head [OF assms(1)] assms(2) by (auto simp: h_def t_def)
  then show ?thesis using assms(2)
    by (auto simp: two_regions_def wrap_index_def split: if_splits)
qed

lemma read_regions:
  assumes "rb_ok rb" and "0 < rb_count rb"
  defines "h \<equiv> collapse_position (rb_capacity rb) (rb_head rb)"
    and "t \<equiv> collapse_position (rb_capacity rb) (rb_tail rb)"
  shows "two_regions (rb_capacity rb) t 0 (rb_count rb)
     t (if t < h then h - t else rb_capacity rb - t) (if t < h then 0 else h)"
proof -
  have "h < rb_capacity rb" "t < rb_capacity rb" "rb_count rb \<le> rb_capacity rb"
    and "h = (if rb_count rb = rb_capacity rb then t else wrap_index (rb_capacity rb) (t + rb_count rb))"
    using collapsed_head [OF assms(1)] rb_okD [OF assms(1)] by (auto simp: h_def t_def)
  then show ?thesis using assms(2)
    by (auto simp: two_regions_def wrap_index_def split: if_splits)
qed

lemma Writer_write_spec:
  fixes data :: "byte list" and off :: nat
  assumes "rb_ok rb"
  defines "n \<equiv> min (length data) (rb_capacity rb - rb_count rb - off)"
  shows "\<exists>rb'. Writer_write rb off data = Some (rb', n) \<and> rb_ok rb' \<and>
     rb_capacity rb' = rb_capacity rb \<and> rb_count rb' = rb_count rb \<and>
     rb_view rb' = write_over (rb_view rb) (rb_count rb + off) (map Some (take n data))"
proof (cases "rb_count rb = rb_capacity rb")
  case True
  with collapsed_head(4) [OF assms(1)] assms(1) show ?thesis
    by (simp add: Writer_write_def n_def)
next
  case False
  note ok = rb_okD [OF assms(1)] and h = collapsed_head [OF assms(1)]
  define c where "c = rb_capacity rb"
  define N where "N = rb_count rb"
  define H where "H = collapse_position c (rb_head rb)"
  define T where "T = collapse_position c (rb_tail rb)"
  define ls where "ls = (if H < T then T - H else c - H)"
  define rs where "rs = (if H < T then 0 else T)"
  define le where "le = min ls off"
  define ll where "ll = min (ls - le) (length data)"
  define re where "re = min rs (off - le)"
  define rl where "rl = min (rs - re) (length data - ll)"
  define rb1 where "rb1 = rb\<lparr>rb_buffer := write_over (rb_buffer rb) (H + le) (map Some (take ll data))\<rparr>"
  define rb2 where "rb2 = rb1\<lparr>rb_buffer := write_over (rb_buffer rb1) re (map Some (take rl (drop ll data)))\<rparr>"
  have "two_regions c T N (c - N) H ls rs"
    using write_regions [OF assms(1)] False ok(6)
    unfolding ls_def rs_def H_def T_def c_def N_def by force
  note cp = two_regions_copy [OF this, of off "length data", folded le_def, folded ll_def re_def,
      folded rl_def]
  have n: "n = ll + rl" using cp(1) by (simp add: n_def c_def N_def)
  have len: "length (take ll data) = ll" "length (take rl (drop ll data)) = rl"
    by (simp_all add: ll_def rl_def)
  have region: "(if H < T then Some (H, T - H, 0, 0)
      else do { n \<leftarrow> usize_sub c H; Some (H, n, 0, T) }) = Some (H, ls, 0, rs)"
    using h(1) by (simp add: ls_def rs_def H_def c_def checked_simps)
  have w1: "write_slice (rb_buffer rb) (H + le) (take ll data) = Some (rb_buffer rb1)"
    using cp(2) len ok(3) by (simp add: write_slice_def copy_at_write_over rb1_def c_def)
  have w2: "write_slice (rb_buffer rb1) re (take rl (drop ll data)) = Some (rb_buffer rb2)"
    using cp(2,3) len ok(3)
    by (simp add: write_slice_def copy_at_write_over rb1_def rb2_def c_def length_write_over)
  have rb2: "rb\<lparr>rb_buffer := rb_buffer rb2\<rparr> = rb2" by (simp add: rb2_def rb1_def)
  have nonfull: "(H = T \<and> rb_head rb \<noteq> rb_tail rb) = False"
    using h(4) False by (simp add: H_def T_def c_def)
  have run: "Writer_write rb off data = Some (rb2, ll + rl)"
    unfolding Writer_write_def Let_def c_def [symmetric]
    unfolding H_def [symmetric] T_def [symmetric]
    by (simp only: region nonfull if_False bind.bind_lunit prod.case length_drop w1 w2 rb2 add_0
        flip: le_def ll_def re_def rl_def)
  show ?thesis
  proof (cases "n = 0")
    case True
    with n have "rb2 = rb" by (simp add: rb2_def rb1_def)
    with run n True assms(1) show ?thesis by simp
  next
    case pos: False
    have "ll + rl \<le> c - N - off" using n by (simp add: n_def c_def N_def)
    then have room: "N + off + ll + rl \<le> c" using pos n by linarith
    have v1: "rb_view rb1 = write_over (rb_view rb) (N + off) (map Some (take ll data))"
      and ok1: "rb_ok rb1"
      unfolding rb1_def using assms(1) room cp(2,4) len
      by (intro rb_view_write_over; simp add: T_def c_def; fail)+
    have v2: "rb_view rb2 = write_over (rb_view rb1) (N + off + ll) (map Some (take rl (drop ll data)))"
      and ok2: "rb_ok rb2"
      unfolding rb2_def using ok1 room cp(3,5) len
      by (intro rb_view_write_over; simp add: rb1_def T_def c_def; fail)+
    have "rb_view rb2 = write_over (rb_view rb) (N + off) (map Some (take ll data @ take rl (drop ll data)))"
      using v1 v2 room len ok write_over_twice [of "N + off" "map Some (take ll data)"]
      by (simp add: c_def)
    moreover have "take ll data @ take rl (drop ll data) = take n data"
      by (simp add: n take_add)
    ultimately show ?thesis using run ok2 n
      by (simp add: N_def rb2_def rb1_def rb_count_def)
  qed
qed


lemma slice_view:
  assumes "rb_ok rb" and "j + n \<le> rb_capacity rb"
    and "n \<noteq> 0 \<Longrightarrow>
      l = wrap_index (rb_capacity rb) (collapse_position (rb_capacity rb) (rb_tail rb) + j)"
    and "l + n \<le> rb_capacity rb"
  shows "slice (rb_buffer rb) l (l + n) = Some (take n (drop j (rb_view rb)))"
proof -
  define c where "c = rb_capacity rb"
  define t where "t = collapse_position c (rb_tail rb)"
  have len: "length (rb_buffer rb) = c" using rb_okD [OF assms(1)] by (simp add: c_def)
  have t: "t < c" using collapsed_head(2) [OF assms(1)] by (simp add: t_def c_def)
  have "take n (drop l (rb_buffer rb)) = take n (drop j (rb_view rb))"
  proof (rule nth_equalityI)
    show "length (take n (drop l (rb_buffer rb))) = length (take n (drop j (rb_view rb)))"
      using len assms(2,4) by (simp add: c_def)
    fix i assume "i < length (take n (drop l (rb_buffer rb)))"
    then have i: "i < n" by simp
    then have l: "l = wrap_index c (t + j)" using assms(3) by (simp add: t_def c_def)
    have "rb_view rb ! (j + i) = rb_buffer rb ! wrap_index c (t + (j + i))"
      using rb_view_nth [OF assms(1)] i assms(2) by (simp add: c_def t_def)
    moreover have "wrap_index c (t + (j + i)) = l + i"
      using l i t assms(2,4) unfolding c_def [symmetric]
      by (auto simp: wrap_index_def split: if_splits)
    ultimately show "take n (drop l (rb_buffer rb)) ! i = take n (drop j (rb_view rb)) ! i"
      using i len assms(2,4) by (simp add: c_def)
  qed
  with assms(4) len show ?thesis by (simp add: slice_def c_def)
qed

lemma read_slice_view:
  assumes "rb_ok rb" and "j + n \<le> rb_capacity rb"
    and "n \<noteq> 0 \<Longrightarrow>
      l = wrap_index (rb_capacity rb) (collapse_position (rb_capacity rb) (rb_tail rb) + j)"
    and "l + n \<le> rb_capacity rb" and "take n (drop j (rb_view rb)) = map Some xs"
  shows "read_slice (rb_buffer rb) l n = Some xs"
  using slice_view [OF assms(1-4)] assms(5) by (simp add: read_slice_def)

lemma Reader_read_spec:
  fixes data :: "byte list" and off :: nat
  assumes "rb_ok rb" and "take (rb_count rb) (rb_view rb) = map Some xs"
  defines "n \<equiv> min (length data) (rb_count rb - off)"
  shows "Reader_read rb off data = Some (take n (drop off xs) @ drop n data, n)"
proof (cases "rb_count rb = 0")
  case True
  with collapsed_head(5) [OF assms(1)] show ?thesis
    by (simp add: Reader_read_def n_def)
next
  case False
  note ok = rb_okD [OF assms(1)] and h = collapsed_head [OF assms(1)]
  define c where "c = rb_capacity rb"
  define N where "N = rb_count rb"
  define H where "H = collapse_position c (rb_head rb)"
  define T where "T = collapse_position c (rb_tail rb)"
  define ls where "ls = (if T < H then H - T else c - T)"
  define rs where "rs = (if T < H then 0 else H)"
  define le where "le = min ls off"
  define ll where "ll = min (ls - le) (length data)"
  define re where "re = min rs (off - le)"
  define rl where "rl = min (rs - re) (length data - ll)"
  have "two_regions c T 0 N T ls rs"
    using read_regions [OF assms(1)] False
    unfolding ls_def rs_def H_def T_def c_def N_def by force
  note cp = two_regions_copy [OF this, of off "length data", folded le_def, folded ll_def re_def,
      folded rl_def]
  have n: "n = ll + rl" using cp(1) by (simp add: n_def N_def)
  have xs: "length xs = N"
    using arg_cong [OF assms(2), of length] ok by (simp add: N_def)
  have sub: "take m (drop j (rb_view rb)) = map Some (take m (drop j xs))" if "j + m \<le> N" for j m
  proof -
    have "take m (drop j (rb_view rb)) = take m (drop j (take N (rb_view rb)))"
      using that by (simp add: drop_take)
    then show ?thesis using assms(2) by (simp add: N_def take_map drop_map)
  qed
  have room: "off + ll + rl \<le> N" if "ll + rl \<noteq> 0"
  proof -
    have "ll + rl \<le> N - off" using n by (simp add: n_def N_def)
    with that show ?thesis by linarith
  qed
  have region: "(if T < H then Some (T, H - T, 0, 0)
      else do { n \<leftarrow> usize_sub c T; Some (T, n, 0, H) }) = Some (T, ls, 0, rs)"
    using h(2) by (simp add: ls_def rs_def T_def c_def checked_simps)
  have r1: "read_slice (rb_buffer rb) (T + le) ll = Some (take ll (drop off xs))"
  proof (cases "ll = 0")
    case True
    then show ?thesis using cp(2) ok(3) by (simp add: read_slice_def slice_def c_def)
  next
    case False
    then show ?thesis using assms(1) room cp(2,4) sub [of off ll] ok(6)
      by (intro read_slice_view) (simp_all add: T_def c_def N_def)
  qed
  have r2: "read_slice (rb_buffer rb) re rl = Some (take rl (drop (off + ll) xs))"
  proof (cases "rl = 0")
    case True
    then show ?thesis using cp(3) ok(3) by (simp add: read_slice_def slice_def c_def)
  next
    case False
    then show ?thesis using assms(1) room cp(3,5) sub [of "off + ll" rl] ok(6)
      by (intro read_slice_view) (simp_all add: T_def c_def N_def)
  qed
  have nonempty: "(H = T \<and> rb_head rb = rb_tail rb) = False"
    using h(5) False by (simp add: H_def T_def c_def)
  have "Reader_read rb off data =
      Some (take ll (drop off xs) @ take rl (drop (off + ll) xs) @ drop rl (drop ll data), ll + rl)"
    unfolding Reader_read_def Let_def c_def [symmetric]
    unfolding H_def [symmetric] T_def [symmetric]
    by (simp only: region nonempty if_False bind.bind_lunit prod.case length_drop r1 r2 add_0
        flip: le_def ll_def re_def rl_def)
  moreover have "take ll (drop off xs) @ take rl (drop (off + ll) xs) = take n (drop off xs)"
    by (simp add: n take_add add.commute)
  ultimately show ?thesis by (simp add: n add.commute)
qed

subsection \<open>The interface the windows use\<close>

text \<open>
  A ring is its capacity, the number of readable cells and the view of all cells from the oldest
  readable one. Writing fills free cells without publishing them, advancing the writer publishes,
  reading copies without consuming, advancing the reader frees.
\<close>

locale byte_ring =
  fixes inv :: "'r \<Rightarrow> bool"
    and cap :: "'r \<Rightarrow> nat"
    and count :: "'r \<Rightarrow> nat"
    and view :: "'r \<Rightarrow> byte option list"
    and write_at :: "'r \<Rightarrow> nat \<Rightarrow> byte list \<Rightarrow> ('r \<times> nat) option"
    and wadvance :: "'r \<Rightarrow> nat \<Rightarrow> ('r \<times> nat) option"
    and read_at :: "'r \<Rightarrow> nat \<Rightarrow> byte list \<Rightarrow> (byte list \<times> nat) option"
    and radvance :: "'r \<Rightarrow> nat \<Rightarrow> ('r \<times> nat) option"
  assumes length_view: "inv r \<Longrightarrow> length (view r) = cap r"
    and count_le: "inv r \<Longrightarrow> count r \<le> cap r"
    and write_law: "inv r \<Longrightarrow> n = min (length data) (cap r - count r - off) \<Longrightarrow>
      \<exists>r'. write_at r off data = Some (r', n) \<and> inv r' \<and> cap r' = cap r \<and> count r' = count r \<and>
        view r' = write_over (view r) (count r + off) (map Some (take n data))"
    and wadvance_law: "inv r \<Longrightarrow> n = min k (cap r - count r) \<Longrightarrow>
      \<exists>r'. wadvance r k = Some (r', n) \<and> inv r' \<and> cap r' = cap r \<and> count r' = count r + n \<and>
        view r' = view r"
    and read_law: "inv r \<Longrightarrow> take (count r) (view r) = map Some xs \<Longrightarrow>
      n = min (length data) (count r - off) \<Longrightarrow>
      read_at r off data = Some (take n (drop off xs) @ drop n data, n)"
    and radvance_law: "inv r \<Longrightarrow> n = min k (count r) \<Longrightarrow>
      \<exists>r'. radvance r k = Some (r', n) \<and> inv r' \<and> cap r' = cap r \<and> count r' = count r - n \<and>
        view r' = rotate n (view r)"
begin

lemma length_content:
  "inv r \<Longrightarrow> take (count r) (view r) = map Some xs \<Longrightarrow> length xs = count r"
  using count_le length_view by (metis length_map length_take min.absorb2)

text \<open>Write at offset 0 and publish what was written: an append at the end of the queue.\<close>

lemma push:
  assumes "inv r" and "take (count r) (view r) = map Some xs"
    and n: "n = min (length data) (cap r - count r)"
  shows "\<exists>r1 r2. write_at r 0 data = Some (r1, n) \<and> wadvance r1 n = Some (r2, n) \<and> inv r2 \<and>
     cap r2 = cap r \<and> count r2 = count r + n \<and>
     take (count r2) (view r2) = map Some (xs @ take n data)"
proof -
  from write_law [OF assms(1), of n data 0] n obtain r1 where
    r1: "write_at r 0 data = Some (r1, n)" "inv r1" "cap r1 = cap r" "count r1 = count r"
    "view r1 = write_over (view r) (count r) (map Some (take n data))" by auto
  from wadvance_law [OF r1(2), of n n] n r1(3,4) obtain r2 where
    r2: "wadvance r1 n = Some (r2, n)" "inv r2" "cap r2 = cap r" "count r2 = count r + n"
    "view r2 = view r1" by auto
  have fit: "count r + n \<le> cap r" using count_le [OF assms(1)] n by simp
  have xs: "length xs = count r" and d: "length (take n data) = n"
    using length_content [OF assms(1,2)] n by simp_all
  have "view r2 = map Some xs @ map Some (take n data) @ drop (count r + n) (view r)"
    using assms(2) r1(5) r2(5) d by (simp add: write_over_def)
  then have "take (count r2) (view r2) = map Some (xs @ take n data)"
    using xs d r2(4) by simp
  with r1 r2 show ?thesis by blast
qed

text \<open>Read at offset 0 and free what was read: a removal from the front of the queue.\<close>

lemma pop:
  assumes "inv r" and "take (count r) (view r) = map Some xs"
    and n: "n = min (length data) (count r)"
  shows "\<exists>r'. read_at r 0 data = Some (take n xs @ drop n data, n) \<and> radvance r n = Some (r', n) \<and>
     inv r' \<and> cap r' = cap r \<and> count r' = count r - n \<and>
     take (count r') (view r') = map Some (drop n xs)"
proof -
  have "read_at r 0 data = Some (take n xs @ drop n data, n)"
    using read_law [OF assms(1,2), of n data 0] n by simp
  moreover from radvance_law [OF assms(1), of n n] n obtain r' where
    r': "radvance r n = Some (r', n)" "inv r'" "cap r' = cap r" "count r' = count r - n"
    "view r' = rotate n (view r)" by auto
  moreover have "take (count r - n) (rotate n (view r)) = map Some (drop n xs)"
  proof -
    have "n \<le> length (view r)" using count_le [OF assms(1)] length_view [OF assms(1)] n by simp
    then have "take (count r - n) (rotate n (view r)) = drop n (take (count r) (view r))"
      using count_le [OF assms(1)] length_view [OF assms(1)]
      by (cases "n = length (view r)") (simp_all add: rotate_drop_take drop_take)
    then show ?thesis by (simp add: assms(2) drop_map)
  qed
  ultimately show ?thesis by auto
qed

end

interpretation ring: byte_ring rb_ok rb_capacity rb_count rb_view
  Writer_write Writer_advance Reader_read Reader_advance
proof unfold_locales
  fix r assume "rb_ok r"
  then show "length (rb_view r) = rb_capacity r" "rb_count r \<le> rb_capacity r"
    by (simp_all add: rb_okD)
qed (simp_all only: Writer_write_spec Writer_advance_spec Reader_read_spec Reader_advance_spec)

end
