(* ===== verification/Stream_Pos.thy ===== *)
theory Stream_Pos
  imports Turbulence_Prelude
begin

text \<open>
  Wrapping stream positions (\<open>windows.rs\<close>, lines 5 to 41).

  A position is a 32-bit word that wraps. The proofs give every position a logical, unbounded
  integer, \<open>pos_of\<close> of which is the word; \<open>stream_cmp\<close> agrees with the integer order as long as the
  two integers are less than \<open>2 ^ 31\<close> apart. The locale \<open>position_order\<close> is this contract, and holds
  the binary searches the two windows make under it.
\<close>

type_synonym stream_pos = "32 word"

definition pos_of :: "int \<Rightarrow> stream_pos" where
  "pos_of p = word_of_int p"

abbreviation half_span :: int where
  "half_span \<equiv> 2 ^ 31"

definition stream_cmp :: "stream_pos \<Rightarrow> stream_pos \<Rightarrow> ordering option" where
  "stream_cmp a b =
     (let ord = ord_cmp (b - a) (a - b)
      in if ord = Equal \<and> a \<noteq> b then None else Some ord)"

definition stream_lt :: "stream_pos \<Rightarrow> stream_pos \<Rightarrow> bool" where
  "stream_lt a b = (case map_option is_lt (stream_cmp a b) of Some r \<Rightarrow> r | None \<Rightarrow> False)"

definition stream_le :: "stream_pos \<Rightarrow> stream_pos \<Rightarrow> bool" where
  "stream_le a b = (case map_option is_le (stream_cmp a b) of Some r \<Rightarrow> r | None \<Rightarrow> False)"

definition stream_gt :: "stream_pos \<Rightarrow> stream_pos \<Rightarrow> bool" where
  "stream_gt a b = (case map_option is_gt (stream_cmp a b) of Some r \<Rightarrow> r | None \<Rightarrow> False)"

definition stream_ge :: "stream_pos \<Rightarrow> stream_pos \<Rightarrow> bool" where
  "stream_ge a b = (case map_option is_ge (stream_cmp a b) of Some r \<Rightarrow> r | None \<Rightarrow> False)"

subsection \<open>Logical positions\<close>

lemma pos_of_add: "pos_of p + pos_of n = pos_of (p + n)"
  by (simp add: pos_of_def)

lemma pos_of_diff: "pos_of p - pos_of q = pos_of (p - q)"
  by (simp add: pos_of_def)

lemma pos_of_nat: "of_nat n = pos_of (int n)"
  by (simp add: pos_of_def)

lemma uint_pos_of: "uint (pos_of n) = n mod 2 ^ 32"
  unfolding pos_of_def by (subst uint_word_of_int) simp

lemma unat_pos_of_diff:
  assumes "q \<le> p" and "p - q < 2 ^ 32"
  shows "unat (pos_of p - pos_of q) = nat (p - q)"
proof -
  have "uint (pos_of (p - q)) = p - q" using assms by (simp add: uint_pos_of)
  then show ?thesis by (simp only: pos_of_diff unat_eq_nat_uint)
qed

lemma pos_of_eq_iff:
  assumes "\<bar>p - q\<bar> < 2 ^ 32"
  shows "pos_of p = pos_of q \<longleftrightarrow> p = q"
proof
  assume "pos_of p = pos_of q"
  then have "uint (pos_of p) = uint (pos_of q)" by simp
  then have "2 ^ 32 dvd p - q" unfolding uint_pos_of by (simp add: mod_eq_dvd_iff)
  with assms show "p = q" using zdvd_imp_le [of "2 ^ 32" "\<bar>p - q\<bar>"] by fastforce
qed simp

lemma uint_diff_pos_of: "uint (pos_of p - pos_of q) = (p - q) mod 2 ^ 32"
  by (simp only: pos_of_diff uint_pos_of)

lemma stream_cmp_pos_of:
  assumes "\<bar>p - q\<bar> < half_span"
  shows "stream_cmp (pos_of p) (pos_of q) = Some (ord_cmp p q)"
proof -
  consider "p < q" | "p = q" | "q < p" by linarith
  then show ?thesis
  proof cases
    case 1
    then have "(q - p) mod 2 ^ 32 = q - p" "(p - q) mod 2 ^ 32 = p - q + 2 ^ 32"
      using assms mod_pos_pos_trivial [of "p - q + 2 ^ 32" "2 ^ 32"] by (simp_all)
    then have "pos_of q - pos_of p < pos_of p - pos_of q"
      using assms by (simp add: word_less_def uint_diff_pos_of)
    with 1 show ?thesis by (simp add: stream_cmp_def)
  next
    case 2
    then show ?thesis by (simp add: stream_cmp_def ord_cmp_def)
  next
    case 3
    then have "(p - q) mod 2 ^ 32 = p - q" "(q - p) mod 2 ^ 32 = q - p + 2 ^ 32"
      using assms mod_pos_pos_trivial [of "q - p + 2 ^ 32" "2 ^ 32"] by (simp_all)
    then have "pos_of p - pos_of q < pos_of q - pos_of p"
      using assms by (simp add: word_less_def uint_diff_pos_of)
    with 3 show ?thesis by (simp add: stream_cmp_def)
  qed
qed

lemma stream_lt_pos_of: "\<bar>p - q\<bar> < half_span \<Longrightarrow> stream_lt (pos_of p) (pos_of q) \<longleftrightarrow> p < q"
  by (simp add: stream_lt_def stream_cmp_pos_of ord_cmp_def)

lemma stream_le_pos_of: "\<bar>p - q\<bar> < half_span \<Longrightarrow> stream_le (pos_of p) (pos_of q) \<longleftrightarrow> p \<le> q"
  by (auto simp: stream_le_def stream_cmp_pos_of ord_cmp_def)

lemma stream_gt_pos_of: "\<bar>p - q\<bar> < half_span \<Longrightarrow> stream_gt (pos_of p) (pos_of q) \<longleftrightarrow> q < p"
  by (auto simp: stream_gt_def stream_cmp_pos_of ord_cmp_def)

lemma stream_ge_pos_of: "\<bar>p - q\<bar> < half_span \<Longrightarrow> stream_ge (pos_of p) (pos_of q) \<longleftrightarrow> q \<le> p"
  by (auto simp: stream_ge_def stream_cmp_pos_of ord_cmp_def)

text \<open>Every word has a logical position within half the span of a given one.\<close>

lemma logical_pos:
  obtains s where "pos_of s = w" and "e - half_span \<le> s" and "s < e + half_span"
proof
  let ?s = "e - half_span + uint (w - pos_of (e - half_span))"
  show "pos_of ?s = w"
    by (simp add: pos_of_def)
  show "e - half_span \<le> ?s" by simp
  show "?s < e + half_span"
    using uint_lt2p [of "w - pos_of (e - half_span)"] by simp
qed

lemma stream_cmp_opposite:
  "stream_cmp (pos_of (q - half_span)) (pos_of q) = None"
  by (simp add: stream_cmp_def ord_cmp_def pos_of_def)

subsection \<open>The order as an interface\<close>

locale position_order =
  fixes enc :: "int \<Rightarrow> 'p"
    and cmp :: "'p \<Rightarrow> 'p \<Rightarrow> ordering option"
    and lt :: "'p \<Rightarrow> 'p \<Rightarrow> bool"
    and span :: int
  assumes cmp_enc: "\<bar>p - q\<bar> < span \<Longrightarrow> cmp (enc p) (enc q) = Some (ord_cmp p q)"
    and lt_enc: "\<bar>p - q\<bar> < span \<Longrightarrow> lt (enc p) (enc q) \<longleftrightarrow> p < q"
begin

lemma search_keys:
  assumes "\<And>r. r \<in> set rs \<Longrightarrow> \<bar>g r - t\<bar> < span"
    and "\<And>r. r \<in> set rs \<Longrightarrow> key (h r) = enc (g r)"
    and "sorted_wrt (\<lambda>x y. g x < g y) rs"
  shows "binary_search_by (\<lambda>r. cmp (key r) (enc t)) (map h rs) =
     Some (if below g t rs < length rs \<and> g (rs ! below g t rs) = t
           then Inr (below g t rs) else Inl (below g t rs))"
  using assms by (intro binary_search_by_keys) (simp_all add: cmp_enc)

lemma search_index:
  assumes "\<And>r. r \<in> set rs \<Longrightarrow> \<bar>g r - t\<bar> < span"
    and "\<And>r. r \<in> set rs \<Longrightarrow> key (h r) = enc (g r)"
    and "sorted_wrt (\<lambda>x y. g x < g y) rs"
  shows "\<exists>r. binary_search_by (\<lambda>r. cmp (key r) (enc t)) (map h rs) = Some r \<and>
     case_sum id id r = below g t rs"
proof -
  have "binary_search_by (\<lambda>r. cmp (key r) (enc t)) (map h rs) =
     Some (if below g t rs < length rs \<and> g (rs ! below g t rs) = t
           then Inr (below g t rs) else Inl (below g t rs))"
    using assms by (rule search_keys)
  then show ?thesis by auto
qed

end

interpretation stream: position_order pos_of stream_cmp stream_lt half_span
  by unfold_locales (auto simp: stream_cmp_pos_of stream_lt_pos_of)

end
