(* ===== verification/Stream_Ranges.thy ===== *)
theory Stream_Ranges
  imports Stream_Pos
begin

text \<open>
  Lists of stream ranges, over logical positions.

  Both windows keep a sorted list of half-open ranges. Here is what such a list means (the set of
  positions it covers), what sorted means for each window, and \<open>merge_range\<close>, the reference routine
  for adding a range to a list of separated ranges, against which the index loop of
  \<open>RecvWindow::recv\<close> is verified.
\<close>

type_synonym range = "int \<times> int"

definition range_set :: "range list \<Rightarrow> int set" where
  "range_set rs = (\<Union>(a, b)\<in>set rs. {a..<b})"

text \<open>Nonempty ranges in order: apart from each other, or at least not overlapping.\<close>

definition separated :: "range list \<Rightarrow> bool" where
  "separated rs \<longleftrightarrow> (\<forall>r\<in>set rs. fst r < snd r) \<and> sorted_wrt (\<lambda>x y. snd x < fst y) rs"

definition ordered :: "range list \<Rightarrow> bool" where
  "ordered rs \<longleftrightarrow> (\<forall>r\<in>set rs. fst r < snd r) \<and> sorted_wrt (\<lambda>x y. snd x \<le> fst y) rs"

fun merge_range :: "int \<Rightarrow> int \<Rightarrow> range list \<Rightarrow> range list" where
  "merge_range s e [] = [(s, e)]"
| "merge_range s e (r # rs) =
     (if snd r < s then r # merge_range s e rs
      else if e < fst r then (s, e) # r # rs
      else merge_range (min s (fst r)) (max e (snd r)) rs)"

abbreviation enc_range :: "range \<Rightarrow> stream_pos \<times> stream_pos" where
  "enc_range \<equiv> map_prod pos_of pos_of"

lemma range_set_Nil [simp]: "range_set [] = {}"
  by (simp add: range_set_def)

lemma range_set_Cons [simp]: "range_set (r # rs) = {fst r..<snd r} \<union> range_set rs"
  by (auto simp: range_set_def)

lemma range_set_append [simp]: "range_set (xs @ ys) = range_set xs \<union> range_set ys"
  by (auto simp: range_set_def)

lemma separated_Nil [simp]: "separated []"
  by (simp add: separated_def)

lemma separated_Cons [simp]:
  "separated (r # rs) \<longleftrightarrow> fst r < snd r \<and> (\<forall>x\<in>set rs. snd r < fst x) \<and> separated rs"
  by (auto simp: separated_def)

lemma ordered_Nil [simp]: "ordered []"
  by (simp add: ordered_def)

lemma ordered_Cons [simp]:
  "ordered (r # rs) \<longleftrightarrow> fst r < snd r \<and> (\<forall>x\<in>set rs. snd r \<le> fst x) \<and> ordered rs"
  by (auto simp: ordered_def)

lemma separated_append:
  "separated (xs @ ys) \<longleftrightarrow> separated xs \<and> separated ys \<and> (\<forall>x\<in>set xs. \<forall>y\<in>set ys. snd x < fst y)"
  by (auto simp: separated_def sorted_wrt_append)

lemma ordered_append:
  "ordered (xs @ ys) \<longleftrightarrow> ordered xs \<and> ordered ys \<and> (\<forall>x\<in>set xs. \<forall>y\<in>set ys. snd x \<le> fst y)"
  by (auto simp: ordered_def sorted_wrt_append)

lemma separated_drop: "separated rs \<Longrightarrow> separated (drop k rs)"
  by (metis append_take_drop_id separated_append)

lemma separated_bounds: "separated rs \<Longrightarrow> r \<in> set rs \<Longrightarrow> fst r < snd r"
  by (simp add: separated_def)

lemma ordered_bounds: "ordered rs \<Longrightarrow> r \<in> set rs \<Longrightarrow> fst r < snd r"
  by (simp add: ordered_def)

lemma separated_ends: "separated rs \<Longrightarrow> sorted_wrt (\<lambda>x y. snd x < snd y) rs"
  by (induction rs) (auto dest: separated_bounds, fastforce dest: separated_bounds)

lemma ordered_starts: "ordered rs \<Longrightarrow> sorted_wrt (\<lambda>x y. fst x < fst y) rs"
  by (induction rs) force+

subsection \<open>The reference merge\<close>

lemma range_set_merge_range:
  "s < e \<Longrightarrow> separated rs \<Longrightarrow> range_set (merge_range s e rs) = range_set rs \<union> {s..<e}"
proof (induction s e rs rule: merge_range.induct)
  case (1 s e)
  then show ?case by simp
next
  case (2 s e r rs)
  show ?case
  proof (cases "snd r < s \<or> e < fst r")
    case True
    with 2 show ?thesis by auto
  next
    case False
    then have "{min s (fst r)..<max e (snd r)} = {fst r..<snd r} \<union> {s..<e}"
      using "2.prems" by auto
    with False 2 show ?thesis by auto
  qed
qed

lemma merge_range_lower:
  "l < s \<Longrightarrow> \<forall>x\<in>set rs. l < fst x \<Longrightarrow> x \<in> set (merge_range s e rs) \<Longrightarrow> l < fst x"
  by (induction s e rs rule: merge_range.induct) (auto split: if_splits)

lemma merge_range_upper:
  "e \<le> u \<Longrightarrow> \<forall>x\<in>set rs. snd x \<le> u \<Longrightarrow> x \<in> set (merge_range s e rs) \<Longrightarrow> snd x \<le> u"
  by (induction s e rs rule: merge_range.induct) (auto split: if_splits)

lemma separated_merge_range: "s < e \<Longrightarrow> separated rs \<Longrightarrow> separated (merge_range s e rs)"
proof (induction s e rs rule: merge_range.induct)
  case (1 s e)
  then show ?case by simp
next
  case (2 s e r rs)
  then show ?case
    using merge_range_lower [of "snd r" s rs _ e] by (auto simp: min_def max_def)
qed

text \<open>The merge leaves the ranges before the new one alone.\<close>

lemma merge_range_skip:
  "merge_range s e rs = take (below snd s rs) rs @ merge_range s e (drop (below snd s rs) rs)"
  unfolding take_below drop_below by (induction rs) auto

text \<open>Ranges that the new one reaches, and that end no later, disappear in it.\<close>

lemma merge_range_absorb:
  assumes "qs \<noteq> []" and "separated qs" and "\<forall>r\<in>set qs. s \<le> snd r \<and> fst r \<le> e \<and> snd r \<le> e"
  shows "merge_range s e (qs @ rs) = merge_range (min s (fst (hd qs))) e rs"
  using assms
proof (induction qs arbitrary: s)
  case Nil
  then show ?case by simp
next
  case (Cons q qs)
  show ?case
  proof (cases qs)
    case Nil
    with Cons.prems show ?thesis by simp
  next
    case (Cons q' qs')
    with Cons.prems have "fst q < fst q'" by auto
    moreover have "merge_range (min s (fst q)) e (qs @ rs) =
        merge_range (min (min s (fst q)) (fst (hd qs))) e rs"
      using Cons Cons.prems by (intro Cons.IH) (auto simp: min_le_iff_disj)
    ultimately show ?thesis using Cons Cons.prems by (simp add: min_absorb1)
  qed
qed

lemma merge_range_here:
  assumes "separated (r # rs)" and "fst r \<le> e" and "s \<le> snd r" and "e < snd r \<or> rs = []"
  shows "merge_range s e (r # rs) = (min s (fst r), max e (snd r)) # rs"
  using assms by (cases rs) auto

text \<open>
  The ranges of a list from the insertion point \<open>k\<close> up to \<open>i\<close>, when the new range runs over all of
  them: they are absorbed.
\<close>

lemma merge_range_reach:
  assumes sep: "separated rs" and k: "k = below snd s rs" and i: "k \<le> i" "i < length rs"
    and over: "\<And>j. k \<le> j \<Longrightarrow> j < i \<Longrightarrow> snd (rs ! j) \<le> e"
  shows "merge_range s e rs =
     take k rs @ merge_range (if i = k then s else min s (fst (rs ! k))) e (drop i rs)"
proof (cases "i = k")
  case True
  then show ?thesis using merge_range_skip [of s e rs] k by simp
next
  case False
  define qs where "qs = map (\<lambda>j. rs ! j) [k..<i]"
  have "take (i - k) (drop k rs) = qs"
    unfolding qs_def using i by (intro nth_equalityI) auto
  then have split: "drop k rs = qs @ drop i rs"
    using i append_take_drop_id [of "i - k" "drop k rs"] by simp
  have hd: "qs \<noteq> []" "hd qs = rs ! k" using False i by (simp_all add: qs_def upt_conv_Cons)
  have "separated (qs @ drop i rs)" using separated_drop [OF sep, of k] split by simp
  then have "separated qs" by (simp add: separated_append)
  moreover have "\<forall>r\<in>set qs. s \<le> snd r \<and> fst r \<le> e \<and> snd r \<le> e"
  proof
    fix r assume "r \<in> set qs"
    then obtain j where j: "k \<le> j" "j < i" "r = rs ! j" by (auto simp: qs_def)
    have "s \<le> snd r"
      using nth_from_below(1) [OF separated_ends [OF sep], of s j] j i k by simp
    moreover have "fst r < snd r" using separated_bounds [OF sep] j i by simp
    ultimately show "s \<le> snd r \<and> fst r \<le> e \<and> snd r \<le> e" using over [OF j(1,2)] j(3) by simp
  qed
  ultimately have "merge_range s e (qs @ drop i rs) = merge_range (min s (fst (rs ! k))) e (drop i rs)"
    using merge_range_absorb [OF hd(1)] hd(2) by simp
  then show ?thesis using merge_range_skip [of s e rs] k split False by simp
qed

lemma merge_range_insert_at:
  assumes sep: "separated rs" and k: "k = below snd s rs" and i: "k \<le> i" "i < length rs"
    and over: "\<And>j. k \<le> j \<Longrightarrow> j < i \<Longrightarrow> snd (rs ! j) \<le> e" and gap: "e < fst (rs ! i)"
  shows "merge_range s e rs =
     take k rs @ (if i = k then s else min s (fst (rs ! k)), e) # drop i rs"
proof -
  have di: "drop i rs = rs ! i # drop (Suc i) rs"
    using i(2) by (rule Cons_nth_drop_Suc [symmetric])
  have "s \<le> snd (rs ! i)"
    using nth_from_below(1) [OF separated_ends [OF sep], of s i] i k by simp
  then show ?thesis using merge_range_reach [OF sep k i over] gap di by auto
qed

lemma merge_range_close_at:
  assumes sep: "separated rs" and k: "k = below snd s rs" and i: "k \<le> i" "i < length rs"
    and over: "\<And>j. k \<le> j \<Longrightarrow> j < i \<Longrightarrow> snd (rs ! j) \<le> e" and into: "fst (rs ! i) \<le> e"
    and last: "e < snd (rs ! i) \<or> i = length rs - 1"
  shows "merge_range s e rs =
     take k rs @ (min s (fst (rs ! k)), max e (snd (rs ! i))) # drop (Suc i) rs"
proof -
  define s' where "s' = (if i = k then s else min s (fst (rs ! k)))"
  have di: "drop i rs = rs ! i # drop (Suc i) rs"
    using i(2) by (rule Cons_nth_drop_Suc [symmetric])
  have "s \<le> snd (rs ! i)"
    using nth_from_below(1) [OF separated_ends [OF sep], of s i] i k by simp
  moreover have "separated (rs ! i # drop (Suc i) rs)" using separated_drop [OF sep, of i] di by simp
  moreover have "e < snd (rs ! i) \<or> drop (Suc i) rs = []" using last i(2) by auto
  ultimately have "merge_range s' e (drop i rs) =
      (min s' (fst (rs ! i)), max e (snd (rs ! i))) # drop (Suc i) rs"
    unfolding di using into by (intro merge_range_here) (auto simp: s'_def)
  moreover have "fst (rs ! k) < fst (rs ! i)" if "i \<noteq> k"
  proof -
    have "k < i" using that i(1) by simp
    then have "snd (rs ! k) < fst (rs ! i)"
      using sep i(2) sorted_wrt_nth_less unfolding separated_def by blast
    moreover have "fst (rs ! k) < snd (rs ! k)"
      using separated_bounds [OF sep] \<open>k < i\<close> i(2) by simp
    ultimately show ?thesis by simp
  qed
  then have "min s' (fst (rs ! i)) = min s (fst (rs ! k))"
    by (auto simp: s'_def min_def)
  ultimately show ?thesis using merge_range_reach [OF sep k i over] by (simp add: s'_def)
qed

text \<open>Every bound of the list is within half the span of \<open>t\<close>, so that comparisons with it are exact.\<close>

definition near :: "range list \<Rightarrow> int \<Rightarrow> bool" where
  "near rs t \<longleftrightarrow> (\<forall>r\<in>set rs. \<bar>fst r - t\<bar> < half_span \<and> \<bar>snd r - t\<bar> < half_span)"

lemma nearD:
  assumes "near rs t" and "i < length rs"
  shows "\<bar>fst (rs ! i) - t\<bar> < half_span" "\<bar>snd (rs ! i) - t\<bar> < half_span"
    "\<bar>t - fst (rs ! i)\<bar> < half_span" "\<bar>t - snd (rs ! i)\<bar> < half_span"
  using assms by (auto simp: near_def abs_minus_commute)

text \<open>
  The first range that a ready block ending at \<open>e\<close> reaches, and what remains of the list. As in the
  code, the list is returned whole when \<open>e\<close> falls into a gap before its last range.
\<close>

definition extend_ready :: "int \<Rightarrow> range list \<Rightarrow> range list \<times> int" where
  "extend_ready e rs =
     (let k = below snd e rs
      in if k = length rs then ([], e)
         else if fst (rs ! k) \<le> e then (drop (Suc k) rs, snd (rs ! k))
         else (rs, e))"

text \<open>Everything received: all positions before \<open>P\<close>, and the ranges.\<close>

definition received :: "int \<Rightarrow> range list \<Rightarrow> int set" where
  "received P rs = {..<P} \<union> range_set rs"

text \<open>No range touches \<open>P\<close>: each lies beyond it, or is wholly behind it.\<close>

definition clear_of :: "int \<Rightarrow> range list \<Rightarrow> bool" where
  "clear_of P rs \<longleftrightarrow> (\<forall>r\<in>set rs. snd r < P \<or> P < fst r)"

lemma clear_of_not_received: "clear_of P rs \<Longrightarrow> P \<notin> received P rs"
  by (fastforce simp: clear_of_def received_def range_set_def)

lemma clear_of_merge_range:
  "P < s \<Longrightarrow> clear_of P rs \<Longrightarrow> clear_of P (merge_range s e rs)"
  by (induction s e rs rule: merge_range.induct) (auto simp: clear_of_def)

lemma received_merge_range:
  "s < e \<Longrightarrow> separated rs \<Longrightarrow> received P (merge_range s e rs) = received P rs \<union> {s..<e}"
  by (auto simp: received_def range_set_merge_range)

lemma before_below: "r \<in> set (take (below snd e rs) rs) \<Longrightarrow> snd r < e"
  using nth_before_below [of _ snd e rs] by (auto simp: in_set_conv_nth)

lemma clear_of_gap:
  assumes sep: "separated rs" and k: "below snd e rs < length rs" and gap: "e < fst (rs ! below snd e rs)"
  shows "clear_of e rs"
  unfolding clear_of_def
proof
  let ?k = "below snd e rs"
  have split: "rs = take ?k rs @ rs ! ?k # drop (Suc ?k) rs"
    using k by (simp add: id_take_nth_drop [symmetric])
  fix r assume "r \<in> set rs"
  then consider "r \<in> set (take ?k rs)" | "r = rs ! ?k" | "r \<in> set (drop (Suc ?k) rs)"
    using split by (metis Un_iff set_ConsD set_append)
  then show "snd r < e \<or> e < fst r"
  proof cases
    case 3
    have "separated (rs ! ?k # drop (Suc ?k) rs)" using sep split by (metis separated_append)
    then have "snd (rs ! ?k) < fst r" "fst (rs ! ?k) < snd (rs ! ?k)" using 3 by auto
    with gap show ?thesis by simp
  qed (simp_all add: before_below gap)
qed

lemma extend_ready_spec:
  assumes sep: "separated rs" and eq: "extend_ready e rs = (rs', P')"
  shows "separated rs' \<and> e \<le> P' \<and> clear_of P' rs' \<and> received P' rs' = {..<e} \<union> range_set rs \<and>
     set rs' \<subseteq> set rs \<and> (P' = e \<or> P' \<in> snd ` set rs)"
proof -
  let ?k = "below snd e rs"
  have prefix: "range_set (take ?k rs) \<subseteq> {..<e}"
    using before_below by (fastforce simp: range_set_def)
  consider (all) "?k = length rs" | (hit) "?k < length rs" "fst (rs ! ?k) \<le> e"
    | (gap) "?k < length rs" "e < fst (rs ! ?k)"
    using below_le_length [of snd e rs] by linarith
  then show ?thesis
  proof cases
    case all
    with eq prefix show ?thesis by (auto simp: extend_ready_def clear_of_def received_def)
  next
    case hit
    then have eq': "rs' = drop (Suc ?k) rs" "P' = snd (rs ! ?k)"
      using eq by (auto simp: extend_ready_def Let_def)
    have split: "rs = take ?k rs @ rs ! ?k # rs'"
      using hit(1) eq'(1) by (simp add: id_take_nth_drop [symmetric])
    have "separated (rs ! ?k # rs')" using sep split by (metis separated_append)
    moreover have "e \<le> P'" using nth_at_below [OF hit(1)] eq'(2) by simp
    moreover have "range_set rs = range_set (take ?k rs) \<union> {fst (rs ! ?k)..<P'} \<union> range_set rs'"
      using arg_cong [OF split, of range_set] eq'(2) by auto
    then have "received P' rs' = {..<e} \<union> range_set rs"
      using hit(2) \<open>e \<le> P'\<close> prefix unfolding received_def by auto
    moreover have "set rs' \<subseteq> set rs" using eq'(1) by (simp add: set_drop_subset)
    moreover have "P' \<in> snd ` set rs" using hit(1) eq'(2) by simp
    ultimately show ?thesis using eq'(2) by (auto simp: clear_of_def)
  next
    case gap
    then have "rs' = rs" "P' = e" using eq by (auto simp: extend_ready_def Let_def)
    with sep clear_of_gap [OF sep gap] show ?thesis by (auto simp: received_def)
  qed
qed

end
