(* ===== verification/Send_Window.thy ===== *)
theory Send_Window
  imports Ring_Buffer Stream_Ranges
begin

text \<open>
  The send window (\<open>windows.rs\<close>, \<open>SendWindowWriter\<close> and \<open>SendWindow\<close>).

  The writer handle appends to the ring; the window sends what was written, keeps it for
  retransmission, and frees it from the front as ranges are acknowledged.

  \<open>send_inv\<close> ties a window to the byte stream \<open>f\<close>, the logical position \<open>U\<close> of the first unacknowledged
  byte and the logical ranges \<open>rs\<close> of \<open>unacked_ranges\<close>. The abstract specification is the set
  \<open>range_set rs\<close> of sent but unacknowledged positions.
\<close>

definition SendWindowWriter_write :: "ring_buffer \<Rightarrow> byte list \<Rightarrow> (ring_buffer \<times> nat) option" where
  "SendWindowWriter_write rb data = do {
     (rb, len) \<leftarrow> Writer_write rb 0 data;
     (rb, _) \<leftarrow> Writer_advance rb len;
     Some (rb, as_u32 len)
   }"

definition SendWindowWriter_write_available :: "ring_buffer \<Rightarrow> nat option" where
  "SendWindowWriter_write_available rb = do {
     n \<leftarrow> RingBuffer_write_available rb;
     Some (as_u32 n)
   }"

datatype ack_result = NotFound | Ack | PartialAck stream_pos

record send_window =
  sw_ring :: ring_buffer
  send_pos :: stream_pos
  sent :: nat
  unacked_ranges :: "(stream_pos \<times> stream_pos) list"

definition SendWindow_new :: "nat \<Rightarrow> stream_pos \<Rightarrow> send_window option" where
  "SendWindow_new capacity stream_start = do {
     assert_that (capacity \<le> u32_max div 2);
     ring \<leftarrow> RingBuffer_new capacity;
     Some \<lparr>sw_ring = ring, send_pos = stream_start, sent = 0, unacked_ranges = []\<rparr>
   }"

definition SendWindow_write_available :: "send_window \<Rightarrow> nat option" where
  "SendWindow_write_available w = do {
     n \<leftarrow> RingBuffer_write_available (sw_ring w);
     Some (as_u32 n)
   }"

definition SendWindow_send_available :: "send_window \<Rightarrow> nat option" where
  "SendWindow_send_available w = do {
     n \<leftarrow> RingBuffer_read_available (sw_ring w);
     u32_sub (as_u32 n) (sent w)
   }"

text \<open>
  \<open>send\<close> fills a prefix of the given buffer; the result is the new window, the buffer, and the stream
  range.
\<close>

definition SendWindow_send ::
  "send_window \<Rightarrow> byte list \<Rightarrow>
   (send_window \<times> byte list \<times> (stream_pos \<times> stream_pos) option) option" where
  "SendWindow_send w data = do {
     n \<leftarrow> RingBuffer_read_available (sw_ring w);
     d \<leftarrow> usize_sub n (sent w);
     let send_amt = as_u32 (min d (length data));
     if send_amt = 0 then Some (w, data, None)
     else do {
       front \<leftarrow> slice data 0 send_amt;
       (front, got) \<leftarrow> Reader_read (sw_ring w) (sent w) front;
       assert_that (got = send_amt);
       let start = send_pos w;
       let end_pos = start + of_nat send_amt;
       sent' \<leftarrow> u32_add (sent w) send_amt;
       Some (w\<lparr>sent := sent', send_pos := end_pos,
               unacked_ranges := unacked_ranges w @ [(start, end_pos)]\<rparr>,
             front @ drop send_amt data, Some (start, end_pos))
     }
   }"

definition SendWindow_unacked_start :: "send_window \<Rightarrow> stream_pos" where
  "SendWindow_unacked_start w = send_pos w - of_nat (sent w)"

definition SendWindow_get_unacked :: "send_window \<Rightarrow> stream_pos \<Rightarrow> byte list \<Rightarrow> byte list option" where
  "SendWindow_get_unacked w start data = do {
     let buf_start = unat (start - SendWindow_unacked_start w);
     (data', n) \<leftarrow> Reader_read (sw_ring w) buf_start data;
     assert_that (n = length data);
     Some data'
   }"

text \<open>The release of acknowledged bytes at the front of the ring.\<close>

definition release_front :: "send_window \<Rightarrow> nat \<Rightarrow> send_window option" where
  "release_front w acked_amt = do {
     (ring, _) \<leftarrow> Reader_advance (sw_ring w) acked_amt;
     s \<leftarrow> u32_sub (sent w) acked_amt;
     Some (w\<lparr>sw_ring := ring, sent := s\<rparr>)
   }"

definition SendWindow_ack_range ::
  "send_window \<Rightarrow> stream_pos \<Rightarrow> stream_pos \<Rightarrow> (send_window \<times> ack_result) option" where
  "SendWindow_ack_range w start end_pos = (
     let ranges = unacked_ranges w
     in if ranges = [] then Some (w, NotFound)
        else if \<not> stream_lt start end_pos then Some (w, NotFound)
        else if \<not> stream_ge start (fst (hd ranges)) \<or> \<not> stream_le end_pos (snd (last ranges))
        then Some (w, NotFound)
        else do {
          found \<leftarrow> binary_search_by (\<lambda>r. stream_cmp (fst r) start) ranges;
          (case found of
             Inl _ \<Rightarrow> Some (w, NotFound)
           | Inr i \<Rightarrow> do {
               r \<leftarrow> vec_get ranges i;
               if stream_gt end_pos (snd r) then Some (w, NotFound)
               else if end_pos = snd r then do {
                 ranges \<leftarrow> vec_remove ranges i;
                 let w1 = w\<lparr>unacked_ranges := ranges\<rparr>;
                 w2 \<leftarrow>
                   (if start = SendWindow_unacked_start w then do {
                      assert_that (i = 0);
                      if ranges = [] then release_front w1 (sent w)
                      else do {
                        r0 \<leftarrow> vec_get ranges 0;
                        release_front w1 (unat (fst r0 - start))
                      }
                    } else Some w1);
                 Some (w2, Ack)
               } else do {
                 w1 \<leftarrow>
                   (if start = SendWindow_unacked_start w then do {
                      assert_that (i = 0);
                      release_front w (unat (end_pos - start))
                    } else Some w);
                 ranges \<leftarrow> vec_set ranges i (end_pos, snd r);
                 Some (w1\<lparr>unacked_ranges := ranges\<rparr>, PartialAck (snd r))
               }
             })
        })"

subsection \<open>Invariant\<close>

text \<open>The \<open>n\<close> bytes of the stream from logical position \<open>a\<close>.\<close>

definition stream_bytes :: "(int \<Rightarrow> byte) \<Rightarrow> int \<Rightarrow> nat \<Rightarrow> byte list" where
  "stream_bytes f a n = map (\<lambda>i. f (a + int i)) [0..<n]"

lemma length_stream_bytes [simp]: "length (stream_bytes f a n) = n"
  by (simp add: stream_bytes_def)

lemma stream_bytes_0 [simp]: "stream_bytes f a 0 = []"
  by (simp add: stream_bytes_def)

lemma stream_bytes_append: "stream_bytes f a m @ stream_bytes f (a + int m) n = stream_bytes f a (m + n)"
  using map_upt_append [of "\<lambda>i. f (a + int i)" m n] by (simp add: stream_bytes_def add.assoc)

lemma drop_stream_bytes: "drop m (stream_bytes f a n) = stream_bytes f (a + int m) (n - m)"
  by (intro nth_equalityI) (auto simp: stream_bytes_def add.assoc)

lemma take_stream_bytes: "take m (stream_bytes f a n) = stream_bytes f a (min m n)"
  by (intro nth_equalityI) (auto simp: stream_bytes_def)

definition send_inv :: "(int \<Rightarrow> byte) \<Rightarrow> int \<Rightarrow> range list \<Rightarrow> send_window \<Rightarrow> bool" where
  "send_inv f U rs w \<longleftrightarrow>
     rb_ok (sw_ring w) \<and> rb_capacity (sw_ring w) \<le> u32_max div 2 \<and>
     sent w \<le> rb_count (sw_ring w) \<and> send_pos w = pos_of (U + int (sent w)) \<and>
     unacked_ranges w = map enc_range rs \<and> ordered rs \<and>
     (if rs = [] then sent w = 0 else fst (hd rs) = U) \<and>
     (\<forall>r\<in>set rs. snd r \<le> U + int (sent w)) \<and>
     take (rb_count (sw_ring w)) (rb_view (sw_ring w)) =
       map Some (stream_bytes f U (rb_count (sw_ring w)))"

lemma send_invD:
  assumes "send_inv f U rs w"
  shows "rb_ok (sw_ring w)" "rb_capacity (sw_ring w) \<le> u32_max div 2"
    "sent w \<le> rb_count (sw_ring w)" "send_pos w = pos_of (U + int (sent w))"
    "unacked_ranges w = map enc_range rs" "ordered rs"
    "rs = [] \<Longrightarrow> sent w = 0" "rs \<noteq> [] \<Longrightarrow> fst (hd rs) = U"
    "r \<in> set rs \<Longrightarrow> snd r \<le> U + int (sent w)"
    "take (rb_count (sw_ring w)) (rb_view (sw_ring w)) =
       map Some (stream_bytes f U (rb_count (sw_ring w)))"
  using assms by (auto simp: send_inv_def split: if_splits)

lemma send_inv_sizes:
  assumes "send_inv f U rs w"
  shows "rb_count (sw_ring w) \<le> rb_capacity (sw_ring w)" "int (sent w) < half_span"
    "int (rb_count (sw_ring w)) < half_span"
  using send_invD(1-3) [OF assms] rb_okD(6) [of "sw_ring w"] by (auto simp: u32_max_def)

lemma unacked_start_pos_of:
  assumes "send_inv f U rs w"
  shows "SendWindow_unacked_start w = pos_of U"
  using send_invD(4) [OF assms]
  by (simp only: SendWindow_unacked_start_def pos_of_nat pos_of_diff) simp

lemma ordered_hd: "ordered rs \<Longrightarrow> r \<in> set rs \<Longrightarrow> fst (hd rs) \<le> fst r"
  by (cases rs) auto

lemma ordered_last: "ordered rs \<Longrightarrow> r \<in> set rs \<Longrightarrow> snd r \<le> snd (last rs)"
proof (induction rs)
  case (Cons x rs)
  show ?case
  proof (cases "r = x \<and> rs \<noteq> []")
    case True
    then have "last rs \<in> set rs" by simp
    moreover from this have "snd x \<le> fst (last rs)" "fst (last rs) < snd (last rs)"
      using Cons.prems ordered_bounds [of rs "last rs"] by auto
    ultimately show ?thesis using True by simp
  next
    case False
    with Cons show ?thesis by auto
  qed
qed simp

lemma send_range_bounds:
  assumes "send_inv f U rs w" and "r \<in> set rs"
  shows "U \<le> fst r" "fst r < snd r" "snd r \<le> U + int (sent w)"
proof -
  have "rs \<noteq> []" using assms(2) by auto
  then show "U \<le> fst r" using send_invD(6,8) [OF assms(1)] ordered_hd [OF _ assms(2)] by auto
  show "fst r < snd r" using send_invD(6) [OF assms(1)] assms(2) by (rule ordered_bounds)
  show "snd r \<le> U + int (sent w)" using assms by (rule send_invD(9))
qed

lemma send_inv_new:
  assumes "SendWindow_new c (pos_of b) = Some w"
  shows "send_inv f b [] w" and "rb_capacity (sw_ring w) = c" and "rb_count (sw_ring w) = 0"
proof -
  obtain rb where rb: "c \<le> u32_max div 2" "RingBuffer_new c = Some rb"
    "w = \<lparr>sw_ring = rb, send_pos = pos_of b, sent = 0, unacked_ranges = []\<rparr>"
    using assms by (auto simp: SendWindow_new_def option_bind_eq_Some)
  then show "send_inv f b [] w" "rb_capacity (sw_ring w) = c" "rb_count (sw_ring w) = 0"
    using RingBuffer_new_ok [OF rb(2)] by (auto simp: send_inv_def)
qed


subsection \<open>Writing and sending\<close>

lemma send_window_write:
  fixes data :: "byte list"
  assumes inv: "send_inv f U rs w"
  defines "n \<equiv> min (length data) (rb_capacity (sw_ring w) - rb_count (sw_ring w))"
  assumes agree: "take n data = stream_bytes f (U + int (rb_count (sw_ring w))) n"
  shows "\<exists>rb. SendWindowWriter_write (sw_ring w) data = Some (rb, n) \<and>
     send_inv f U rs (w\<lparr>sw_ring := rb\<rparr>) \<and> rb_count rb = rb_count (sw_ring w) + n \<and>
     rb_capacity rb = rb_capacity (sw_ring w)"
proof -
  note i = send_invD [OF inv] and z = send_inv_sizes [OF inv]
  obtain r1 r2 where r: "Writer_write (sw_ring w) 0 data = Some (r1, n)"
    "Writer_advance r1 n = Some (r2, n)" "rb_ok r2" "rb_capacity r2 = rb_capacity (sw_ring w)"
    "rb_count r2 = rb_count (sw_ring w) + n"
    "take (rb_count r2) (rb_view r2) =
       map Some (stream_bytes f U (rb_count (sw_ring w)) @ take n data)"
    using ring.push [OF i(1) i(10) meta_eq_to_obj_eq [OF n_def]] by blast
  have "as_u32 n = n" using i(2) by (intro as_u32_ok) (simp add: n_def u32_max_def)
  then have "SendWindowWriter_write (sw_ring w) data = Some (r2, n)"
    using r(1,2) by (simp add: SendWindowWriter_write_def)
  moreover have "send_inv f U rs (w\<lparr>sw_ring := r2\<rparr>)"
    using inv r(3-6) agree by (auto simp: send_inv_def stream_bytes_append)
  ultimately show ?thesis using r by blast
qed

lemma send_nothing:
  assumes inv: "send_inv f U rs w" and "buf = [] \<or> rb_count (sw_ring w) = sent w"
  shows "SendWindow_send w buf = Some (w, buf, None)"
  using send_invD(1,3) [OF inv] assms(2)
  by (auto simp: SendWindow_send_def read_available_count checked_simps as_u32_def)

lemma send_some:
  fixes buf :: "byte list"
  assumes inv: "send_inv f U rs w"
  defines "n \<equiv> min (length buf) (rb_count (sw_ring w) - sent w)" and "a \<equiv> U + int (sent w)"
  assumes pos: "0 < n"
  shows "\<exists>w'. SendWindow_send w buf =
       Some (w', stream_bytes f a n @ drop n buf, Some (pos_of a, pos_of (a + int n))) \<and>
     send_inv f U (rs @ [(a, a + int n)]) w' \<and> sent w' = sent w + n \<and> sw_ring w' = sw_ring w"
proof -
  note i = send_invD [OF inv] and z = send_inv_sizes [OF inv]
  let ?c = "rb_count (sw_ring w)"
  define w' where "w' = w\<lparr>sent := sent w + n, send_pos := pos_of (a + int n),
     unacked_ranges := unacked_ranges w @ [(pos_of a, pos_of (a + int n))]\<rparr>"
  have n: "n \<le> length buf" "sent w + n \<le> ?c" using i(3) by (auto simp: n_def)
  have m: "as_u32 (min (?c - sent w) (length buf)) = n"
    using z(3) by (subst as_u32_ok) (auto simp: n_def u32_max_def)
  have rd: "Reader_read (sw_ring w) (sent w) (take n buf) = Some (stream_bytes f a n, n)"
    using Reader_read_spec [OF i(1,10), of "sent w" "take n buf"] n
    by (simp add: drop_stream_bytes take_stream_bytes a_def min_absorb1)
  have add: "u32_add (sent w) n = Some (sent w + n)"
    using n(2) z(3) by (intro u32_add_ok) (simp add: u32_max_def)
  have p: "send_pos w + of_nat n = pos_of (a + int n)"
    using i(4) by (simp only: pos_of_nat pos_of_add a_def)
  have "SendWindow_send w buf =
      Some (w', stream_bytes f a n @ drop n buf, Some (pos_of a, pos_of (a + int n)))"
    using i(1,3,4) n pos m rd add p
    by (simp add: SendWindow_send_def read_available_count checked_simps w'_def a_def Let_def)
  moreover have "send_inv f U (rs @ [(a, a + int n)]) w'"
    using inv n pos unfolding send_inv_def w'_def
    by (auto simp: ordered_append a_def add.assoc hd_append split: if_splits)
  ultimately show ?thesis by (auto simp: w'_def)
qed

lemma get_unacked_bytes:
  assumes inv: "send_inv f U rs w" and a: "U \<le> a" "a + int (length buf) \<le> U + int (rb_count (sw_ring w))"
  shows "SendWindow_get_unacked w (pos_of a) buf = Some (stream_bytes f a (length buf))"
proof -
  note i = send_invD [OF inv] and z = send_inv_sizes [OF inv]
  have "unat (pos_of a - SendWindow_unacked_start w) = nat (a - U)"
    using a z(3) unfolding unacked_start_pos_of [OF inv] by (intro unat_pos_of_diff) auto
  then show ?thesis
    using Reader_read_spec [OF i(1,10), of "nat (a - U)" buf] a
    by (simp add: SendWindow_get_unacked_def drop_stream_bytes take_stream_bytes min_absorb1 nat_diff_distrib)
qed

subsection \<open>Acknowledgement\<close>


lemma release_front_ok:
  assumes inv: "send_inv f U rs w" and k: "k \<le> sent w" and w': "sw_ring w' = sw_ring w" "sent w' = sent w"
  shows "\<exists>rb. release_front w' k = Some (w'\<lparr>sw_ring := rb, sent := sent w - k\<rparr>) \<and> rb_ok rb \<and>
     rb_capacity rb = rb_capacity (sw_ring w) \<and> rb_count rb = rb_count (sw_ring w) - k \<and>
     take (rb_count rb) (rb_view rb) = map Some (stream_bytes f (U + int k) (rb_count rb))"
proof -
  note i = send_invD [OF inv]
  have "k = min (length (replicate k (0 :: byte))) (rb_count (sw_ring w))" using k i(3) by simp
  from ring.pop [OF i(1,10) this] obtain rb where rb: "Reader_advance (sw_ring w) k = Some (rb, k)"
    "rb_ok rb" "rb_capacity rb = rb_capacity (sw_ring w)" "rb_count rb = rb_count (sw_ring w) - k"
    "take (rb_count rb) (rb_view rb) = map Some (drop k (stream_bytes f U (rb_count (sw_ring w))))"
    by blast
  then show ?thesis using k w' by (auto simp: release_front_def checked_simps drop_stream_bytes)
qed

lemma search_unacked:
  assumes inv: "send_inv f U rs w" and s: "U \<le> s" "s < U + half_span"
  shows "binary_search_by (\<lambda>r. stream_cmp (fst r) (pos_of s)) (unacked_ranges w) =
     Some (if below fst s rs < length rs \<and> fst (rs ! below fst s rs) = s
           then Inr (below fst s rs) else Inl (below fst s rs))"
  unfolding send_invD(5) [OF inv]
proof (rule stream.search_keys)
  show "\<bar>fst r - s\<bar> < half_span" if "r \<in> set rs" for r
    using send_range_bounds [OF inv that] send_inv_sizes(2) [OF inv] s by linarith
  show "sorted_wrt (\<lambda>x y. fst x < fst y) rs" using send_invD(6) [OF inv] by (rule ordered_starts)
qed simp

lemma below_start:
  assumes "ordered rs" and "i < length rs"
  shows "below fst (fst (rs ! i)) rs = i"
  using nth_before_below [of i fst "fst (rs ! i)" rs]
    nth_from_below(2) [OF ordered_starts [OF assms(1)], of "fst (rs ! i)" i] assms(2)
  by (metis less_irrefl linorder_neqE_nat less_imp_le)

text \<open>The ranges an acknowledgement must fit for the window to accept it.\<close>

definition acks :: "range list \<Rightarrow> nat \<Rightarrow> int \<Rightarrow> stream_pos \<Rightarrow> stream_pos \<Rightarrow> bool" where
  "acks rs i t start end_pos \<longleftrightarrow>
     i < length rs \<and> fst (rs ! i) < t \<and> t \<le> snd (rs ! i) \<and>
     start = pos_of (fst (rs ! i)) \<and> end_pos = pos_of t"

lemma stream_lt_logical:
  assumes "stream_lt (pos_of s) w"
  obtains t where "w = pos_of t" and "s < t" and "t < s + half_span"
proof -
  obtain t where t: "pos_of t = w" "s - half_span \<le> t" "t < s + half_span" by (rule logical_pos)
  have "stream_cmp (pos_of s) (pos_of (s - half_span)) = None"
    by (simp add: stream_cmp_def ord_cmp_def pos_of_def)
  then have "t \<noteq> s - half_span" using assms t(1) by (auto simp: stream_lt_def)
  then have "\<bar>s - t\<bar> < half_span" using t(2,3) by linarith
  then have "s < t" using assms t(1) stream_lt_pos_of by blast
  with t that show thesis by blast
qed

lemma stream_ge_logical:
  assumes "stream_ge w (pos_of u)"
  obtains s where "w = pos_of s" and "u \<le> s" and "s < u + half_span"
proof -
  obtain s where s: "pos_of s = w" "u - half_span \<le> s" "s < u + half_span" by (rule logical_pos)
  have "s \<noteq> u - half_span"
    using assms s(1) stream_cmp_opposite [of u] by (auto simp: stream_ge_def)
  then have "\<bar>s - u\<bar> < half_span" using s(2,3) by linarith
  then have "u \<le> s" using assms s(1) stream_ge_pos_of by blast
  with s that show thesis by blast
qed

lemma ack_not_found:
  assumes inv: "send_inv f U rs w" and no: "\<nexists>i t. acks rs i t start end_pos"
  shows "SendWindow_ack_range w start end_pos = Some (w, NotFound)"
proof (cases "rs = [] \<or> \<not> stream_lt start end_pos \<or> \<not> stream_ge start (pos_of U)")
  case True
  then show ?thesis using send_invD(5,8) [OF inv]
    by (auto simp: SendWindow_ack_range_def hd_map Let_def)
next
  case False
  then have ne: "rs \<noteq> []" by simp
  obtain s where s: "start = pos_of s" "U \<le> s" "s < U + half_span"
    using False stream_ge_logical by metis
  obtain t where t: "end_pos = pos_of t" "s < t" "t < s + half_span"
    using False s(1) stream_lt_logical by metis
  let ?i = "below fst s rs"
  note f = search_unacked [OF inv s(2,3)]
  show ?thesis
  proof (cases "?i < length rs \<and> fst (rs ! ?i) = s")
    case True
    then have r: "rs ! ?i \<in> set rs" by simp
    have "\<not> acks rs ?i t start end_pos" using no by blast
    then have "snd (rs ! ?i) < t" using True s(1) t by (simp add: acks_def)
    moreover have "\<bar>t - snd (rs ! ?i)\<bar> < half_span"
      using send_range_bounds [OF inv r] send_inv_sizes(2) [OF inv] s(2) t(2,3) True by auto
    ultimately have "stream_gt (pos_of t) (pos_of (snd (rs ! ?i)))" by (simp add: stream_gt_pos_of)
    then show ?thesis using True f s(1) t(1) send_invD(5) [OF inv]
      by (simp add: SendWindow_ack_range_def Let_def checked_simps)
  next
    case False
    then have "binary_search_by (\<lambda>r. stream_cmp (fst r) start) (unacked_ranges w) = Some (Inl ?i)"
      using f s(1) by auto
    then show ?thesis by (simp add: SendWindow_ack_range_def Let_def)
  qed
qed

text \<open>What the code checks, for an acknowledgement that fits.\<close>

lemma ack_found:
  assumes inv: "send_inv f U rs w" and a: "acks rs i t start end_pos"
  shows "stream_lt start end_pos" "stream_ge start (fst (hd (unacked_ranges w)))"
    "stream_le end_pos (snd (last (unacked_ranges w)))"
    "binary_search_by (\<lambda>r. stream_cmp (fst r) start) (unacked_ranges w) = Some (Inr i)"
    "vec_get (unacked_ranges w) i = Some (pos_of (fst (rs ! i)), pos_of (snd (rs ! i)))"
    "\<not> stream_gt end_pos (pos_of (snd (rs ! i)))"
    "end_pos = pos_of (snd (rs ! i)) \<longleftrightarrow> t = snd (rs ! i)"
    "start = SendWindow_unacked_start w \<longleftrightarrow> i = 0"
proof -
  note u = send_invD(5) [OF inv] and z = send_inv_sizes [OF inv] and o = send_invD(6) [OF inv]
  have i: "i < length rs" and s: "start = pos_of (fst (rs ! i))" "end_pos = pos_of t"
    and t: "fst (rs ! i) < t" "t \<le> snd (rs ! i)" using a by (auto simp: acks_def)
  then have ne: "rs \<noteq> []" by auto
  then have mem: "rs ! i \<in> set rs" "last rs \<in> set rs" using i by simp_all
  note b = send_range_bounds [OF inv mem(1)] and l = send_range_bounds [OF inv mem(2)]
  note e = send_invD(8) [OF inv ne]
  show "stream_lt start end_pos" using s t b z by (simp add: stream_lt_pos_of)
  show "stream_ge start (fst (hd (unacked_ranges w)))"
    using s ne b z e by (simp add: u hd_map stream_ge_pos_of)
  show "stream_le end_pos (snd (last (unacked_ranges w)))"
    using s ne t b z l ordered_last [OF o mem(1)] by (simp add: u last_map stream_le_pos_of)
  show "binary_search_by (\<lambda>r. stream_cmp (fst r) start) (unacked_ranges w) = Some (Inr i)"
    using search_unacked [OF inv b(1)] b z below_start [OF o i] i s by simp
  show "vec_get (unacked_ranges w) i = Some (pos_of (fst (rs ! i)), pos_of (snd (rs ! i)))"
    using i by (simp add: u checked_simps map_prod_def split_beta)
  show "\<not> stream_gt end_pos (pos_of (snd (rs ! i)))"
    using s t b z by (simp add: stream_gt_pos_of)
  show "end_pos = pos_of (snd (rs ! i)) \<longleftrightarrow> t = snd (rs ! i)"
    using s t b z by (simp add: pos_of_eq_iff)
  have "fst (rs ! i) = U \<longleftrightarrow> i = 0"
    using e ne sorted_wrt_nth_less [OF ordered_starts [OF o], of 0 i] i
    by (cases "i = 0") (auto simp: hd_conv_nth)
  then show "start = SendWindow_unacked_start w \<longleftrightarrow> i = 0"
    using s b z unacked_start_pos_of [OF inv] by (simp add: pos_of_eq_iff)
qed


lemma ordered_remove:
  assumes "ordered rs" and "i < length rs"
  shows "ordered (take i rs @ drop (Suc i) rs)"
    "range_set (take i rs @ drop (Suc i) rs) = range_set rs - {fst (rs ! i)..<snd (rs ! i)}"
proof -
  have rs: "rs = take i rs @ rs ! i # drop (Suc i) rs" using assms(2) by (rule id_take_nth_drop)
  then have o: "ordered (take i rs @ rs ! i # drop (Suc i) rs)" using assms(1) by simp
  then show "ordered (take i rs @ drop (Suc i) rs)" by (auto simp: ordered_append)
  have "range_set rs = range_set (take i rs) \<union> {fst (rs ! i)..<snd (rs ! i)} \<union> range_set (drop (Suc i) rs)"
    using arg_cong [OF rs, of range_set] by auto
  moreover have "range_set (take i rs) \<inter> {fst (rs ! i)..<snd (rs ! i)} = {}"
    "range_set (drop (Suc i) rs) \<inter> {fst (rs ! i)..<snd (rs ! i)} = {}"
    using o by (fastforce simp: ordered_append range_set_def)+
  ultimately show "range_set (take i rs @ drop (Suc i) rs) = range_set rs - {fst (rs ! i)..<snd (rs ! i)}"
    by auto
qed

lemma ordered_shorten:
  assumes "ordered rs" and "i < length rs" and t: "fst (rs ! i) < t" "t < snd (rs ! i)"
  shows "ordered (rs[i := (t, snd (rs ! i))])"
    "range_set (rs[i := (t, snd (rs ! i))]) = range_set rs - {fst (rs ! i)..<t}"
proof -
  have rs: "rs = take i rs @ rs ! i # drop (Suc i) rs" using assms(2) by (rule id_take_nth_drop)
  have u: "rs[i := (t, snd (rs ! i))] = take i rs @ (t, snd (rs ! i)) # drop (Suc i) rs"
    using assms(2) by (rule upd_conv_take_nth_drop)
  have o: "ordered (take i rs @ rs ! i # drop (Suc i) rs)" using assms(1) rs by simp
  then show "ordered (rs[i := (t, snd (rs ! i))])" using t unfolding u by (force simp: ordered_append)
  have "range_set rs = range_set (take i rs) \<union> {fst (rs ! i)..<snd (rs ! i)} \<union> range_set (drop (Suc i) rs)"
    using arg_cong [OF rs, of range_set] by auto
  moreover have "range_set (take i rs) \<inter> {fst (rs ! i)..<snd (rs ! i)} = {}"
    "range_set (drop (Suc i) rs) \<inter> {fst (rs ! i)..<snd (rs ! i)} = {}"
    using o by (fastforce simp: ordered_append range_set_def)+
  ultimately show "range_set (rs[i := (t, snd (rs ! i))]) = range_set rs - {fst (rs ! i)..<t}"
    using t unfolding u by auto
qed

text \<open>The front moved from \<open>U\<close> to \<open>U'\<close>; what was sent and what was written stay.\<close>

definition freed_to :: "int \<Rightarrow> send_window \<Rightarrow> int \<Rightarrow> send_window \<Rightarrow> bool" where
  "freed_to U w U' w' \<longleftrightarrow> U \<le> U' \<and> U' + int (sent w') = U + int (sent w) \<and>
     U' + int (rb_count (sw_ring w')) = U + int (rb_count (sw_ring w)) \<and>
     rb_capacity (sw_ring w') = rb_capacity (sw_ring w)"

text \<open>
  Freeing a prefix keeps the invariant, for a list of ranges that lies beyond it.
\<close>

lemma send_inv_release:
  assumes inv: "send_inv f U rs w" and k: "k \<le> sent w"
    and rs': "ordered rs'" "\<forall>r\<in>set rs'. snd r \<le> U + int (sent w)"
      "if rs' = [] then k = sent w else fst (hd rs') = U + int k"
  shows "\<exists>rb. release_front (w\<lparr>unacked_ranges := us\<rparr>) k =
       Some (w\<lparr>unacked_ranges := us, sw_ring := rb, sent := sent w - k\<rparr>) \<and>
     send_inv f (U + int k) rs'
       (w\<lparr>unacked_ranges := map enc_range rs', sw_ring := rb, sent := sent w - k\<rparr>) \<and>
     freed_to U w (U + int k)
       (w\<lparr>unacked_ranges := map enc_range rs', sw_ring := rb, sent := sent w - k\<rparr>)"
proof -
  obtain rb where "release_front (w\<lparr>unacked_ranges := us\<rparr>) k =
       Some (w\<lparr>unacked_ranges := us, sw_ring := rb, sent := sent w - k\<rparr>)" "rb_ok rb"
     "rb_capacity rb = rb_capacity (sw_ring w)" "rb_count rb = rb_count (sw_ring w) - k"
     "take (rb_count rb) (rb_view rb) = map Some (stream_bytes f (U + int k) (rb_count rb))"
    using release_front_ok [OF inv k, of "w\<lparr>unacked_ranges := us\<rparr>"] by auto
  moreover from this have "send_inv f (U + int k) rs'
       (w\<lparr>unacked_ranges := map enc_range rs', sw_ring := rb, sent := sent w - k\<rparr>)"
    using send_invD(1-4) [OF inv] k rs' by (auto simp: send_inv_def of_nat_diff diff_le_mono)
  moreover have "freed_to U w (U + int k)
       (w\<lparr>unacked_ranges := map enc_range rs', sw_ring := rb, sent := sent w - k\<rparr>)"
    using send_invD(3) [OF inv] k calculation(3,4) by (simp add: freed_to_def of_nat_diff)
  ultimately show ?thesis by blast
qed


lemma ack_full:
  assumes inv: "send_inv f U rs w" and a: "acks rs i (snd (rs ! i)) start end_pos"
  defines "rs' \<equiv> take i rs @ drop (Suc i) rs"
  shows "\<exists>w' U'. SendWindow_ack_range w start end_pos = Some (w', Ack) \<and>
     send_inv f U' rs' w' \<and> freed_to U w U' w'"
proof -
  note c = ack_found [OF inv a]
  have i: "i < length rs" using a by (simp add: acks_def)
  have e: "end_pos = pos_of (snd (rs ! i))" using c(7) by simp
  have ne: "unacked_ranges w \<noteq> []" using i send_invD(5) [OF inv] by auto
  have rm: "vec_remove (unacked_ranges w) i = Some (map enc_range rs')"
    using i by (simp add: send_invD(5) [OF inv] vec_remove_ok rs'_def take_map drop_map)
  have o: "ordered rs'" using ordered_remove(1) [OF send_invD(6) [OF inv] i] by (simp add: rs'_def)
  have sub: "set rs' \<subseteq> set rs" by (auto simp: rs'_def dest: in_set_takeD in_set_dropD)
  then have ub: "\<forall>r\<in>set rs'. snd r \<le> U + int (sent w)" using send_invD(9) [OF inv] by blast
  have code: "SendWindow_ack_range w start end_pos = do {
      w2 \<leftarrow> (if i = 0 then
               if rs' = [] then release_front (w\<lparr>unacked_ranges := map enc_range rs'\<rparr>) (sent w)
               else release_front (w\<lparr>unacked_ranges := map enc_range rs'\<rparr>)
                 (unat (pos_of (fst (hd rs')) - start))
             else Some (w\<lparr>unacked_ranges := map enc_range rs'\<rparr>));
      Some (w2, Ack) }"
    using c ne e rm by (simp add: SendWindow_ack_range_def Let_def hd_conv_nth vec_get_def)
  show ?thesis
  proof (cases "i = 0")
    case False
    then have "rs' \<noteq> []" "rs \<noteq> []" "hd rs' = hd rs" using i by (auto simp: rs'_def hd_append hd_take)
    then have "send_inv f U rs' (w\<lparr>unacked_ranges := map enc_range rs'\<rparr>)"
      using inv o ub by (auto simp: send_inv_def split: if_splits)
    then show ?thesis using code False by (auto simp: freed_to_def)
  next
    case True
    define k where "k = (if rs' = [] then sent w else nat (fst (hd rs') - U))"
    have start: "start = pos_of U"
      using c(8) True unacked_start_pos_of [OF inv] by simp
    have hd: "U \<le> fst (hd rs')" "fst (hd rs') < U + int (sent w)" if "rs' \<noteq> []"
      using send_range_bounds [OF inv subsetD [OF sub hd_in_set [OF that]]] by simp_all
    then have "unat (pos_of (fst (hd rs')) - start) = k" if "rs' \<noteq> []"
      using that send_inv_sizes(2) [OF inv] unfolding start
      by (subst unat_pos_of_diff) (auto simp: k_def)
    then have code': "SendWindow_ack_range w start end_pos = do {
        w2 \<leftarrow> release_front (w\<lparr>unacked_ranges := map enc_range rs'\<rparr>) k; Some (w2, Ack) }"
      using code True by (simp add: k_def)
    have k: "k \<le> sent w" using hd by (auto simp: k_def)
    have "if rs' = [] then k = sent w else fst (hd rs') = U + int k" using hd by (auto simp: k_def)
    from send_inv_release [OF inv k o ub this, of "map enc_range rs'"] code'
    show ?thesis by fastforce
  qed
qed

lemma ack_partial:
  assumes inv: "send_inv f U rs w" and a: "acks rs i t start end_pos" and t: "t < snd (rs ! i)"
  defines "rs' \<equiv> rs[i := (t, snd (rs ! i))]"
  shows "\<exists>w' U'. SendWindow_ack_range w start end_pos = Some (w', PartialAck (pos_of (snd (rs ! i)))) \<and>
     send_inv f U' rs' w' \<and> freed_to U w U' w'"
proof -
  note c = ack_found [OF inv a]
  have i: "i < length rs" and s: "fst (rs ! i) < t" "start = pos_of (fst (rs ! i))" "end_pos = pos_of t"
    using a by (auto simp: acks_def)
  note b = send_range_bounds [OF inv nth_mem [OF i]]
  have ne: "unacked_ranges w \<noteq> []" using i send_invD(5) [OF inv] by auto
  have e: "(end_pos = pos_of (snd (rs ! i))) = False" using c(7) t by simp
  have st: "vec_set (unacked_ranges w) i (end_pos, pos_of (snd (rs ! i))) = Some (map enc_range rs')"
    using i s by (simp add: send_invD(5) [OF inv] vec_set_ok rs'_def map_update)
  have o: "ordered rs'" using ordered_shorten(1) [OF send_invD(6) [OF inv] i s(1) t] by (simp add: rs'_def)
  have ub: "\<forall>r\<in>set rs'. snd r \<le> U + int (sent w)"
    using send_invD(9) [OF inv] b by (auto simp: rs'_def dest!: set_update_subset_insert [THEN subsetD])
  have code: "SendWindow_ack_range w start end_pos = do {
      w1 \<leftarrow> (if i = 0 then release_front w (unat (end_pos - start)) else Some w);
      Some (w1\<lparr>unacked_ranges := map enc_range rs'\<rparr>, PartialAck (pos_of (snd (rs ! i)))) }"
    using c ne e st by (simp add: SendWindow_ack_range_def Let_def)
  show ?thesis
  proof (cases "i = 0")
    case False
    then have "rs' \<noteq> []" "rs \<noteq> []" "hd rs' = hd rs"
      using i by (cases rs; cases i; simp add: rs'_def)+
    then have "send_inv f U rs' (w\<lparr>unacked_ranges := map enc_range rs'\<rparr>)"
      using inv o ub by (auto simp: send_inv_def split: if_splits)
    then show ?thesis using code False by (auto simp: freed_to_def)
  next
    case True
    define k where "k = nat (t - U)"
    have U: "fst (rs ! i) = U" using send_invD(8) [OF inv] True i by (auto simp: hd_conv_nth)
    have k: "k \<le> sent w" "t = U + int k" using s(1) t U b by (auto simp: k_def)
    have "unat (end_pos - start) = k"
      using s t b U send_inv_sizes(2) [OF inv] by (simp add: unat_pos_of_diff k_def)
    then have code': "SendWindow_ack_range w start end_pos = do {
        w1 \<leftarrow> release_front w k;
        Some (w1\<lparr>unacked_ranges := map enc_range rs'\<rparr>, PartialAck (pos_of (snd (rs ! i)))) }"
      using code True by simp
    have "rs' \<noteq> []" "fst (hd rs') = t" using i True by (auto simp: rs'_def hd_conv_nth)
    then have "if rs' = [] then k = sent w else fst (hd rs') = U + int k" using k by simp
    from send_inv_release [OF inv k(1) o ub this, of "unacked_ranges w"] obtain rb where
      rb: "release_front w k = Some (w\<lparr>sw_ring := rb, sent := sent w - k\<rparr>)"
      "send_inv f (U + int k) rs'
         (w\<lparr>unacked_ranges := map enc_range rs', sw_ring := rb, sent := sent w - k\<rparr>)"
      "freed_to U w (U + int k)
         (w\<lparr>unacked_ranges := map enc_range rs', sw_ring := rb, sent := sent w - k\<rparr>)" by auto
    with code' have "SendWindow_ack_range w start end_pos =
      Some (w\<lparr>unacked_ranges := map enc_range rs', sw_ring := rb, sent := sent w - k\<rparr>,
        PartialAck (pos_of (snd (rs ! i))))" by simp
    with rb(2,3) show ?thesis by fastforce
  qed
qed


text \<open>Whatever the acknowledgement, the window accepts or ignores it, and never panics.\<close>

lemma ack_returns:
  assumes inv: "send_inv f U rs w"
  shows "\<exists>w' r U' rs'. SendWindow_ack_range w start end_pos = Some (w', r) \<and>
     send_inv f U' rs' w' \<and> freed_to U w U' w'"
proof -
  consider (no) "\<nexists>i t. acks rs i t start end_pos" | (full) i where "acks rs i (snd (rs ! i)) start end_pos"
    | (part) i t where "acks rs i t start end_pos" "t < snd (rs ! i)"
    by (metis acks_def order_le_less)
  then show ?thesis
  proof cases
    case no
    from ack_not_found [OF inv this] show ?thesis
      using inv by (intro exI [of _ w] exI [of _ NotFound] exI [of _ U] exI [of _ rs]) (simp add: freed_to_def)
  next
    case full
    from ack_full [OF inv this] show ?thesis by blast
  next
    case part
    from ack_partial [OF inv this] show ?thesis by blast
  qed
qed

subsection \<open>Runs\<close>


text \<open>
  Runs of a send window: the application writes, the task sends and acknowledges, in any order. The
  run keeps the bytes the writer accepted and the bytes that were sent, each in order.
\<close>

datatype send_event = Write_data "byte list" | Send_into nat | Ack_of stream_pos stream_pos

type_synonym send_run_state = "send_window \<times> byte list \<times> byte list"

fun send_window_step :: "send_run_state \<Rightarrow> send_event \<Rightarrow> send_run_state option" where
  "send_window_step (w, acc, out) (Write_data data) = do {
     (rb, n) \<leftarrow> SendWindowWriter_write (sw_ring w) data;
     Some (w\<lparr>sw_ring := rb\<rparr>, acc @ take n data, out)
   }"
| "send_window_step (w, acc, out) (Send_into n) = do {
     (w, data, r) \<leftarrow> SendWindow_send w (replicate n 0);
     Some (w, acc, out @ (case r of None \<Rightarrow> [] | Some (a, b) \<Rightarrow> take (unat (b - a)) data))
   }"
| "send_window_step (w, acc, out) (Ack_of start end_pos) = do {
     (w, _) \<leftarrow> SendWindow_ack_range w start end_pos;
     Some (w, acc, out)
   }"

fun send_window_run :: "send_run_state \<Rightarrow> send_event list \<Rightarrow> send_run_state option" where
  "send_window_run s [] = Some s"
| "send_window_run s (e # es) = do { s \<leftarrow> send_window_step s e; send_window_run s es }"

definition stream_of :: "int \<Rightarrow> byte list \<Rightarrow> int \<Rightarrow> byte" where
  "stream_of b xs p = (if b \<le> p \<and> p < b + int (length xs) then xs ! nat (p - b) else 0)"

definition send_run_inv :: "int \<Rightarrow> int \<Rightarrow> range list \<Rightarrow> send_run_state \<Rightarrow> bool" where
  "send_run_inv b U rs = (\<lambda>(w, acc, out). send_inv (stream_of b acc) U rs w \<and> b \<le> U \<and>
     U + int (rb_count (sw_ring w)) = b + int (length acc) \<and>
     U + int (sent w) = b + int (length out) \<and> out = take (length out) acc)"

lemma stream_bytes_of:
  "b \<le> a \<Longrightarrow> a + int n \<le> b + int (length xs) \<Longrightarrow>
   stream_bytes (stream_of b xs) a n = take n (drop (nat (a - b)) xs)"
  by (intro nth_equalityI) (auto simp: stream_bytes_def stream_of_def nat_diff_distrib intro!: arg_cong [of _ _ "(!) xs"])

lemma stream_bytes_of_append:
  "b \<le> a \<Longrightarrow> a + int n \<le> b + int (length xs) \<Longrightarrow>
   stream_bytes (stream_of b (xs @ ys)) a n = stream_bytes (stream_of b xs) a n"
  by (simp add: stream_bytes_of)

lemma send_run_write:
  assumes inv: "send_run_inv b U rs (w, acc, out)"
  shows "\<exists>s. send_window_step (w, acc, out) (Write_data data) = Some s \<and> send_run_inv b U rs s"
proof -
  let ?n = "min (length data) (rb_capacity (sw_ring w) - rb_count (sw_ring w))"
  let ?f = "stream_of b (acc @ take ?n data)"
  have i: "send_inv (stream_of b acc) U rs w" "b \<le> U"
    "U + int (rb_count (sw_ring w)) = b + int (length acc)"
    "U + int (sent w) = b + int (length out)" "out = take (length out) acc"
    using inv by (auto simp: send_run_inv_def)
  have "stream_bytes ?f U (rb_count (sw_ring w)) = stream_bytes (stream_of b acc) U (rb_count (sw_ring w))"
    using i by (intro stream_bytes_of_append) auto
  then have inv': "send_inv ?f U rs w" using i(1) by (simp add: send_inv_def)
  have "take ?n data = stream_bytes ?f (U + int (rb_count (sw_ring w))) ?n"
    using i(2,3) by (subst stream_bytes_of) auto
  from send_window_write [OF inv' this] obtain rb where
    rb: "SendWindowWriter_write (sw_ring w) data = Some (rb, ?n)" "send_inv ?f U rs (w\<lparr>sw_ring := rb\<rparr>)"
    "rb_count rb = rb_count (sw_ring w) + ?n" by blast
  have "length out \<le> length acc" using arg_cong [OF i(5), of length] by simp
  then have "out = take (length out) (acc @ take ?n data)" using i(5) by simp
  with i rb show ?thesis by (simp add: send_run_inv_def)
qed

lemma send_run_send:
  assumes inv: "send_run_inv b U rs (w, acc, out)"
  shows "\<exists>s rs'. send_window_step (w, acc, out) (Send_into k) = Some s \<and> send_run_inv b U rs' s"
proof -
  let ?f = "stream_of b acc" and ?n = "min k (rb_count (sw_ring w) - sent w)"
  have i: "send_inv ?f U rs w" "b \<le> U"
    "U + int (rb_count (sw_ring w)) = b + int (length acc)"
    "U + int (sent w) = b + int (length out)" "out = take (length out) acc"
    using inv by (auto simp: send_run_inv_def)
  show ?thesis
  proof (cases "?n = 0")
    case True
    then have "SendWindow_send w (replicate k 0) = Some (w, replicate k 0, None)"
      using send_invD(3) [OF i(1)] by (intro send_nothing [OF i(1)]) auto
    then show ?thesis using inv by auto
  next
    case False
    let ?a = "U + int (sent w)"
    obtain w' where w': "SendWindow_send w (replicate k 0) =
       Some (w', stream_bytes ?f ?a ?n @ drop ?n (replicate k 0), Some (pos_of ?a, pos_of (?a + int ?n)))"
     "send_inv ?f U (rs @ [(?a, ?a + int ?n)]) w'" "sent w' = sent w + ?n" "sw_ring w' = sw_ring w"
      using send_some [OF i(1), of "replicate k 0"] False by auto
    have "int ?n < half_span" using send_inv_sizes(3) [OF i(1)] by linarith
    then have un: "unat (pos_of (?a + int ?n) - pos_of ?a) = ?n" by (subst unat_pos_of_diff) auto
    have fit: "sent w + ?n \<le> rb_count (sw_ring w)" using send_invD(3) [OF i(1)] by simp
    have "stream_bytes ?f ?a ?n = take ?n (drop (length out) acc)"
      using i(2-4) fit by (subst stream_bytes_of) auto
    then have "out @ stream_bytes ?f ?a ?n = take (length out + ?n) acc"
      using i(5) by (simp add: take_add)
    moreover have "send_window_step (w, acc, out) (Send_into k) = Some (w', acc, out @ stream_bytes ?f ?a ?n)"
      using w'(1) un by simp
    moreover have "length out + ?n \<le> length acc" using i(2-4) fit by linarith
    ultimately show ?thesis using w'(2-4) i(2-4)
      by (intro exI [of _ "(w', acc, out @ stream_bytes ?f ?a ?n)"] exI [of _ "rs @ [(?a, ?a + int ?n)]"])
        (simp add: send_run_inv_def)
  qed
qed

lemma send_run_ack:
  assumes inv: "send_run_inv b U rs (w, acc, out)"
  shows "\<exists>s U' rs'. send_window_step (w, acc, out) (Ack_of p q) = Some s \<and> send_run_inv b U' rs' s"
proof -
  have i: "send_inv (stream_of b acc) U rs w" using inv by (simp add: send_run_inv_def)
  from ack_returns [OF this, of p q] obtain w' r U' rs' where
    "SendWindow_ack_range w p q = Some (w', r)" "send_inv (stream_of b acc) U' rs' w'" "freed_to U w U' w'"
    by blast
  then show ?thesis using inv
    by (intro exI [of _ "(w', acc, out)"] exI [of _ U'] exI [of _ rs']) (auto simp: send_run_inv_def freed_to_def)
qed

lemma send_window_step_inv:
  assumes "send_run_inv b U rs s"
  shows "\<exists>s' U' rs'. send_window_step s e = Some s' \<and> send_run_inv b U' rs' s'"
proof -
  obtain w acc out where "s = (w, acc, out)" by (cases s)
  with assms show ?thesis
    using send_run_write send_run_send send_run_ack by (cases e) metis+
qed

lemma send_window_run_inv:
  assumes "send_run_inv b U rs s"
  shows "\<exists>s' U' rs'. send_window_run s es = Some s' \<and> send_run_inv b U' rs' s'"
  using assms
proof (induction es arbitrary: s U rs)
  case (Cons e es)
  from send_window_step_inv [OF Cons.prems, of e] obtain s' U' rs' where
    "send_window_step s e = Some s'" "send_run_inv b U' rs' s'" by blast
  with Cons.IH [of U' rs' s'] show ?case by simp
qed auto

text \<open>
  Any interleaving of writes, sends and acknowledgements of a fresh window returns, acknowledgements
  of arbitrary positions included; what was sent is a prefix of what the writer accepted, and the
  part that is sent and not acknowledged is still in the buffer.
\<close>

lemma send_window_run_stream:
  assumes "SendWindow_new c (pos_of b) = Some w"
  shows "\<exists>w' acc out U rs. send_window_run (w, [], []) es = Some (w', acc, out) \<and>
     out = take (length out) acc \<and> send_inv (stream_of b acc) U rs w' \<and> b \<le> U \<and>
     U + int (sent w') = b + int (length out) \<and>
     U + int (rb_count (sw_ring w')) = b + int (length acc)"
proof -
  have "send_run_inv b b [] (w, [], [])"
    using send_inv_new(1) [OF assms, of "stream_of b []"] send_inv_new(3) [OF assms] by (simp add: send_run_inv_def send_inv_def)
  from send_window_run_inv [OF this, of es] obtain s U rs where
    s: "send_window_run (w, [], []) es = Some s" "send_run_inv b U rs s" by blast
  then show ?thesis by (cases s) (auto simp: send_run_inv_def)
qed

end
