(* ===== verification/Recv_Window.thy ===== *)
theory Recv_Window
  imports Ring_Buffer Stream_Ranges
begin

text \<open>
  The receive window (\<open>windows.rs\<close>, \<open>RecvWindowReader\<close> and \<open>RecvWindow\<close>).

  The window and its reader share one ring: the readable part of the ring holds the ready bytes, which
  end at stream position \<open>recv_pos\<close>; bytes received out of order lie in the free part, at their
  distance from \<open>recv_pos\<close>, and \<open>unready\<close> lists the ranges they cover.

  This theory holds the code and shows that its two list operations, with their binary searches and
  index loop, compute \<open>extend_ready\<close> and \<open>merge_range\<close> of the logical ranges.
\<close>

definition RecvWindowReader_read ::
  "ring_buffer \<Rightarrow> byte list \<Rightarrow> (ring_buffer \<times> byte list \<times> nat) option" where
  "RecvWindowReader_read rb data = do {
     (data, len) \<leftarrow> Reader_read rb 0 data;
     (rb, _) \<leftarrow> Reader_advance rb len;
     Some (rb, data, as_u32 len)
   }"

record recv_window =
  rw_ring :: ring_buffer
  recv_pos :: stream_pos
  unready :: "(stream_pos \<times> stream_pos) list"

definition RecvWindow_new :: "nat \<Rightarrow> stream_pos \<Rightarrow> recv_window option" where
  "RecvWindow_new capacity stream_start = do {
     assert_that (capacity \<le> u32_max div 2);
     ring \<leftarrow> RingBuffer_new capacity;
     Some \<lparr>rw_ring = ring, recv_pos = stream_start, unready = []\<rparr>
   }"

definition RecvWindow_read_available :: "recv_window \<Rightarrow> nat option" where
  "RecvWindow_read_available w = do { n \<leftarrow> RingBuffer_read_available (rw_ring w); Some (as_u32 n) }"

definition RecvWindow_window_end :: "recv_window \<Rightarrow> stream_pos option" where
  "RecvWindow_window_end w = do {
     n \<leftarrow> RingBuffer_write_available (rw_ring w);
     Some (recv_pos w + of_nat (as_u32 n))
   }"

text \<open>
  The region touches the ready block: extend the ready block over it and over the unready region it
  runs into. The result is the remaining list and the new end of the ready block.
\<close>

definition recv_extend_ready ::
  "(stream_pos \<times> stream_pos) list \<Rightarrow> stream_pos \<Rightarrow>
   ((stream_pos \<times> stream_pos) list \<times> stream_pos) option" where
  "recv_extend_ready regions end_pos = do {
     found \<leftarrow> binary_search_by (\<lambda>r. stream_cmp (snd r) end_pos) regions;
     let pos = case_sum id id found;
     if pos = length regions then Some ([], end_pos)
     else do {
       r \<leftarrow> vec_get regions pos;
       if stream_ge end_pos (fst r) then do {
         rest \<leftarrow> vec_drain regions 0 (pos + 1);
         Some (rest, snd r)
       } else Some (regions, end_pos)
     }
   }"

text \<open>
  The region does not touch the ready block: combine it with the unready regions it overlaps or
  touches. The loop is \<open>for i in insert_pos..unready.len()\<close>, left at the first \<open>break\<close>.
\<close>

function recv_insert_loop ::
  "(stream_pos \<times> stream_pos) list \<Rightarrow> nat \<Rightarrow> stream_pos \<Rightarrow> stream_pos \<Rightarrow> nat \<Rightarrow>
   (stream_pos \<times> stream_pos) list option" where
  "recv_insert_loop regions insert_pos start_pos end_pos i =
     (if i < length regions then do {
        r \<leftarrow> vec_get regions i;
        if stream_lt end_pos (fst r) then
          if i = insert_pos then vec_insert regions insert_pos (start_pos, end_pos)
          else do {
            regions \<leftarrow> vec_drain regions (insert_pos + 1) i;
            x \<leftarrow> vec_get regions insert_pos;
            regions \<leftarrow> (if stream_lt start_pos (fst x)
              then vec_set regions insert_pos (start_pos, snd x) else Some regions);
            x \<leftarrow> vec_get regions insert_pos;
            vec_set regions insert_pos (fst x, end_pos)
          }
        else if stream_lt end_pos (snd r) \<or> i = length regions - 1 then do {
          x \<leftarrow> vec_get regions insert_pos;
          let start = fst x;
          regions \<leftarrow> vec_drain regions insert_pos i;
          x \<leftarrow> vec_get regions insert_pos;
          regions \<leftarrow> vec_set regions insert_pos
            (if stream_lt start_pos start then start_pos else start, snd x);
          x \<leftarrow> vec_get regions insert_pos;
          if stream_gt end_pos (snd x)
          then vec_set regions insert_pos (fst x, end_pos) else Some regions
        }
        else recv_insert_loop regions insert_pos start_pos end_pos (i + 1)
      } else Some regions)"
  by pat_completeness auto
termination
  by (relation "measure (\<lambda>(regions, ins, s, e, i). length regions - i)") auto

declare recv_insert_loop.simps [simp del]

definition recv_insert_unready ::
  "(stream_pos \<times> stream_pos) list \<Rightarrow> stream_pos \<Rightarrow> stream_pos \<Rightarrow>
   (stream_pos \<times> stream_pos) list option" where
  "recv_insert_unready regions start_pos end_pos = do {
     found \<leftarrow> binary_search_by (\<lambda>r. stream_cmp (snd r) start_pos) regions;
     let insert_pos = case_sum id id found;
     if insert_pos = length regions then Some (regions @ [(start_pos, end_pos)])
     else recv_insert_loop regions insert_pos start_pos end_pos insert_pos
   }"

definition RecvWindow_recv ::
  "recv_window \<Rightarrow> stream_pos \<Rightarrow> byte list \<Rightarrow> (recv_window \<times> stream_pos option) option" where
  "RecvWindow_recv w start_pos data = do {
     assert_that (length data \<le> u32_max div 2);
     avail \<leftarrow> RingBuffer_write_available (rw_ring w);
     let recv_end_pos = recv_pos w + of_nat (as_u32 avail);
     let end_pos = start_pos + of_nat (as_u32 (length data));
     if \<not> stream_lt start_pos recv_end_pos then Some (w, None)
     else do {
       let copy_start_pos = (if stream_gt (recv_pos w) start_pos then recv_pos w else start_pos);
       let end_pos = (if stream_lt end_pos recv_end_pos then end_pos else recv_end_pos);
       if stream_ge copy_start_pos end_pos then
         (if stream_lt start_pos end_pos then Some (w, Some end_pos) else Some (w, None))
       else do {
         let data_start = unat (copy_start_pos - start_pos);
         let buf_start = unat (copy_start_pos - recv_pos w);
         let buf_end = unat (end_pos - recv_pos w);
         x \<leftarrow> usize_add data_start buf_end;
         data_end \<leftarrow> usize_sub x buf_start;
         chunk \<leftarrow> slice data data_start data_end;
         (ring, written) \<leftarrow> Writer_write (rw_ring w) buf_start chunk;
         expected \<leftarrow> usize_sub buf_end buf_start;
         assert_that (written = expected);
         if stream_ge (recv_pos w) start_pos then do {
           (rest, end') \<leftarrow> recv_extend_ready (unready w) end_pos;
           (ring, _) \<leftarrow> Writer_advance ring (unat (end' - recv_pos w));
           Some (\<lparr>rw_ring = ring, recv_pos = end', unready = rest\<rparr>, Some end_pos)
         } else do {
           rest \<leftarrow> recv_insert_unready (unready w) start_pos end_pos;
           Some (w\<lparr>rw_ring := ring, unready := rest\<rparr>, Some end_pos)
         }
       }
     }
   }"

subsection \<open>The list operations against their logical versions\<close>

lemma recv_extend_ready_enc:
  assumes "separated rs" and "near rs e"
  shows "recv_extend_ready (map enc_range rs) (pos_of e) =
     Some (map_prod (map enc_range) pos_of (extend_ready e rs))"
proof -
  let ?k = "below snd e rs"
  have "\<exists>r. binary_search_by (\<lambda>r. stream_cmp (snd r) (pos_of e)) (map enc_range rs) = Some r \<and>
      case_sum id id r = ?k"
    using assms by (intro stream.search_index) (auto simp: near_def separated_ends)
  then obtain r where r: "binary_search_by (\<lambda>r. stream_cmp (snd r) (pos_of e)) (map enc_range rs) = Some r"
    "case_sum id id r = ?k" by blast
  show ?thesis
  proof (cases "?k = length rs")
    case True
    with r show ?thesis by (simp add: recv_extend_ready_def extend_ready_def)
  next
    case False
    then have k: "?k < length rs" using below_le_length [of snd e rs] by simp
    then have "stream_ge (pos_of e) (pos_of (fst (rs ! ?k))) \<longleftrightarrow> fst (rs ! ?k) \<le> e"
      using nearD [OF assms(2) k] by (simp add: stream_ge_pos_of)
    with r k False show ?thesis
      by (simp add: recv_extend_ready_def extend_ready_def checked_simps drop_map Let_def)
  qed
qed

lemma recv_insert_loop_enc:
  assumes sep: "separated rs" and near: "near rs s" "near rs e"
    and k: "k = below snd s rs" and i: "k \<le> i" "i < length rs"
    and over: "\<And>j. k \<le> j \<Longrightarrow> j < i \<Longrightarrow> snd (rs ! j) \<le> e"
  shows "recv_insert_loop (map enc_range rs) k (pos_of s) (pos_of e) i =
     Some (map enc_range (merge_range s e rs))"
  using i over
proof (induction "length rs - i" arbitrary: i rule: less_induct)
  case less
  note i = less.prems(1,2) and over = less.prems(3)
  have cmp: "stream_lt (pos_of e) (pos_of (fst (rs ! i))) \<longleftrightarrow> e < fst (rs ! i)"
    "stream_lt (pos_of e) (pos_of (snd (rs ! i))) \<longleftrightarrow> e < snd (rs ! i)"
    "stream_gt (pos_of e) (pos_of (snd (rs ! i))) \<longleftrightarrow> snd (rs ! i) < e"
    "stream_lt (pos_of s) (pos_of (fst (rs ! k))) \<longleftrightarrow> s < fst (rs ! k)"
    using nearD [OF near(1), of k] nearD [OF near(2), of i] i
    by (simp_all add: stream_lt_pos_of stream_gt_pos_of)
  consider (gap) "e < fst (rs ! i)"
    | (close) "fst (rs ! i) \<le> e" "e < snd (rs ! i) \<or> i = length rs - 1"
    | (more) "fst (rs ! i) \<le> e" "snd (rs ! i) \<le> e" "i \<noteq> length rs - 1" by linarith
  then show ?case
  proof cases
    case gap
    note m = merge_range_insert_at [OF sep k i over gap]
    show ?thesis
      using i gap cmp m
      by (subst recv_insert_loop.simps) (simp add: checked_simps take_map drop_map nth_append
          take_Suc_conv_app_nth list_update_append)
  next
    case close
    note m = merge_range_close_at [OF sep k i over close]
    show ?thesis
      using i close cmp m Cons_nth_drop_Suc [OF i(2), symmetric]
      by (subst recv_insert_loop.simps) (auto simp: checked_simps take_map drop_map nth_append
          list_update_append)
  next
    case more
    have "recv_insert_loop (map enc_range rs) k (pos_of s) (pos_of e) (i + 1) =
        Some (map enc_range (merge_range s e rs))"
      using i more over by (intro less.hyps) (auto simp: less_Suc_eq)
    then show ?thesis
      using i more cmp by (subst recv_insert_loop.simps) (simp add: checked_simps)
  qed
qed

lemma recv_insert_unready_enc:
  assumes "separated rs" and "near rs s" and "near rs e"
  shows "recv_insert_unready (map enc_range rs) (pos_of s) (pos_of e) =
     Some (map enc_range (merge_range s e rs))"
proof -
  let ?k = "below snd s rs"
  have "\<exists>r. binary_search_by (\<lambda>r. stream_cmp (snd r) (pos_of s)) (map enc_range rs) = Some r \<and>
      case_sum id id r = ?k"
    using assms by (intro stream.search_index) (auto simp: near_def separated_ends)
  then obtain r where r: "binary_search_by (\<lambda>r. stream_cmp (snd r) (pos_of s)) (map enc_range rs) = Some r"
    "case_sum id id r = ?k" by blast
  show ?thesis
  proof (cases "?k = length rs")
    case True
    with r merge_range_skip [of s e rs] show ?thesis by (simp add: recv_insert_unready_def)
  next
    case False
    then have "?k < length rs" using below_le_length [of snd s rs] by simp
    then have "recv_insert_loop (map enc_range rs) ?k (pos_of s) (pos_of e) ?k =
        Some (map enc_range (merge_range s e rs))"
      using assms by (intro recv_insert_loop_enc) simp_all
    with r False show ?thesis by (simp add: recv_insert_unready_def)
  qed
qed

end
