(* ===== verification/Recv_Window_Spec.thy ===== *)
theory Recv_Window_Spec
  imports Recv_Window
begin

text \<open>
  Correctness of the receive window.

  \<open>recv_inv\<close> ties a window to a byte stream \<open>f\<close>, the logical position \<open>P\<close> of \<open>recv_pos\<close> and the logical
  ranges \<open>rs\<close> of \<open>unready\<close>. The abstract specification of the window is the set \<open>received P rs\<close> of
  positions received so far: \<open>recv\<close> adds a range to it, \<open>recv_pos\<close> is the first position not in it, and
  the ring holds the stream's byte at every received position not yet read.

  \<open>horizon\<close> asks that no listed range is further than half the span behind the window. The code does
  not ensure it: a region that a segment swallows before ending in a gap stays in the list.
\<close>

subsection \<open>Invariant\<close>

abbreviation rw_free :: "recv_window \<Rightarrow> int" where
  "rw_free w \<equiv> int (rb_capacity (rw_ring w)) - int (rb_count (rw_ring w))"

text \<open>
  The cells of a ring whose tail is at logical position \<open>B\<close> hold the bytes of the stream \<open>f\<close> at the
  positions of \<open>A\<close>.
\<close>

definition stores :: "(int \<Rightarrow> byte) \<Rightarrow> int \<Rightarrow> int set \<Rightarrow> ring_buffer \<Rightarrow> bool" where
  "stores f B A rb \<longleftrightarrow>
     (\<forall>q\<in>A. B \<le> q \<and> q < B + int (rb_capacity rb) \<longrightarrow> rb_view rb ! nat (q - B) = Some (f q))"

definition recv_inv :: "(int \<Rightarrow> byte) \<Rightarrow> int \<Rightarrow> range list \<Rightarrow> recv_window \<Rightarrow> bool" where
  "recv_inv f P rs w \<longleftrightarrow>
     rb_ok (rw_ring w) \<and> rb_capacity (rw_ring w) \<le> u32_max div 2 \<and>
     recv_pos w = pos_of P \<and> unready w = map enc_range rs \<and>
     separated rs \<and> clear_of P rs \<and> (\<forall>r\<in>set rs. snd r \<le> P + rw_free w) \<and>
     stores f (P - int (rb_count (rw_ring w))) (received P rs) (rw_ring w)"

definition horizon :: "int \<Rightarrow> range list \<Rightarrow> recv_window \<Rightarrow> bool" where
  "horizon P rs w \<longleftrightarrow> (\<forall>r\<in>set rs. P + int (rb_capacity (rw_ring w)) - half_span < fst r)"

lemma stores_write:
  assumes "rb_ok rb" and "rb_view rb' = write_over (rb_view rb) j (map Some chunk)"
    and "rb_capacity rb' = rb_capacity rb" and "j + length chunk \<le> rb_capacity rb"
    and "stores f B A rb" and "\<And>i. i < length chunk \<Longrightarrow> chunk ! i = f (B + int j + int i)"
  shows "stores f B (A \<union> {B + int j..<B + int j + int (length chunk)}) rb'"
  unfolding stores_def
proof (intro ballI impI)
  fix q assume q: "q \<in> A \<union> {B + int j..<B + int j + int (length chunk)}"
    "B \<le> q \<and> q < B + int (rb_capacity rb')"
  let ?i = "nat (q - B)"
  have i: "?i < rb_capacity rb" using q(2) assms(3) by linarith
  have len: "length (rb_view rb) = rb_capacity rb" using rb_okD [OF assms(1)] by simp
  show "rb_view rb' ! ?i = Some (f q)"
  proof (cases "j \<le> ?i \<and> ?i < j + length chunk")
    case True
    then have "chunk ! (?i - j) = f (B + int j + int (?i - j))" by (intro assms(6)) linarith
    also have "B + int j + int (?i - j) = q" using True q(2) by linarith
    finally have "map Some chunk ! (?i - j) = Some (f q)" using True by (simp add: nth_map less_diff_conv2)
    then show ?thesis using True i len assms(2,4) by (simp add: nth_write_over)
  next
    case False
    then have "q \<in> A" using q by auto
    then have "rb_view rb ! ?i = Some (f q)" using assms(3,5) q(2) by (simp add: stores_def)
    then show ?thesis using False i len assms(2,4) by (auto simp: nth_write_over)
  qed
qed

lemma stores_mono: "stores f B A rb \<Longrightarrow> A' \<subseteq> A \<Longrightarrow> stores f B A' rb"
  by (auto simp: stores_def)

text \<open>Positions that are compared with the ranges of a window within its horizon.\<close>

lemma horizon_near:
  assumes "recv_inv f P rs w" and "horizon P rs w" and "P \<le> t" and "t \<le> P + rw_free w"
  shows "near rs t"
proof -
  have "\<bar>fst r - t\<bar> < half_span \<and> \<bar>snd r - t\<bar> < half_span" if "r \<in> set rs" for r
  proof -
    have "fst r < snd r" "snd r \<le> P + rw_free w" "P + int (rb_capacity (rw_ring w)) - half_span < fst r"
      using that assms(1,2) by (auto simp: recv_inv_def horizon_def separated_bounds)
    moreover have "int (rb_capacity (rw_ring w)) < half_span"
      using assms(1) by (simp add: recv_inv_def u32_max_def)
    ultimately show ?thesis using assms(3,4) by linarith
  qed
  then show ?thesis by (simp add: near_def)
qed

text \<open>The window end and the reductions of the early part of \<open>recv\<close>.\<close>

lemma window_end_pos_of:
  assumes "recv_inv f P rs w"
  shows "RingBuffer_write_available (rw_ring w) = Some (rb_capacity (rw_ring w) - rb_count (rw_ring w))"
    and "recv_pos w + of_nat (as_u32 (rb_capacity (rw_ring w) - rb_count (rw_ring w))) =
      pos_of (P + rw_free w)"
    and "0 \<le> rw_free w" and "rw_free w < half_span" and "int (rb_capacity (rw_ring w)) < half_span"
proof -
  note ok = rb_okD [of "rw_ring w"]
  have i: "rb_ok (rw_ring w)" "rb_capacity (rw_ring w) \<le> u32_max div 2" "recv_pos w = pos_of P"
    using assms by (auto simp: recv_inv_def)
  then show "RingBuffer_write_available (rw_ring w) = Some (rb_capacity (rw_ring w) - rb_count (rw_ring w))"
    by (simp add: write_available_free)
  have "as_u32 (rb_capacity (rw_ring w) - rb_count (rw_ring w)) = rb_capacity (rw_ring w) - rb_count (rw_ring w)"
    using i by (intro as_u32_ok) (simp add: u32_max_def)
  moreover have "int (rb_capacity (rw_ring w) - rb_count (rw_ring w)) = rw_free w"
    using ok i by simp
  ultimately show "recv_pos w + of_nat (as_u32 (rb_capacity (rw_ring w) - rb_count (rw_ring w))) =
      pos_of (P + rw_free w)"
    by (simp only: i(3) pos_of_nat pos_of_add)
  show "0 \<le> rw_free w" using ok i by simp
  show "int (rb_capacity (rw_ring w)) < half_span" using i by (simp add: u32_max_def)
  then show "rw_free w < half_span" by linarith
qed

text \<open>The logical end of what the window accepts of \<open>len\<close> bytes at \<open>s\<close>.\<close>

definition accept_end :: "recv_window \<Rightarrow> int \<Rightarrow> int \<Rightarrow> nat \<Rightarrow> int" where
  "accept_end w P s len = min (s + int len) (P + rw_free w)"

text \<open>The tests at the head of \<open>recv\<close>, for a start position inside the half span before the end.\<close>

lemma recv_head:
  assumes inv: "recv_inv f P rs w" and len: "length data \<le> u32_max div 2"
    and s: "P + rw_free w - half_span < s" "s < P + rw_free w"
  defines "E \<equiv> P + rw_free w" and "e \<equiv> accept_end w P s (length data)"
  shows "stream_lt (pos_of s) (pos_of E)"
    and "(if stream_gt (recv_pos w) (pos_of s) then recv_pos w else pos_of s) = pos_of (max P s)"
    and "(if stream_lt (pos_of s + of_nat (as_u32 (length data))) (pos_of E)
          then pos_of s + of_nat (as_u32 (length data)) else pos_of E) = pos_of e"
    and "stream_ge (pos_of (max P s)) (pos_of e) \<longleftrightarrow> e \<le> max P s"
    and "stream_lt (pos_of s) (pos_of e) \<longleftrightarrow> s < e"
    and "stream_ge (recv_pos w) (pos_of s) \<longleftrightarrow> s \<le> P"
proof -
  note w = window_end_pos_of(3-5) [OF inv]
  have pos: "recv_pos w = pos_of P" using inv by (simp add: recv_inv_def)
  have l: "int (length data) < half_span" using len by (simp add: u32_max_def)
  have "as_u32 (length data) = length data" using len by (intro as_u32_ok) (simp add: u32_max_def)
  then have se: "pos_of s + of_nat (as_u32 (length data)) = pos_of (s + int (length data))"
    by (simp only: pos_of_nat pos_of_add)
  show "stream_lt (pos_of s) (pos_of E)" using s by (simp add: stream_lt_pos_of E_def)
  have Ps: "\<bar>P - s\<bar> < half_span" using s w by linarith
  then show "(if stream_gt (recv_pos w) (pos_of s) then recv_pos w else pos_of s) = pos_of (max P s)"
    by (simp add: pos stream_gt_pos_of max_def)
  show "stream_ge (recv_pos w) (pos_of s) \<longleftrightarrow> s \<le> P" using Ps by (simp add: pos stream_ge_pos_of)
  have "\<bar>s + int (length data) - E\<bar> < half_span" using s w l unfolding E_def by linarith
  then show "(if stream_lt (pos_of s + of_nat (as_u32 (length data))) (pos_of E)
      then pos_of s + of_nat (as_u32 (length data)) else pos_of E) = pos_of e"
    unfolding se by (simp add: stream_lt_pos_of e_def accept_end_def E_def min_def)
  have e: "s \<le> e" "e \<le> E" "e \<le> s + int (length data)"
    using s by (auto simp: e_def accept_end_def E_def)
  have "\<bar>max P s - e\<bar> < half_span" using e s w l unfolding E_def by linarith
  then show "stream_ge (pos_of (max P s)) (pos_of e) \<longleftrightarrow> e \<le> max P s" by (rule stream_ge_pos_of)
  have "\<bar>s - e\<bar> < half_span" using e l by linarith
  then show "stream_lt (pos_of s) (pos_of e) \<longleftrightarrow> s < e" by (rule stream_lt_pos_of)
qed

lemma recv_rejects:
  assumes inv: "recv_inv f P rs w" and len: "length data \<le> u32_max div 2"
    and s: "s = P + rw_free w - half_span \<or> P + rw_free w \<le> s" "s < P + rw_free w + half_span"
  shows "RecvWindow_recv w (pos_of s) data = Some (w, None)"
proof -
  have "\<not> stream_lt (pos_of s) (pos_of (P + rw_free w))"
    using s(1)
  proof
    assume "s = P + rw_free w - half_span"
    then show ?thesis using stream_cmp_opposite [of "P + rw_free w"] by (simp add: stream_lt_def)
  next
    assume "P + rw_free w \<le> s"
    then show ?thesis using s(2) by (simp add: stream_lt_pos_of)
  qed
  then show ?thesis using window_end_pos_of(1,2) [OF inv] len by (simp add: RecvWindow_recv_def Let_def)
qed

lemma recv_old:
  assumes inv: "recv_inv f P rs w" and len: "length data \<le> u32_max div 2"
    and s: "P + rw_free w - half_span < s" "s < P + rw_free w"
    and old: "accept_end w P s (length data) \<le> max P s"
  shows "RecvWindow_recv w (pos_of s) data =
     Some (w, if s < accept_end w P s (length data)
              then Some (pos_of (accept_end w P s (length data))) else None)"
proof -
  note h = recv_head [OF inv len s]
  have "(length data \<le> u32_max div 2) = True" "(accept_end w P s (length data) \<le> max P s) = True"
    using len old by simp_all
  then show ?thesis unfolding RecvWindow_recv_def Let_def
    by (simp only: window_end_pos_of(1,2) [OF inv] h assert_that_True bind.bind_lunit
        not_True_eq_False if_True if_False) simp
qed

text \<open>The copy into the ring: the new bytes go to their place, nothing is published yet.\<close>

lemma recv_copy:
  assumes inv: "recv_inv f P rs w"
    and lo: "P \<le> lo" "s \<le> lo" "lo < e" "e \<le> P + rw_free w" "e \<le> s + int (length data)"
    and data: "\<And>i. i < length data \<Longrightarrow> data ! i = f (s + int i)"
  defines "chunk \<equiv> take (nat (e - lo)) (drop (nat (lo - s)) data)"
  shows "\<exists>ring. Writer_write (rw_ring w) (nat (lo - P)) chunk = Some (ring, nat (e - lo)) \<and>
     rb_ok ring \<and> rb_capacity ring = rb_capacity (rw_ring w) \<and> rb_count ring = rb_count (rw_ring w) \<and>
     stores f (P - int (rb_count ring)) (received P rs \<union> {lo..<e}) ring"
proof -
  let ?r = "rw_ring w"
  let ?j = "rb_count ?r + nat (lo - P)"
  have ok: "rb_ok ?r" and st: "stores f (P - int (rb_count ?r)) (received P rs) ?r"
    using inv by (auto simp: recv_inv_def)
  have len: "length chunk = nat (e - lo)" using lo by (simp add: chunk_def)
  then have n: "min (length chunk) (rb_capacity ?r - rb_count ?r - nat (lo - P)) = nat (e - lo)"
    using lo by simp
  obtain ring where ring: "Writer_write ?r (nat (lo - P)) chunk = Some (ring, nat (e - lo))"
    "rb_ok ring" "rb_capacity ring = rb_capacity ?r" "rb_count ring = rb_count ?r"
    "rb_view ring = write_over (rb_view ?r) ?j (map Some chunk)"
    using Writer_write_spec [OF ok, of "nat (lo - P)" chunk] len unfolding n by auto
  have base: "P - int (rb_count ?r) + int ?j = lo" using lo by simp
  have "stores f (P - int (rb_count ?r)) (received P rs \<union>
      {P - int (rb_count ?r) + int ?j..<P - int (rb_count ?r) + int ?j + int (length chunk)}) ring"
  proof (rule stores_write [OF ok ring(5,3) _ st])
    show "?j + length chunk \<le> rb_capacity ?r" using lo len by linarith
    fix i assume i: "i < length chunk"
    then have "chunk ! i = data ! (nat (lo - s) + i)" using len lo by (simp add: chunk_def)
    also have "\<dots> = f (s + int (nat (lo - s) + i))" using i len lo by (intro data) linarith
    also have "s + int (nat (lo - s) + i) = lo + int i" using lo by simp
    finally show "chunk ! i = f (P - int (rb_count ?r) + int ?j + int i)" unfolding base .
  qed
  then have "stores f (P - int (rb_count ?r)) (received P rs \<union> {lo..<e}) ring"
    unfolding base len using lo by simp
  with ring show ?thesis by auto
qed

text \<open>What \<open>recv\<close> does with new data, once the copy has succeeded.\<close>

lemma recv_body:
  assumes inv: "recv_inv f P rs w" and len: "length data \<le> u32_max div 2"
    and s: "P + rw_free w - half_span < s" "s < P + rw_free w"
  defines "e \<equiv> accept_end w P s (length data)" and "lo \<equiv> max P s"
  assumes new: "lo < e"
    and wr: "Writer_write (rw_ring w) (nat (lo - P)) (take (nat (e - lo)) (drop (nat (lo - s)) data)) =
      Some (ring, nat (e - lo))"
  shows "RecvWindow_recv w (pos_of s) data =
     (if s \<le> P then do {
        (rest, end') \<leftarrow> recv_extend_ready (unready w) (pos_of e);
        (ring, _) \<leftarrow> Writer_advance ring (unat (end' - pos_of P));
        Some (\<lparr>rw_ring = ring, recv_pos = end', unready = rest\<rparr>, Some (pos_of e))
      } else do {
        rest \<leftarrow> recv_insert_unready (unready w) (pos_of s) (pos_of e);
        Some (w\<lparr>rw_ring := ring, unready := rest\<rparr>, Some (pos_of e))
      })"
proof -
  note h = recv_head [OF inv len s, folded e_def lo_def] and w = window_end_pos_of [OF inv]
  have pos: "recv_pos w = pos_of P" using inv by (simp add: recv_inv_def)
  have e: "e \<le> P + rw_free w" "e \<le> s + int (length data)" by (simp_all add: e_def accept_end_def)
  have lo: "P \<le> lo" "s \<le> lo" by (simp_all add: lo_def)
  have l: "int (length data) < half_span" using len by (simp add: u32_max_def)
  have u1: "unat (pos_of lo - pos_of s) = nat (lo - s)"
    using lo e new l by (intro unat_pos_of_diff) auto
  have u2: "unat (pos_of lo - pos_of P) = nat (lo - P)"
    using lo e new w by (intro unat_pos_of_diff) auto
  have u3: "unat (pos_of e - pos_of P) = nat (e - P)"
    using lo e new w by (intro unat_pos_of_diff) auto
  have a: "usize_add (nat (lo - s)) (nat (e - P)) = Some (nat (lo - s) + nat (e - P))"
    using lo e new w l by (intro usize_add_ok) (simp add: usize_max_def)
  have b: "usize_sub (nat (lo - s) + nat (e - P)) (nat (lo - P)) = Some (nat (e - s))"
  proof -
    have "nat (lo - P) \<le> nat (lo - s) + nat (e - P)" using lo new by linarith
    moreover have "nat (lo - s) + nat (e - P) - nat (lo - P) = nat (e - s)" using lo new by linarith
    ultimately show ?thesis by (simp add: usize_sub_def)
  qed
  have c: "slice data (nat (lo - s)) (nat (e - s)) = Some (take (nat (e - lo)) (drop (nat (lo - s)) data))"
  proof -
    have "nat (lo - s) \<le> nat (e - s)" "nat (e - s) \<le> length data" "nat (e - s) - nat (lo - s) = nat (e - lo)"
      using lo e new by linarith+
    then show ?thesis by (simp add: slice_def)
  qed
  have d: "usize_sub (nat (e - P)) (nat (lo - P)) = Some (nat (e - lo))"
  proof -
    have "nat (lo - P) \<le> nat (e - P)" "nat (e - P) - nat (lo - P) = nat (e - lo)"
      using lo new by linarith+
    then show ?thesis by (simp add: usize_sub_def)
  qed
  have t: "(length data \<le> u32_max div 2) = True" "(e \<le> lo) = False" using len new by auto
  show ?thesis
    unfolding RecvWindow_recv_def Let_def pos
    by (simp only: w(1,2) [unfolded pos] h [unfolded pos] assert_that_True bind.bind_lunit t
        not_True_eq_False if_True if_False u1 u2 u3 a b c d wr prod.case simp_thms)
qed

lemma recv_new_ready:
  assumes inv: "recv_inv f P rs w" and hor: "horizon P rs w" and len: "length data \<le> u32_max div 2"
    and s: "P + rw_free w - half_span < s" "s \<le> P"
    and data: "\<And>i. i < length data \<Longrightarrow> data ! i = f (s + int i)"
  defines "e \<equiv> accept_end w P s (length data)"
  assumes new: "P < e"
  shows "\<exists>w' P' rs'. RecvWindow_recv w (pos_of s) data = Some (w', Some (pos_of e)) \<and>
     recv_inv f P' rs' w' \<and> extend_ready e rs = (rs', P') \<and>
     received P' rs' = received P rs \<union> {s..<e} \<and> P \<le> P' \<and>
     rb_capacity (rw_ring w') = rb_capacity (rw_ring w) \<and>
     P' - int (rb_count (rw_ring w')) = P - int (rb_count (rw_ring w))"
proof -
  have i: "separated rs" "unready w = map enc_range rs" "\<forall>r\<in>set rs. snd r \<le> P + rw_free w"
    "rb_capacity (rw_ring w) \<le> u32_max div 2"
    using inv by (auto simp: recv_inv_def)
  have e: "e \<le> P + rw_free w" "e \<le> s + int (length data)" by (simp_all add: e_def accept_end_def)
  have lo: "max P s = P" using s by simp
  obtain ring where ring: "Writer_write (rw_ring w) (nat (P - P))
        (take (nat (e - P)) (drop (nat (P - s)) data)) = Some (ring, nat (e - P))"
    "rb_ok ring" "rb_capacity ring = rb_capacity (rw_ring w)" "rb_count ring = rb_count (rw_ring w)"
    "stores f (P - int (rb_count ring)) (received P rs \<union> {P..<e}) ring"
    using recv_copy [OF inv, of P s e data] data s new e by auto
  obtain rs' P' where x: "extend_ready e rs = (rs', P')" by (cases "extend_ready e rs")
  note sp = extend_ready_spec [OF i(1) x]
  have P': "P \<le> P'" "P' \<le> P + rw_free w" using sp e i(3) new by auto
  have "near rs e" using horizon_near [OF inv hor] e new by simp
  then have ext: "recv_extend_ready (unready w) (pos_of e) = Some (map enc_range rs', pos_of P')"
    using recv_extend_ready_enc [OF i(1)] i(2) x by simp
  have "unat (pos_of P' - pos_of P) = nat (P' - P)"
    using P' window_end_pos_of(4) [OF inv] by (intro unat_pos_of_diff) auto
  moreover have "min (nat (P' - P)) (rb_capacity ring - rb_count ring) = nat (P' - P)"
    using P' ring(3,4) by linarith
  ultimately obtain ring' where adv: "Writer_advance ring (unat (pos_of P' - pos_of P)) = Some (ring', nat (P' - P))"
    "rb_ok ring'" "rb_capacity ring' = rb_capacity ring" "rb_count ring' = rb_count ring + nat (P' - P)"
    "rb_view ring' = rb_view ring"
    using Writer_advance_spec [OF ring(2), of "nat (P' - P)"] by auto
  have set: "received P' rs' = received P rs \<union> {P..<e}" "received P' rs' = received P rs \<union> {s..<e}"
    using sp s(2) new by (auto simp: received_def)
  have base: "P' - int (rb_count ring') = P - int (rb_count ring)" using adv(4) P' by simp
  have "recv_inv f P' rs' \<lparr>rw_ring = ring', recv_pos = pos_of P', unready = map enc_range rs'\<rparr>"
  proof -
    have "stores f (P' - int (rb_count ring')) (received P' rs') ring'"
      using ring(5) set(1) base adv(3,5) by (simp add: stores_def)
    moreover have "\<forall>r\<in>set rs'. snd r \<le> P' + (int (rb_capacity ring') - int (rb_count ring'))"
      using sp i(3) base adv(3) ring(3,4) by fastforce
    ultimately show ?thesis using sp adv(2,3) ring(3) i(4) by (simp add: recv_inv_def)
  qed
  moreover have "RecvWindow_recv w (pos_of s) data =
      Some (\<lparr>rw_ring = ring', recv_pos = pos_of P', unready = map enc_range rs'\<rparr>, Some (pos_of e))"
  proof -
    have "s < P + rw_free w" using s e new by simp
    from recv_body [OF inv len s(1) this, of ring, folded e_def, unfolded lo, OF new ring(1)]
    show ?thesis using s(2) ext adv(1) by simp
  qed
  ultimately show ?thesis using x set(2) P'(1) base adv(3) ring(3,4) by auto
qed

lemma recv_new_unready:
  assumes inv: "recv_inv f P rs w" and hor: "horizon P rs w" and len: "length data \<le> u32_max div 2"
    and s: "P < s"
    and data: "\<And>i. i < length data \<Longrightarrow> data ! i = f (s + int i)"
  defines "e \<equiv> accept_end w P s (length data)"
  assumes new: "s < e"
  shows "\<exists>w'. RecvWindow_recv w (pos_of s) data = Some (w', Some (pos_of e)) \<and>
     recv_inv f P (merge_range s e rs) w' \<and>
     received P (merge_range s e rs) = received P rs \<union> {s..<e} \<and>
     rb_capacity (rw_ring w') = rb_capacity (rw_ring w) \<and>
     rb_count (rw_ring w') = rb_count (rw_ring w)"
proof -
  have i: "separated rs" "unready w = map enc_range rs" "\<forall>r\<in>set rs. snd r \<le> P + rw_free w"
    "rb_capacity (rw_ring w) \<le> u32_max div 2" "clear_of P rs" "recv_pos w = pos_of P"
    using inv by (auto simp: recv_inv_def)
  have e: "e \<le> P + rw_free w" "e \<le> s + int (length data)" by (simp_all add: e_def accept_end_def)
  have lo: "max P s = s" using s by simp
  obtain ring where ring: "Writer_write (rw_ring w) (nat (s - P))
        (take (nat (e - s)) (drop (nat (s - s)) data)) = Some (ring, nat (e - s))"
    "rb_ok ring" "rb_capacity ring = rb_capacity (rw_ring w)" "rb_count ring = rb_count (rw_ring w)"
    "stores f (P - int (rb_count ring)) (received P rs \<union> {s..<e}) ring"
    using recv_copy [OF inv, of s s e data] data s new e by auto
  have near: "near rs s" "near rs e" using horizon_near [OF inv hor] e new s by auto
  have ins: "recv_insert_unready (unready w) (pos_of s) (pos_of e) =
      Some (map enc_range (merge_range s e rs))"
    using recv_insert_unready_enc [OF i(1) near] i(2) by simp
  have set: "received P (merge_range s e rs) = received P rs \<union> {s..<e}"
    using received_merge_range [OF new i(1)] .
  have "recv_inv f P (merge_range s e rs)
      (w\<lparr>rw_ring := ring, unready := map enc_range (merge_range s e rs)\<rparr>)"
    using ring i set separated_merge_range [OF new i(1)] clear_of_merge_range [OF s i(5)]
      merge_range_upper [OF e(1) i(3)]
    unfolding recv_inv_def by auto
  moreover have "RecvWindow_recv w (pos_of s) data =
      Some (w\<lparr>rw_ring := ring, unready := map enc_range (merge_range s e rs)\<rparr>, Some (pos_of e))"
  proof -
    have "s < P + rw_free w" "P + rw_free w - half_span < s"
      using s e new window_end_pos_of(4) [OF inv] by auto
    from recv_body [OF inv len this(2,1), of ring, folded e_def, unfolded lo, OF new ring(1)]
    show ?thesis using s ins by simp
  qed
  ultimately show ?thesis using set ring(3,4) by auto
qed

subsection \<open>One call\<close>

lemma recv_step:
  assumes inv: "recv_inv f P rs w" and hor: "horizon P rs w" and len: "length data \<le> u32_max div 2"
    and s: "P + rw_free w - half_span \<le> s" "s < P + rw_free w + half_span"
    and data: "\<And>i. i < length data \<Longrightarrow> data ! i = f (s + int i)"
  defines "e \<equiv> accept_end w P s (length data)"
  shows "\<exists>w' r P' rs'. RecvWindow_recv w (pos_of s) data = Some (w', r) \<and> recv_inv f P' rs' w' \<and>
     rb_capacity (rw_ring w') = rb_capacity (rw_ring w) \<and>
     P' - int (rb_count (rw_ring w')) = P - int (rb_count (rw_ring w)) \<and> P \<le> P' \<and>
     (if P + rw_free w - half_span < s \<and> s < e
      then r = Some (pos_of e) \<and> received P' rs' = received P rs \<union> {s..<e} \<and>
        ((P', rs') = (P, rs) \<or> P < e \<and> (rs', P') = extend_ready e rs \<or>
         (P', rs') = (P, merge_range s e rs))
      else r = None \<and> w' = w \<and> P' = P \<and> rs' = rs)"
proof -
  consider (rej) "s = P + rw_free w - half_span \<or> P + rw_free w \<le> s"
    | (old) "P + rw_free w - half_span < s" "s < P + rw_free w" "e \<le> max P s"
    | (ready) "P + rw_free w - half_span < s" "s \<le> P" "P < e"
    | (unready) "P < s" "s < e"
    using s by linarith
  then show ?thesis
  proof cases
    case rej
    then have "\<not> (P + rw_free w - half_span < s \<and> s < e)"
      by (auto simp: e_def accept_end_def)
    with recv_rejects [OF inv len rej s(2)] inv show ?thesis by auto
  next
    case old
    have "{s..<e} \<subseteq> {..<P}" if "s < e" using that old(3) by auto
    then have "received P rs = received P rs \<union> {s..<e}" if "s < e" using that by (auto simp: received_def)
    with recv_old [OF inv len old(1,2) old(3) [unfolded e_def]] inv old(1) show ?thesis
      unfolding e_def [symmetric] by (intro exI [of _ w] exI [of _ "if s < e then Some (pos_of e) else None"]
          exI [of _ P] exI [of _ rs]) auto
  next
    case ready
    then have "s < e" by simp
    moreover obtain w' P' rs' where "RecvWindow_recv w (pos_of s) data = Some (w', Some (pos_of e))"
      "recv_inv f P' rs' w'" "extend_ready e rs = (rs', P')"
      "received P' rs' = received P rs \<union> {s..<e}" "P \<le> P'"
      "rb_capacity (rw_ring w') = rb_capacity (rw_ring w)"
      "P' - int (rb_count (rw_ring w')) = P - int (rb_count (rw_ring w))"
      using recv_new_ready [OF inv hor len ready(1,2) data, folded e_def, OF _ ready(3)] by auto
    ultimately show ?thesis using ready
      by (intro exI [of _ w'] exI [of _ "Some (pos_of e)"] exI [of _ P'] exI [of _ rs']) simp
  next
    case unready
    have "P + rw_free w - half_span < s" using unready(1) window_end_pos_of(4) [OF inv] by linarith
    moreover obtain w' where "RecvWindow_recv w (pos_of s) data = Some (w', Some (pos_of e))"
      "recv_inv f P (merge_range s e rs) w'"
      "received P (merge_range s e rs) = received P rs \<union> {s..<e}"
      "rb_capacity (rw_ring w') = rb_capacity (rw_ring w)"
      "rb_count (rw_ring w') = rb_count (rw_ring w)"
      using recv_new_unready [OF inv hor len unready(1) data, folded e_def, OF _ unready(2)] by auto
    ultimately show ?thesis using unready(2)
      by (intro exI [of _ w'] exI [of _ "Some (pos_of e)"] exI [of _ P]
          exI [of _ "merge_range s e rs"]) simp
  qed
qed

lemma stores_content:
  assumes ok: "rb_ok rb" and st: "stores f (P - int (rb_count rb)) (received P rs) rb"
  shows "take (rb_count rb) (rb_view rb) =
     map Some (map (\<lambda>i. f (P - int (rb_count rb) + int i)) [0..<rb_count rb])"
proof (rule nth_equalityI)
  note k = rb_okD [OF ok]
  show "length (take (rb_count rb) (rb_view rb)) =
      length (map Some (map (\<lambda>i. f (P - int (rb_count rb) + int i)) [0..<rb_count rb]))"
    using k by simp
  fix i assume "i < length (take (rb_count rb) (rb_view rb))"
  then have i: "i < rb_count rb" by simp
  let ?q = "P - int (rb_count rb) + int i"
  have "?q \<in> received P rs" using i by (simp add: received_def)
  then have "rb_view rb ! nat (?q - (P - int (rb_count rb))) = Some (f ?q)"
  proof -
    have "P - int (rb_count rb) \<le> ?q \<and> ?q < P - int (rb_count rb) + int (rb_capacity rb)"
      using i k(6) by simp
    with st \<open>?q \<in> received P rs\<close> show ?thesis unfolding stores_def by blast
  qed
  then show "take (rb_count rb) (rb_view rb) ! i =
      map Some (map (\<lambda>i. f (P - int (rb_count rb) + int i)) [0..<rb_count rb]) ! i"
    using i by simp
qed

lemma stores_rotate:
  assumes ok: "rb_ok rb" and st: "stores f B A rb" and A: "A \<subseteq> {..<B + int (rb_capacity rb)}"
    and v: "rb_view rb' = rotate n (rb_view rb)" "rb_capacity rb' = rb_capacity rb" and n: "n \<le> rb_capacity rb"
  shows "stores f (B + int n) A rb'"
  unfolding stores_def
proof (intro ballI impI)
  fix q assume q: "q \<in> A" "B + int n \<le> q \<and> q < B + int n + int (rb_capacity rb')"
  then have "q < B + int (rb_capacity rb)" using A by auto
  then have "nat (q - (B + int n)) + n < rb_capacity rb" "nat (q - (B + int n)) + n = nat (q - B)"
    using q(2) by linarith+
  moreover have "rb_view rb ! nat (q - B) = Some (f q)"
    using st q \<open>q < B + int (rb_capacity rb)\<close> by (auto simp: stores_def)
  ultimately show "rb_view rb' ! nat (q - (B + int n)) = Some (f q)"
    using rb_okD(3) [OF ok] v by (simp add: nth_rotate add.commute)
qed

lemma received_bound:
  assumes "recv_inv f P rs w"
  shows "received P rs \<subseteq> {..<P + rw_free w}"
  using assms window_end_pos_of(3) [OF assms]
  by (fastforce simp: recv_inv_def received_def range_set_def)

lemma reader_step:
  fixes buf :: "byte list"
  assumes inv: "recv_inv f P rs w"
  defines "n \<equiv> min (length buf) (rb_count (rw_ring w))" and "B \<equiv> P - int (rb_count (rw_ring w))"
  shows "\<exists>rb. RecvWindowReader_read (rw_ring w) buf =
       Some (rb, map (\<lambda>i. f (B + int i)) [0..<n] @ drop n buf, n) \<and>
     recv_inv f P rs (w\<lparr>rw_ring := rb\<rparr>) \<and> rb_capacity rb = rb_capacity (rw_ring w) \<and>
     P - int (rb_count rb) = B + int n"
proof -
  let ?r = "rw_ring w"
  have i: "rb_ok ?r" "stores f B (received P rs) ?r" "rb_capacity ?r \<le> u32_max div 2"
    using inv by (auto simp: recv_inv_def B_def)
  note k = rb_okD [OF i(1)]
  note c = stores_content [OF i(1) i(2) [unfolded B_def], folded B_def]
  have r: "Reader_read ?r 0 buf = Some (take n (map (\<lambda>i. f (B + int i)) [0..<rb_count ?r]) @ drop n buf, n)"
    using Reader_read_spec [OF i(1) c, of 0 buf] by (simp add: n_def)
  have "min n (rb_count ?r) = n" by (simp add: n_def)
  then obtain rb where rb: "Reader_advance ?r n = Some (rb, n)" "rb_ok rb" "rb_capacity rb = rb_capacity ?r"
    "rb_count rb = rb_count ?r - n" "rb_view rb = rotate n (rb_view ?r)"
    using Reader_advance_spec [OF i(1), of n] by auto
  have "as_u32 n = n" using k(6) i(3) by (intro as_u32_ok) (simp add: n_def u32_max_def)
  moreover have "take n (map (\<lambda>i. f (B + int i)) [0..<rb_count ?r]) = map (\<lambda>i. f (B + int i)) [0..<n]"
    by (simp add: take_map n_def)
  ultimately have "RecvWindowReader_read ?r buf = Some (rb, map (\<lambda>i. f (B + int i)) [0..<n] @ drop n buf, n)"
    using r rb(1) by (simp add: RecvWindowReader_read_def)
  moreover have B: "P - int (rb_count rb) = B + int n" using rb(4) by (simp add: B_def n_def of_nat_diff)
  moreover have "stores f (B + int n) (received P rs) rb"
    using received_bound [OF inv] i(1,2) rb(3,5) k(6)
    by (intro stores_rotate [where rb = ?r]) (auto simp: B_def n_def)
  moreover have "\<forall>r\<in>set rs. snd r \<le> P + (int (rb_capacity rb) - int (rb_count rb))"
    using inv rb(3,4) by (fastforce simp: recv_inv_def)
  ultimately show ?thesis using inv rb(2,3) by (auto simp: recv_inv_def)
qed

lemma recv_inv_new:
  assumes "RecvWindow_new c (pos_of b) = Some w"
  shows "recv_inv f b [] w" and "rb_count (rw_ring w) = 0" and "rb_capacity (rw_ring w) = c"
    and "horizon b [] w"
proof -
  obtain rb where rb: "c \<le> u32_max div 2" "RingBuffer_new c = Some rb"
    "w = \<lparr>rw_ring = rb, recv_pos = pos_of b, unready = []\<rparr>"
    using assms by (auto simp: RecvWindow_new_def option_bind_eq_Some)
  then show "recv_inv f b [] w" "rb_count (rw_ring w) = 0" "rb_capacity (rw_ring w) = c"
    using RingBuffer_new_ok [OF rb(2)]
    by (auto simp: recv_inv_def clear_of_def stores_def received_def)
  show "horizon b [] w" by (simp add: horizon_def)
qed

subsection \<open>Runs\<close>

text \<open>
  A run of the window: segments of the stream arrive in any order, overlapping and repeated, while
  the reader takes bytes out. A segment is named by the logical position of its first byte.
\<close>

datatype recv_event = Segment int "byte list" | Read_up_to nat

fun recv_window_run :: "recv_window \<Rightarrow> recv_event list \<Rightarrow> (recv_window \<times> byte list) option" where
  "recv_window_run w [] = Some (w, [])"
| "recv_window_run w (Segment s data # evs) = do {
     (w, _) \<leftarrow> RecvWindow_recv w (pos_of s) data;
     recv_window_run w evs
   }"
| "recv_window_run w (Read_up_to n # evs) = do {
     (ring, buf, len) \<leftarrow> RecvWindowReader_read (rw_ring w) (replicate n 0);
     (w, out) \<leftarrow> recv_window_run (w\<lparr>rw_ring := ring\<rparr>) evs;
     Some (w, take len buf @ out)
   }"

text \<open>The segments are pieces of the stream \<open>f\<close> between the logical positions \<open>b\<close> and \<open>u\<close>.\<close>

fun segment_of :: "(int \<Rightarrow> byte) \<Rightarrow> int \<Rightarrow> int \<Rightarrow> recv_event \<Rightarrow> bool" where
  "segment_of f b u (Segment s data) \<longleftrightarrow>
     b \<le> s \<and> s + int (length data) \<le> u \<and> data = map (\<lambda>i. f (s + int i)) [0..<length data]"
| "segment_of f b u (Read_up_to n) \<longleftrightarrow> True"

definition confined :: "int \<Rightarrow> int \<Rightarrow> int \<Rightarrow> range list \<Rightarrow> bool" where
  "confined b u P rs \<longleftrightarrow> b \<le> P \<and> P \<le> u \<and> (\<forall>r\<in>set rs. b \<le> fst r \<and> snd r \<le> u)"

lemma confined_horizon:
  "confined b u P rs \<Longrightarrow> u + int (rb_capacity (rw_ring w)) < b + half_span \<Longrightarrow> horizon P rs w"
  by (force simp: confined_def horizon_def)

lemma confined_extend:
  assumes "separated rs" and "confined b u P rs" and "extend_ready e rs = (rs', P')" and "P \<le> e" and "e \<le> u"
  shows "confined b u P' rs'"
  using extend_ready_spec [OF assms(1,3)] assms(2,4,5) by (fastforce simp: confined_def)

lemma confined_merge:
  assumes "confined b u P rs" and "b \<le> s" and "e \<le> u"
  shows "confined b u P (merge_range s e rs)"
  using assms merge_range_lower [of "b - 1" s rs _ e] merge_range_upper [of e u rs _ s]
  by (auto simp: confined_def) fastforce+

lemma recv_step_confined:
  assumes inv: "recv_inv f P rs w" and wi: "confined b u P rs"
    and cap: "u + int (rb_capacity (rw_ring w)) < b + half_span"
    and seg: "segment_of f b u (Segment s data)"
  shows "\<exists>w' r P' rs'. RecvWindow_recv w (pos_of s) data = Some (w', r) \<and> recv_inv f P' rs' w' \<and>
     confined b u P' rs' \<and> rb_capacity (rw_ring w') = rb_capacity (rw_ring w) \<and>
     P' - int (rb_count (rw_ring w')) = P - int (rb_count (rw_ring w)) \<and>
     received P rs \<subseteq> received P' rs' \<and>
     (\<forall>e. r = Some e \<longrightarrow> (\<exists>m. e = pos_of (s + int m) \<and> 0 < m \<and> m \<le> length data \<and>
        {s..<s + int m} \<subseteq> received P' rs'))"
proof -
  have d: "b \<le> s" "s + int (length data) \<le> u" "data = map (\<lambda>i. f (s + int i)) [0..<length data]"
    using seg by auto
  have P: "b \<le> P" "P \<le> u" using wi by (auto simp: confined_def)
  have data: "data ! i = f (s + int i)" if "i < length data" for i
    using that arg_cong [OF d(3), of "\<lambda>x. x ! i"] by simp
  have free: "0 \<le> rw_free w" "rw_free w \<le> int (rb_capacity (rw_ring w))"
    using window_end_pos_of(3) [OF inv] by auto
  have len: "length data \<le> u32_max div 2" using d P cap by (simp add: u32_max_def)
  have s: "P + rw_free w - half_span \<le> s" "s < P + rw_free w + half_span"
    using d P cap free by linarith+
  note step = recv_step [OF inv confined_horizon [OF wi cap] len s data]
  let ?e = "accept_end w P s (length data)"
  have sep: "separated rs" using inv by (simp add: recv_inv_def)
  from step obtain w' r P' rs' where w': "RecvWindow_recv w (pos_of s) data = Some (w', r)"
    "recv_inv f P' rs' w'" "rb_capacity (rw_ring w') = rb_capacity (rw_ring w)"
    "P' - int (rb_count (rw_ring w')) = P - int (rb_count (rw_ring w))"
    and ch: "(P', rs') = (P, rs) \<or> P < ?e \<and> (rs', P') = extend_ready ?e rs \<or>
      (P', rs') = (P, merge_range s ?e rs)"
    and rcv: "received P rs \<subseteq> received P' rs'"
      "r = None \<or> r = Some (pos_of ?e) \<and> s < ?e \<and> {s..<?e} \<subseteq> received P' rs'"
    by (auto split: if_splits)
  have e: "?e \<le> u" "?e \<le> s + int (length data)" using d by (simp_all add: accept_end_def)
  have acked: "\<exists>m. x = pos_of (s + int m) \<and> 0 < m \<and> m \<le> length data \<and> {s..<s + int m} \<subseteq> received P' rs'"
    if "r = Some x" for x
    using rcv(2) that e(2) by (intro exI [of _ "nat (?e - s)"]) auto
  from ch have "confined b u P' rs'"
  proof (elim disjE conjE)
    assume "P < ?e" "(rs', P') = extend_ready ?e rs"
    then show ?thesis using confined_extend [OF sep wi _ _ e(1)] by simp
  qed (use wi confined_merge [OF wi d(1) e(1)] in auto)
  with w' rcv(1) acked show ?thesis by blast
qed

lemma recv_window_run_prefix:
  assumes "recv_inv f P rs w" and "confined b u P rs"
    and "u + int (rb_capacity (rw_ring w)) < b + half_span"
    and "\<forall>ev\<in>set evs. segment_of f b u ev"
  shows "\<exists>w' out. recv_window_run w evs = Some (w', out) \<and>
     out = map (\<lambda>i. f (P - int (rb_count (rw_ring w)) + int i)) [0..<length out]"
  using assms
proof (induction evs arbitrary: w P rs)
  case Nil
  then show ?case by simp
next
  case (Cons ev evs)
  show ?case
  proof (cases ev)
    case (Segment s data)
    then obtain w' r P' rs' where w': "RecvWindow_recv w (pos_of s) data = Some (w', r)"
      "recv_inv f P' rs' w'" "confined b u P' rs'" "rb_capacity (rw_ring w') = rb_capacity (rw_ring w)"
      "P' - int (rb_count (rw_ring w')) = P - int (rb_count (rw_ring w))"
      using recv_step_confined [OF Cons.prems(1-3)] Cons.prems(4) by force
    with Cons.IH [OF w'(2,3)] Cons.prems(3,4) Segment show ?thesis by auto
  next
    case (Read_up_to n)
    let ?m = "min n (rb_count (rw_ring w))" and ?B = "P - int (rb_count (rw_ring w))"
    obtain rb where rb: "RecvWindowReader_read (rw_ring w) (replicate n 0) =
        Some (rb, map (\<lambda>i. f (?B + int i)) [0..<?m] @ drop ?m (replicate n 0), ?m)"
      "recv_inv f P rs (w\<lparr>rw_ring := rb\<rparr>)" "rb_capacity rb = rb_capacity (rw_ring w)"
      "P - int (rb_count rb) = ?B + int ?m"
      using reader_step [OF Cons.prems(1), of "replicate n 0"] by auto
    obtain w' out where out: "recv_window_run (w\<lparr>rw_ring := rb\<rparr>) evs = Some (w', out)"
      "out = map (\<lambda>i. f (?B + int ?m + int i)) [0..<length out]"
      using Cons.IH [OF rb(2) Cons.prems(2)] Cons.prems(3,4) rb(3,4) by auto
    have "recv_window_run w (ev # evs) = Some (w', map (\<lambda>i. f (?B + int i)) [0..<?m] @ out)"
      using rb(1) out(1) Read_up_to by simp
    moreover define k where "k = length out"
    have "out = map (\<lambda>i. f (?B + int (?m + i))) [0..<k]"
      using out(2) [folded k_def] by (simp add: add.assoc)
    then have "map (\<lambda>i. f (?B + int i)) [0..<?m] @ out = map (\<lambda>i. f (?B + int i)) [0..<?m + k]"
      by (simp only: map_upt_append [of "\<lambda>i. f (?B + int i)"])
    ultimately show ?thesis by (simp add: k_def)
  qed
qed

end
