(* ===== verification/Window_Properties.thy ===== *)
theory Window_Properties
  imports Send_Window Recv_Window_Spec "HOL-Library.Code_Target_Numeral"
begin

text \<open>
  Properties of stream positions, of the ring buffer and of the two windows, each with a witness at a
  concrete input where it has hypotheses.
\<close>

subsection \<open>Stream positions\<close>

text \<open>
  C28: \<open>stream_cmp\<close> and the four comparisons built on it agree with the order of unbounded positions,
  for positions less than half the span apart, across the wrap-around.
\<close>

theorem stream_order_refines:
  assumes "\<bar>p - q\<bar> < half_span"
  shows "stream_cmp (pos_of p) (pos_of q) = Some (ord_cmp p q) \<and>
     (stream_lt (pos_of p) (pos_of q) \<longleftrightarrow> p < q) \<and> (stream_le (pos_of p) (pos_of q) \<longleftrightarrow> p \<le> q) \<and>
     (stream_gt (pos_of p) (pos_of q) \<longleftrightarrow> q < p) \<and> (stream_ge (pos_of p) (pos_of q) \<longleftrightarrow> q \<le> p)"
  using assms stream_cmp_pos_of stream_lt_pos_of stream_le_pos_of stream_gt_pos_of stream_ge_pos_of by simp

theorem stream_order_refines_witness:
  "stream_cmp (pos_of (2 ^ 32 + 5)) (pos_of (2 ^ 32 - 3)) = Some Greater \<and>
   stream_lt (pos_of (2 ^ 32 - 3)) (pos_of (2 ^ 32 + 5))"
  using stream_order_refines [of "2 ^ 32 + 5" "2 ^ 32 - 3"] stream_order_refines [of "2 ^ 32 - 3" "2 ^ 32 + 5"]
  by (simp add: ord_cmp_def)

text \<open>
  On any two words, \<open>stream_cmp\<close> is undefined exactly for positions half the span apart, equal
  exactly for equal positions, and antisymmetric.
\<close>

theorem stream_cmp_antisym:
  "(stream_cmp a b = None \<longleftrightarrow> a - b = 2147483648) \<and> (stream_cmp a b = Some Equal \<longleftrightarrow> a = b) \<and>
   (stream_lt a b \<longleftrightarrow> stream_gt b a) \<and> (stream_le a b \<longleftrightarrow> stream_ge b a) \<and> \<not> (stream_lt a b \<and> stream_lt b a)"
proof -
  obtain q where q: "pos_of q = b" using logical_pos [of b 0] by blast
  obtain p where p: "pos_of p = a" "q - half_span \<le> p" "p < q + half_span" by (rule logical_pos)
  have ab: "a - b = pos_of (p - q)" using p(1) q pos_of_diff by metis
  show ?thesis
  proof (cases "p = q - half_span")
    case True
    have "a - b = 2147483648" using ab True by (simp add: pos_of_def)
    moreover have "stream_cmp a b = None" using stream_cmp_opposite [of q] p(1) q True by simp
    moreover have "stream_cmp b a = None"
    proof -
      have "b - a = - (a - b)" by simp
      then have "b - a = 2147483648" using calculation(1) by simp
      with calculation(1) show ?thesis by (auto simp: stream_cmp_def ord_cmp_def)
    qed
    ultimately show ?thesis by (auto simp: stream_lt_def stream_le_def stream_gt_def stream_ge_def)
  next
    case False
    then have d: "\<bar>p - q\<bar> < half_span" using p(2,3) by linarith
    have "a - b \<noteq> 2147483648"
    proof
      assume "a - b = 2147483648"
      then have "pos_of (p - q) = pos_of half_span" using ab by (simp add: pos_of_def)
      then show False using d by (subst (asm) pos_of_eq_iff) auto
    qed
    moreover have "a = b \<longleftrightarrow> p = q" using p(1) q d pos_of_eq_iff [of p q] by auto
    ultimately show ?thesis
      using d p(1) q stream_cmp_pos_of [of p q] stream_lt_pos_of stream_gt_pos_of stream_le_pos_of
        stream_ge_pos_of abs_minus_commute [of p q] by (auto simp: ord_cmp_def)
  qed
qed

subsection \<open>The ring buffer\<close>

text \<open>
  A write at any offset beyond the readable bytes never panics, stores as many bytes as there is
  room for, keeps every other cell, and publishes nothing until the writer advances; a later advance
  makes exactly those cells readable.
\<close>

theorem ring_write_then_advance:
  fixes data :: "byte list" and off :: nat
  assumes "rb_ok rb" and "n = min (length data) (rb_capacity rb - rb_count rb - off)"
    and "k \<le> rb_capacity rb - rb_count rb"
  shows "\<exists>rb1 rb2. Writer_write rb off data = Some (rb1, n) \<and> rb_count rb1 = rb_count rb \<and>
     take (rb_count rb1) (rb_view rb1) = take (rb_count rb) (rb_view rb) \<and>
     Writer_advance rb1 k = Some (rb2, k) \<and> rb_ok rb2 \<and> rb_count rb2 = rb_count rb + k \<and>
     rb_view rb2 = take (rb_count rb + off) (rb_view rb) @ map Some (take n data) @
       drop (rb_count rb + off + n) (rb_view rb)"
proof -
  obtain rb1 where rb1: "Writer_write rb off data = Some (rb1, n)" "rb_ok rb1"
    "rb_capacity rb1 = rb_capacity rb" "rb_count rb1 = rb_count rb"
    "rb_view rb1 = write_over (rb_view rb) (rb_count rb + off) (map Some (take n data))"
    using Writer_write_spec [OF assms(1), where off = off and data = data] assms(2) by blast
  have "min k (rb_capacity rb1 - rb_count rb1) = k" using assms(3) rb1(3,4) by simp
  then obtain rb2 where rb2: "Writer_advance rb1 k = Some (rb2, k)" "rb_ok rb2"
    "rb_count rb2 = rb_count rb1 + k" "rb_view rb2 = rb_view rb1"
    using Writer_advance_spec [OF rb1(2), of k] by auto
  have "length (map Some (take n data)) = n" using assms(2) by simp
  then have view: "rb_view rb1 = take (rb_count rb + off) (rb_view rb) @ map Some (take n data) @
       drop (rb_count rb + off + n) (rb_view rb)"
    using rb1(5) by (simp add: write_over_def)
  have "length (rb_view rb) = rb_capacity rb" using ring.length_view [OF assms(1)] .
  then have "take (rb_count rb1) (rb_view rb1) = take (rb_count rb) (rb_view rb)"
    using view rb1(4) rb_okD(6) [OF assms(1)] by (simp add: min_absorb1)
  with rb1 rb2 view show ?thesis by auto
qed

theorem ring_write_then_advance_witness:
  "\<exists>rb rb1 rb2. RingBuffer_new 4 = Some rb \<and> Writer_write rb 1 [7, 8, 9, 10] = Some (rb1, 3) \<and>
     Writer_advance rb1 2 = Some (rb2, 2) \<and> rb_view rb2 = [None, Some 7, Some 8, Some 9]"
proof -
  obtain rb where rb: "RingBuffer_new 4 = Some rb"
    using RingBuffer_new_returns [of 4] by (auto simp: isize_max_def)
  note ok = RingBuffer_new_ok [OF rb]
  have "rb_view rb = replicate 4 None" using rb by (auto simp: RingBuffer_new_def rb_view_def option_bind_eq_Some)
  with ring_write_then_advance [OF ok(1), of 3 "[7, 8, 9, 10]" 1 2] ok(2,3) rb
  show ?thesis by (auto simp: eval_nat_numeral)
qed

text \<open>
  C26: writing at the front of the free space and advancing is a push at the end of a bounded byte
  queue, and reading and advancing is a pop from its front; neither panics, and the two counters are
  the length of the queue and the free space.
\<close>

theorem ring_is_bounded_queue:
  fixes data buf :: "byte list"
  assumes "rb_ok rb" and "take (rb_count rb) (rb_view rb) = map Some xs"
  shows "RingBuffer_read_available rb = Some (length xs) \<and>
     RingBuffer_write_available rb = Some (rb_capacity rb - length xs) \<and>
     (\<exists>rb1 rb2. let n = min (length data) (rb_capacity rb - length xs) in
        Writer_write rb 0 data = Some (rb1, n) \<and> Writer_advance rb1 n = Some (rb2, n) \<and> rb_ok rb2 \<and>
        rb_capacity rb2 = rb_capacity rb \<and>
        take (rb_count rb2) (rb_view rb2) = map Some (xs @ take n data)) \<and>
     (\<exists>rb'. let n = min (length buf) (length xs) in
        Reader_read rb 0 buf = Some (take n xs @ drop n buf, n) \<and> Reader_advance rb n = Some (rb', n) \<and>
        rb_ok rb' \<and> rb_capacity rb' = rb_capacity rb \<and>
        take (rb_count rb') (rb_view rb') = map Some (drop n xs))"
proof -
  have len: "length xs = rb_count rb" using ring.length_content [OF assms] .
  show ?thesis
    using ring.push [OF assms, of _ data] ring.pop [OF assms, of _ buf]
      read_available_count [OF assms(1)] write_available_free [OF assms(1)]
    unfolding len Let_def by fast
qed

theorem ring_is_bounded_queue_witness:
  "\<exists>rb rb1 rb2. RingBuffer_new 2 = Some rb \<and> RingBuffer_write_available rb = Some 2 \<and>
     Writer_write rb 0 [7, 8, 9] = Some (rb1, 2) \<and> Writer_advance rb1 2 = Some (rb2, 2) \<and>
     take (rb_count rb2) (rb_view rb2) = [Some 7, Some 8]"
proof -
  obtain rb where rb: "RingBuffer_new 2 = Some rb"
    using RingBuffer_new_returns [of 2] by (auto simp: isize_max_def)
  note ok = RingBuffer_new_ok [OF rb]
  have "take (rb_count rb) (rb_view rb) = map Some []" using ok(2) by simp
  from ring_is_bounded_queue [OF ok(1) this, of "[7, 8, 9]" "[]"] ok(3) rb show ?thesis
    by (auto simp: Let_def eval_nat_numeral)
qed

subsection \<open>The receive window\<close>

text \<open>
  C13: \<open>RecvWindow::recv\<close> implements a set of received positions. A block of the stream that starts
  before the end of the window adds exactly the positions it covers below that end; the returned
  bound is the end of the accepted part; the ready block then ends at the first position that is
  missing. Otherwise nothing changes and \<open>None\<close> is returned.
\<close>

theorem recv_refines_received_set:
  fixes data :: "byte list"
  assumes "recv_inv f P rs w" and "horizon P rs w" and "length data \<le> u32_max div 2"
    and "P + rw_free w - half_span \<le> s" and "s < P + rw_free w + half_span"
    and "\<And>i. i < length data \<Longrightarrow> data ! i = f (s + int i)"
    and "e = min (s + int (length data)) (P + rw_free w)"
  shows "if P + rw_free w - half_span < s \<and> s < e
     then \<exists>w' P' rs'. RecvWindow_recv w (pos_of s) data = Some (w', Some (pos_of e)) \<and>
       recv_inv f P' rs' w' \<and> received P' rs' = received P rs \<union> {s..<e} \<and>
       {..<P'} \<subseteq> received P' rs' \<and> P' \<notin> received P' rs' \<and>
       P' - int (rb_count (rw_ring w')) = P - int (rb_count (rw_ring w))
     else RecvWindow_recv w (pos_of s) data = Some (w, None)"
proof -
  have e: "accept_end w P s (length data) = e" using assms(7) by (simp add: accept_end_def)
  obtain w' r P' rs' where st: "RecvWindow_recv w (pos_of s) data = Some (w', r)" "recv_inv f P' rs' w'"
    "P' - int (rb_count (rw_ring w')) = P - int (rb_count (rw_ring w))"
    "if P + rw_free w - half_span < s \<and> s < e
     then r = Some (pos_of e) \<and> received P' rs' = received P rs \<union> {s..<e}
     else r = None \<and> w' = w"
    using recv_step [OF assms(1-6)] unfolding e by (auto split: if_splits)
  have "P' \<notin> received P' rs'" using st(2) clear_of_not_received by (simp add: recv_inv_def)
  moreover have "{..<P'} \<subseteq> received P' rs'" by (simp add: received_def)
  ultimately show ?thesis
  proof (cases "P + rw_free w - half_span < s \<and> s < e")
    case True
    with st have "RecvWindow_recv w (pos_of s) data = Some (w', Some (pos_of e))"
      "received P' rs' = received P rs \<union> {s..<e}" by simp_all
    with True st(2,3) \<open>P' \<notin> received P' rs'\<close> \<open>{..<P'} \<subseteq> received P' rs'\<close> show ?thesis
      unfolding if_P [OF True] by blast
  qed (use st in simp)
qed

theorem recv_refines_received_set_witness:
  "\<exists>w w' P' rs'. RecvWindow_new 8 (pos_of 0) = Some w \<and>
     RecvWindow_recv w (pos_of 6) [7, 7, 7] = Some (w', Some (pos_of 8)) \<and>
     recv_inv (\<lambda>_. 7) P' rs' w' \<and> received P' rs' = received 0 [] \<union> {6..<8}"
proof -
  obtain w where w: "RecvWindow_new 8 (pos_of 0) = Some w"
    by (auto simp: RecvWindow_new_def RingBuffer_new_def u32_max_def isize_max_def)
  note n = recv_inv_new [OF w]
  have free: "rw_free w = 8" using n(2,3) by simp
  have byte: "[7, 7, 7 :: byte] ! i = 7" if "i < length [7, 7, 7 :: byte]" for i
    using that by (auto simp: nth_Cons split: nat.splits)
  from recv_refines_received_set [OF n(1) [of "\<lambda>_. 7"] n(4), of "[7, 7, 7]" 6 8] w byte
  show ?thesis unfolding free by (auto simp: u32_max_def)
qed



text \<open>
  A block that extends the ready block over an unready region and ends in a gap before a later
  region leaves the swallowed region in the list, behind \<open>recv_pos\<close>, although the list is meant to hold
  only regions that do not connect with the ready data.
\<close>

theorem recv_leaves_swallowed_region:
  "do {
     w \<leftarrow> RecvWindow_new 12 0;
     (w, _) \<leftarrow> RecvWindow_recv w 5 [5];
     (w, _) \<leftarrow> RecvWindow_recv w 10 [10];
     (w, _) \<leftarrow> RecvWindow_recv w 0 [0, 1, 2, 3, 4, 5, 6, 7];
     Some (recv_pos w, unready w)
   } = Some (8, [(5, 6), (10, 11)])"
  by code_simp

subsection \<open>The send window\<close>

text \<open>A window with three bytes written and none sent, for the witnesses.\<close>

lemma window_with_three_bytes:
  "\<exists>w0 rb. SendWindow_new 7 (pos_of 4294967295) = Some w0 \<and>
     SendWindowWriter_write (sw_ring w0) [9, 9, 9] = Some (rb, 3) \<and>
     send_inv (\<lambda>_. 9) 4294967295 [] (w0\<lparr>sw_ring := rb\<rparr>) \<and> rb_count rb = 3 \<and> sent w0 = 0"
proof -
  obtain w0 where w0: "SendWindow_new 7 (pos_of 4294967295) = Some w0"
    by (auto simp: SendWindow_new_def RingBuffer_new_def u32_max_def isize_max_def)
  note i = send_inv_new(1) [OF w0, of "\<lambda>_. 9"] send_inv_new(2,3) [OF w0]
  have st: "sent w0 = 0" using send_invD(7) [OF i(1)] by simp
  have "take (min (length [9, 9, 9 :: byte]) (rb_capacity (sw_ring w0) - rb_count (sw_ring w0))) [9, 9, 9] =
      stream_bytes (\<lambda>_. 9) (4294967295 + int (rb_count (sw_ring w0)))
        (min (length [9, 9, 9 :: byte]) (rb_capacity (sw_ring w0) - rb_count (sw_ring w0)))"
    using i(2,3) by (simp add: stream_bytes_def eval_nat_numeral)
  from send_window_write [OF i(1) this] i(2,3) w0 st show ?thesis by auto
qed



text \<open>
  C15: \<open>ack_range\<close> accepts exactly the acknowledgements that start where an unacknowledged range starts
  and end inside it or at its end. It then removes exactly the acknowledged positions, reports a full
  or a partial acknowledgement accordingly, and frees the buffer up to the first position that is
  still unacknowledged; anything else it reports as not found and leaves the window as it was.
\<close>

theorem ack_range_refines_set:
  assumes "send_inv f U rs w"
  shows "if \<exists>i t. acks rs i t start end_pos
     then \<exists>i t w' rs' U'. acks rs i t start end_pos \<and>
       SendWindow_ack_range w start end_pos =
         Some (w', if t = snd (rs ! i) then Ack else PartialAck (pos_of (snd (rs ! i)))) \<and>
       send_inv f U' rs' w' \<and> range_set rs' = range_set rs - {fst (rs ! i)..<t} \<and>
       freed_to U w U' w' \<and> U' = (if rs' = [] then U + int (sent w) else fst (hd rs'))
     else SendWindow_ack_range w start end_pos = Some (w, NotFound)"
proof (cases "\<exists>i t. acks rs i t start end_pos")
  case True
  then obtain i t where a: "acks rs i t start end_pos" by blast
  have b: "i < length rs" "fst (rs ! i) < t" "t \<le> snd (rs ! i)" using a by (auto simp: acks_def)
  note o = send_invD(6) [OF assms]
  have front: "U' = (if rs' = [] then U + int (sent w) else fst (hd rs'))"
    if "send_inv f U' rs' w'" "freed_to U w U' w'" for U' rs' w'
    using send_invD(7,8) [OF that(1)] that(2) by (auto simp: freed_to_def)
  have "\<exists>w' rs' U'. SendWindow_ack_range w start end_pos =
         Some (w', if t = snd (rs ! i) then Ack else PartialAck (pos_of (snd (rs ! i)))) \<and>
       send_inv f U' rs' w' \<and> range_set rs' = range_set rs - {fst (rs ! i)..<t} \<and> freed_to U w U' w'"
  proof (cases "t = snd (rs ! i)")
    case True
    then obtain w' U' where "SendWindow_ack_range w start end_pos = Some (w', Ack)"
      "send_inv f U' (take i rs @ drop (Suc i) rs) w'" "freed_to U w U' w'"
      using ack_full [OF assms, of i start end_pos] a by blast
    with True ordered_remove(2) [OF o b(1)] show ?thesis
      by (intro exI [of _ w'] exI [of _ "take i rs @ drop (Suc i) rs"] exI [of _ U']) simp
  next
    case False
    then have t: "t < snd (rs ! i)" using b by simp
    from ack_partial [OF assms a t] obtain w' U' where
      "SendWindow_ack_range w start end_pos = Some (w', PartialAck (pos_of (snd (rs ! i))))"
      "send_inv f U' (rs[i := (t, snd (rs ! i))]) w'" "freed_to U w U' w'" by blast
    with False ordered_shorten(2) [OF o b(1,2) t] show ?thesis
      by (intro exI [of _ w'] exI [of _ "rs[i := (t, snd (rs ! i))]"] exI [of _ U']) simp
  qed
  then obtain w' rs' U' where "SendWindow_ack_range w start end_pos =
         Some (w', if t = snd (rs ! i) then Ack else PartialAck (pos_of (snd (rs ! i))))"
    "send_inv f U' rs' w'" "range_set rs' = range_set rs - {fst (rs ! i)..<t}" "freed_to U w U' w'" by blast
  moreover from this front have "U' = (if rs' = [] then U + int (sent w) else fst (hd rs'))" by blast
  ultimately show ?thesis unfolding if_P [OF True] using a by blast
next
  case False
  then show ?thesis using ack_not_found [OF assms] by auto
qed

theorem ack_range_refines_set_witness:
  "\<exists>w w' U'. send_inv (\<lambda>_. 9) 4294967295 [(4294967295, 4294967298)] w \<and>
     SendWindow_ack_range w (pos_of 4294967295) (pos_of 4294967297) = Some (w', PartialAck (pos_of 4294967298)) \<and>
     freed_to 4294967295 w U' w'"
proof -
  obtain w0 rb where w0: "send_inv (\<lambda>_. 9) 4294967295 [] (w0\<lparr>sw_ring := rb\<rparr>)" "rb_count rb = 3" "sent w0 = 0"
    using window_with_three_bytes by blast
  obtain w where w: "send_inv (\<lambda>_. 9) 4294967295 [(4294967295, 4294967298)] w"
    using send_some [OF w0(1), of "[0, 0, 0]"] w0(2,3) by auto
  have uniq: "acks [(4294967295, 4294967298)] i t (pos_of 4294967295) (pos_of 4294967297) \<longleftrightarrow> i = 0 \<and> t = 4294967297" for i t
    by (auto simp: acks_def pos_of_eq_iff)
  from ack_range_refines_set [OF w, of "pos_of 4294967295" "pos_of 4294967297"] w show ?thesis
    unfolding uniq by auto
qed

text \<open>
  C27: \<open>send\<close> hands out the next bytes of the stream, as many as fit, under their stream range, records
  that range as unacknowledged, and \<open>get_unacked\<close> reads back the bytes of any part of it.
\<close>

theorem send_then_get_unacked:
  fixes buf out :: "byte list"
  assumes "send_inv f U rs w" and "n = min (length buf) (rb_count (sw_ring w) - sent w)" and "0 < n"
    and "a = U + int (sent w)" and "a \<le> c" and "c + int (length out) \<le> a + int n"
  shows "\<exists>w'. SendWindow_send w buf =
       Some (w', stream_bytes f a n @ drop n buf, Some (pos_of a, pos_of (a + int n))) \<and>
     send_inv f U (rs @ [(a, a + int n)]) w' \<and>
     SendWindow_get_unacked w' (pos_of c) out = Some (stream_bytes f c (length out))"
proof -
  obtain w' where w': "SendWindow_send w buf =
       Some (w', stream_bytes f a n @ drop n buf, Some (pos_of a, pos_of (a + int n)))"
     "send_inv f U (rs @ [(a, a + int n)]) w'" "sw_ring w' = sw_ring w"
    using send_some [OF assms(1), of buf] assms(2-4) by auto
  have "U \<le> c" "c + int (length out) \<le> U + int (rb_count (sw_ring w'))"
    using assms w'(3) send_invD(3) [OF assms(1)] by auto
  from get_unacked_bytes [OF w'(2) this] w'(1,2) show ?thesis by blast
qed

theorem send_then_get_unacked_witness:
  "\<exists>w0 rb w. SendWindow_new 7 (pos_of 4294967295) = Some w0 \<and>
     SendWindowWriter_write (sw_ring w0) [9, 9, 9] = Some (rb, 3) \<and>
     SendWindow_send (w0\<lparr>sw_ring := rb\<rparr>) [0, 0, 0, 0] =
       Some (w, [9, 9, 9, 0], Some (pos_of 4294967295, pos_of 4294967298)) \<and>
     SendWindow_get_unacked w (pos_of 4294967296) [0, 0] = Some [9, 9]"
proof -
  obtain w0 rb where rb: "SendWindow_new 7 (pos_of 4294967295) = Some w0"
    "SendWindowWriter_write (sw_ring w0) [9, 9, 9] = Some (rb, 3)"
    "send_inv (\<lambda>_. 9) 4294967295 [] (w0\<lparr>sw_ring := rb\<rparr>)" "rb_count rb = 3" "sent w0 = 0"
    using window_with_three_bytes by blast
  from send_then_get_unacked [OF rb(3), of 3 "[0, 0, 0, 0]" 4294967295 4294967296 "[0, 0]"] rb
  show ?thesis by (auto simp: stream_bytes_def eval_nat_numeral)
qed

end
