(* ===== verification/Packet.thy ===== *)
theory Packet
  imports Turbulence_Prelude
begin

text \<open>
  Packets and packet pools (\<open>packet.rs\<close>, \<open>buffer.rs\<close>).

  \<open>Packet\<close> is a trait: a byte slice with \<open>resize\<close> and three provided methods on top of it. The locale
  \<open>packet_trait\<close> is that contract (what \<open>resize\<close> does to the bytes, and that it panics beyond the
  capacity), and holds what the provided methods then do. \<open>BufferPacket\<close>, the implementation of the
  crate over a fixed buffer, is an interpretation. The channels see a packet as its bytes, together
  with the capacity of the pool it came from: \<open>packet_resize\<close> and the methods derived from it.
\<close>

definition MAX_PACKET_LEN :: nat where
  "MAX_PACKET_LEN = 32768"

subsection \<open>The provided methods of the trait\<close>

text \<open>Each takes the operations of the implementation: \<open>bytes\<close> (deref), \<open>store\<close> (deref_mut) and \<open>resize\<close>.\<close>

definition Packet_extend ::
  "('p \<Rightarrow> byte list) \<Rightarrow> ('p \<Rightarrow> byte list \<Rightarrow> 'p) \<Rightarrow> ('p \<Rightarrow> nat \<Rightarrow> byte \<Rightarrow> 'p option) \<Rightarrow>
   'p \<Rightarrow> byte list \<Rightarrow> 'p option" where
  "Packet_extend bytes store resize p other = do {
     let cur_len = length (bytes p);
     new_len \<leftarrow> usize_add cur_len (length other);
     p \<leftarrow> resize p new_len 0;
     _ \<leftarrow> slice (bytes p) cur_len new_len;
     xs \<leftarrow> copy_at (bytes p) cur_len other;
     Some (store p xs)
   }"

definition Packet_truncate ::
  "('p \<Rightarrow> byte list) \<Rightarrow> ('p \<Rightarrow> nat \<Rightarrow> byte \<Rightarrow> 'p option) \<Rightarrow> 'p \<Rightarrow> nat \<Rightarrow> 'p option" where
  "Packet_truncate bytes resize p len = resize p (min len (length (bytes p))) 0"

definition Packet_clear :: "('p \<Rightarrow> nat \<Rightarrow> byte \<Rightarrow> 'p option) \<Rightarrow> 'p \<Rightarrow> 'p option" where
  "Packet_clear resize p = resize p 0 0"

locale packet_trait =
  fixes ok :: "'p \<Rightarrow> bool"
    and cap :: "'p \<Rightarrow> nat"
    and bytes :: "'p \<Rightarrow> byte list"
    and store :: "'p \<Rightarrow> byte list \<Rightarrow> 'p"
    and resize :: "'p \<Rightarrow> nat \<Rightarrow> byte \<Rightarrow> 'p option"
  assumes bytes_fit: "ok p \<Longrightarrow> length (bytes p) \<le> cap p \<and> cap p \<le> usize_max"
    and store_law: "ok p \<Longrightarrow> length xs = length (bytes p) \<Longrightarrow>
      ok (store p xs) \<and> cap (store p xs) = cap p \<and> bytes (store p xs) = xs"
    and resize_law: "ok p \<Longrightarrow> n \<le> cap p \<Longrightarrow>
      \<exists>p'. resize p n v = Some p' \<and> ok p' \<and> cap p' = cap p \<and> bytes p' = vec_resize (bytes p) n v"
    and resize_panics: "ok p \<Longrightarrow> cap p < n \<Longrightarrow> resize p n v = None"
begin

lemma extend_appends:
  assumes "ok p" and fit: "length (bytes p) + length other \<le> cap p"
  shows "\<exists>p'. Packet_extend bytes store resize p other = Some p' \<and> ok p' \<and> cap p' = cap p \<and>
     bytes p' = bytes p @ other"
proof -
  let ?n = "length (bytes p) + length other"
  obtain p1 where p1: "resize p ?n 0 = Some p1" "ok p1" "cap p1 = cap p"
    "bytes p1 = bytes p @ replicate (length other) 0"
    using resize_law [OF assms, of 0] by (auto simp: vec_resize_append)
  have "copy_at (bytes p1) (length (bytes p)) other = Some (bytes p @ other)"
    using p1(4) by (simp add: copy_at_def)
  moreover have "usize_add (length (bytes p)) (length other) = Some ?n"
    using fit bytes_fit [OF assms(1)] by (intro usize_add_ok) simp
  ultimately have "Packet_extend bytes store resize p other = Some (store p1 (bytes p @ other))"
    using p1(1,4) by (simp add: Packet_extend_def slice_def)
  with store_law [OF p1(2), of "bytes p @ other"] p1 show ?thesis by simp
qed

lemma extend_panics:
  assumes "ok p" and "cap p < length (bytes p) + length other"
  shows "Packet_extend bytes store resize p other = None"
  using resize_panics [OF assms, of 0] by (simp add: Packet_extend_def usize_add_def Let_def)

lemma truncate_takes:
  assumes "ok p"
  shows "\<exists>p'. Packet_truncate bytes resize p n = Some p' \<and> ok p' \<and> cap p' = cap p \<and>
     bytes p' = take n (bytes p)"
  using resize_law [OF assms, of "min n (length (bytes p))" 0] bytes_fit [OF assms]
  by (auto simp: Packet_truncate_def vec_resize_def min_def)

lemma clear_empties:
  assumes "ok p"
  shows "\<exists>p'. Packet_clear resize p = Some p' \<and> ok p' \<and> cap p' = cap p \<and> bytes p' = []"
  using resize_law [OF assms, of 0 0] by (auto simp: Packet_clear_def vec_resize_def)

end

subsection \<open>Buffer packets\<close>

record buffer_packet =
  bp_buffer :: "byte list"
  bp_len :: nat

definition BufferPacketPool_acquire :: "byte list \<Rightarrow> buffer_packet" where
  "BufferPacketPool_acquire buf = \<lparr>bp_buffer = buf, bp_len = 0\<rparr>"

fun buffer_fill :: "byte list \<Rightarrow> nat list \<Rightarrow> byte \<Rightarrow> byte list option" where
  "buffer_fill buf [] v = Some buf"
| "buffer_fill buf (i # is) v = do { buf \<leftarrow> vec_set buf i v; buffer_fill buf is v }"

definition BufferPacket_resize :: "buffer_packet \<Rightarrow> nat \<Rightarrow> byte \<Rightarrow> buffer_packet option" where
  "BufferPacket_resize p len v = do {
     assert_that (len \<le> length (bp_buffer p));
     buf \<leftarrow> buffer_fill (bp_buffer p) [bp_len p..<len] v;
     Some (p\<lparr>bp_buffer := buf, bp_len := len\<rparr>)
   }"

text \<open>\<open>deref\<close>, and a write through \<open>deref_mut\<close>, both of the first \<open>len\<close> bytes.\<close>

definition BufferPacket_deref :: "buffer_packet \<Rightarrow> byte list" where
  "BufferPacket_deref p = take (bp_len p) (bp_buffer p)"

definition BufferPacket_deref_mut :: "buffer_packet \<Rightarrow> byte list \<Rightarrow> buffer_packet" where
  "BufferPacket_deref_mut p xs = p\<lparr>bp_buffer := xs @ drop (bp_len p) (bp_buffer p)\<rparr>"

definition buffer_packet_ok :: "buffer_packet \<Rightarrow> bool" where
  "buffer_packet_ok p \<longleftrightarrow> bp_len p \<le> length (bp_buffer p) \<and> length (bp_buffer p) \<le> isize_max"

lemma buffer_fill_range:
  "n \<le> length buf \<Longrightarrow> buffer_fill buf [m..<n] v =
     Some (if m \<le> n then take m buf @ replicate (n - m) v @ drop n buf else buf)"
proof (induction "n - m" arbitrary: m buf)
  case 0
  then show ?case by (simp add: upt_conv_Nil)
next
  case (Suc k)
  then have m: "m < n" by simp
  then have "buffer_fill buf [m..<n] v = buffer_fill (buf[m := v]) [Suc m..<n] v"
    using Suc.prems by (simp add: upt_conv_Cons vec_set_ok)
  also have "\<dots> = Some (take (Suc m) (buf[m := v]) @ replicate (n - Suc m) v @ drop n (buf[m := v]))"
    using Suc.hyps(1) [of "Suc m" "buf[m := v]"] Suc.hyps(2) Suc.prems m by simp
  also have "take (Suc m) (buf[m := v]) @ replicate (n - Suc m) v @ drop n (buf[m := v]) =
      take m buf @ replicate (n - m) v @ drop n buf"
    using m Suc.prems by (simp add: take_Suc_conv_app_nth Suc_diff_Suc [symmetric])
  finally show ?case using m by simp
qed

interpretation buffer_packet: packet_trait buffer_packet_ok "\<lambda>p. length (bp_buffer p)"
  BufferPacket_deref BufferPacket_deref_mut BufferPacket_resize
proof unfold_locales
  fix p :: buffer_packet and n :: nat and v :: byte and xs :: "byte list"
  assume ok: "buffer_packet_ok p"
  show "length (BufferPacket_deref p) \<le> length (bp_buffer p) \<and> length (bp_buffer p) \<le> usize_max"
    using ok by (simp add: BufferPacket_deref_def buffer_packet_ok_def isize_max_def usize_max_def)
  show "buffer_packet_ok (BufferPacket_deref_mut p xs) \<and>
      length (bp_buffer (BufferPacket_deref_mut p xs)) = length (bp_buffer p) \<and>
      BufferPacket_deref (BufferPacket_deref_mut p xs) = xs"
    if "length xs = length (BufferPacket_deref p)"
    using ok that by (simp add: buffer_packet_ok_def BufferPacket_deref_def BufferPacket_deref_mut_def)
  show "\<exists>p'. BufferPacket_resize p n v = Some p' \<and> buffer_packet_ok p' \<and>
      length (bp_buffer p') = length (bp_buffer p) \<and>
      BufferPacket_deref p' = vec_resize (BufferPacket_deref p) n v" if "n \<le> length (bp_buffer p)"
    using ok that
    by (auto simp: BufferPacket_resize_def buffer_fill_range buffer_packet_ok_def
        BufferPacket_deref_def vec_resize_def)
  show "BufferPacket_resize p n v = None" if "length (bp_buffer p) < n"
    using that by (simp add: BufferPacket_resize_def)
qed

subsection \<open>Packets as bytes\<close>

text \<open>
  The view of the channels: a packet of a pool of capacity \<open>c\<close> is its bytes, and \<open>acquire\<close> gives an
  empty one.
\<close>

definition packet_resize :: "nat \<Rightarrow> byte list \<Rightarrow> nat \<Rightarrow> byte \<Rightarrow> byte list option" where
  "packet_resize c p len v = (if len \<le> c then Some (vec_resize p len v) else None)"

definition packet_extend :: "nat \<Rightarrow> byte list \<Rightarrow> byte list \<Rightarrow> byte list option" where
  "packet_extend c = Packet_extend (\<lambda>p. p) (\<lambda>_ xs. xs) (packet_resize c)"

definition packet_truncate :: "nat \<Rightarrow> byte list \<Rightarrow> nat \<Rightarrow> byte list option" where
  "packet_truncate c = Packet_truncate (\<lambda>p. p) (packet_resize c)"

lemma packet_resize_ok [checked_simps]: "len \<le> c \<Longrightarrow> packet_resize c p len v = Some (vec_resize p len v)"
  by (simp add: packet_resize_def)

lemma packet_extend_ok [checked_simps]:
  "length p + length other \<le> c \<Longrightarrow> c \<le> usize_max \<Longrightarrow> packet_extend c p other = Some (p @ other)"
  by (auto simp: packet_extend_def Packet_extend_def packet_resize_def checked_simps vec_resize_append)

lemma packet_extend_panics:
  "c < length p + length other \<Longrightarrow> packet_extend c p other = None"
  by (simp add: packet_extend_def Packet_extend_def packet_resize_def usize_add_def Let_def)

lemma packet_truncate_ok [checked_simps]:
  "length p \<le> c \<Longrightarrow> packet_truncate c p n = Some (take n p)"
  by (auto simp: packet_truncate_def Packet_truncate_def packet_resize_def vec_resize_def min_def)

text \<open>The operations of a buffer packet have the same effect on its bytes.\<close>

lemma buffer_packet_refines:
  assumes "buffer_packet_ok p"
  shows "map_option BufferPacket_deref (BufferPacket_resize p n v) =
       packet_resize (length (bp_buffer p)) (BufferPacket_deref p) n v"
    "map_option BufferPacket_deref
       (Packet_extend BufferPacket_deref BufferPacket_deref_mut BufferPacket_resize p xs) =
     packet_extend (length (bp_buffer p)) (BufferPacket_deref p) xs"
    "map_option BufferPacket_deref (Packet_truncate BufferPacket_deref BufferPacket_resize p n) =
     packet_truncate (length (bp_buffer p)) (BufferPacket_deref p) n"
proof -
  note fit = buffer_packet.bytes_fit [OF assms]
  show "map_option BufferPacket_deref (BufferPacket_resize p n v) =
       packet_resize (length (bp_buffer p)) (BufferPacket_deref p) n v"
    using buffer_packet.resize_law [OF assms, of n v] buffer_packet.resize_panics [OF assms, of n v]
    by (cases "n \<le> length (bp_buffer p)") (auto simp: packet_resize_def)
  show "map_option BufferPacket_deref
       (Packet_extend BufferPacket_deref BufferPacket_deref_mut BufferPacket_resize p xs) =
     packet_extend (length (bp_buffer p)) (BufferPacket_deref p) xs"
    using buffer_packet.extend_appends [OF assms, of xs] buffer_packet.extend_panics [OF assms, of xs]
      fit by (cases "length (BufferPacket_deref p) + length xs \<le> length (bp_buffer p)")
      (auto simp: packet_extend_ok packet_extend_panics)
  show "map_option BufferPacket_deref (Packet_truncate BufferPacket_deref BufferPacket_resize p n) =
     packet_truncate (length (bp_buffer p)) (BufferPacket_deref p) n"
    using buffer_packet.truncate_takes [OF assms, of n] fit by (auto simp: packet_truncate_ok)
qed

subsection \<open>Messages with their length\<close>

text \<open>The format that the message channels share: two bytes of length before each message.\<close>

definition frame :: "byte list \<Rightarrow> byte list" where
  "frame m = write_u16 (length m) @ m"

definition frames :: "byte list list \<Rightarrow> byte list" where
  "frames ms = concat (map frame ms)"

lemma length_frame [simp]: "length (frame m) = length m + 2"
  by (simp add: frame_def)

lemma frames_simps [simp]: "frames [] = []" "frames (m # ms) = frame m @ frames ms"
  "frames (ms @ ns) = frames ms @ frames ns"
  by (simp_all add: frames_def)

lemma frames_empty [simp]: "frames ms = [] \<longleftrightarrow> ms = []"
  by (cases ms) (auto simp: frame_def write_u16_def le_encode_def)

subsection \<open>Buffer packets are packets\<close>

text \<open>
  A buffer packet is a packet. Each operation of the trait, the default methods included, does to
  the bytes of a buffer packet what it does to a byte string, panics of a length over the capacity
  included, and keeps the length within the buffer.
\<close>

theorem buffer_packet_is_packet:
  assumes "buffer_packet_ok p" and "c = length (bp_buffer p)"
  shows "map_option BufferPacket_deref (BufferPacket_resize p n v) = packet_resize c (BufferPacket_deref p) n v \<and>
     map_option BufferPacket_deref
       (Packet_extend BufferPacket_deref BufferPacket_deref_mut BufferPacket_resize p xs) =
       (if length (BufferPacket_deref p) + length xs \<le> c then Some (BufferPacket_deref p @ xs) else None) \<and>
     map_option BufferPacket_deref (Packet_truncate BufferPacket_deref BufferPacket_resize p n) =
       Some (take n (BufferPacket_deref p)) \<and>
     (n \<le> c \<longleftrightarrow> (\<exists>p'. BufferPacket_resize p n v = Some p' \<and> buffer_packet_ok p'))"
proof -
  note fit = buffer_packet.bytes_fit [OF assms(1)]
  have "n \<le> c \<longleftrightarrow> (\<exists>p'. BufferPacket_resize p n v = Some p' \<and> buffer_packet_ok p')"
    using buffer_packet.resize_law [OF assms(1), of n v] buffer_packet.resize_panics [OF assms(1), of n v] assms(2)
    by (cases "n \<le> c") auto
  then show ?thesis
    using buffer_packet_refines [OF assms(1)] fit assms(2) by (auto simp: packet_extend_ok packet_extend_panics packet_truncate_ok)
qed

theorem buffer_packet_is_packet_witness:
  "map_option BufferPacket_deref
     (Packet_extend BufferPacket_deref BufferPacket_deref_mut BufferPacket_resize
       \<lparr>bp_buffer = [1, 2, 3, 4], bp_len = 1\<rparr> [7, 8]) = Some [1, 7, 8]"
  using buffer_packet_is_packet [of "\<lparr>bp_buffer = [1, 2, 3, 4], bp_len = 1\<rparr>" 4 0 0 "[7, 8]"]
  by (simp add: buffer_packet_ok_def isize_max_def BufferPacket_deref_def)

end
