(* ===== verification/Float64.thy ===== *)
theory Float64
  imports Complex_Main
begin

text \<open>
  Rust's \<open>f64\<close> arithmetic, for the finite values the crate computes with.

  A finite \<open>f64\<close> is a real number; every operation of the source rounds its exact result by
  \<open>f64_round\<close>: to the nearest multiple of the unit in the last place of a 53 bit significand, ties to
  even, with the exponent of the smallest subnormal as a floor. Infinities and NaN are not
  represented. The facts the development uses are that rounding is monotone and that it is exact on
  integers up to \<open>2 ^ 53\<close>.
\<close>

definition round_half_even :: "real \<Rightarrow> int" where
  "round_half_even x =
     (let n = \<lfloor>x\<rfloor>; d = x - of_int n
      in if d < 1 / 2 then n else if 1 / 2 < d then n + 1 else if even n then n else n + 1)"

text \<open>The exponent of the unit in the last place.\<close>

definition f64_ulp :: "real \<Rightarrow> int" where
  "f64_ulp x = max (\<lfloor>log 2 \<bar>x\<bar>\<rfloor> - 52) (- 1074)"

definition f64_round :: "real \<Rightarrow> real" where
  "f64_round x =
     (if x = 0 then 0
      else of_int (round_half_even (x / 2 powi f64_ulp x)) * 2 powi f64_ulp x)"

lemma round_half_even_of_int [simp]: "round_half_even (of_int n) = n"
  by (simp add: round_half_even_def)

lemma round_half_even_bounds: "\<lfloor>x\<rfloor> \<le> round_half_even x" "round_half_even x \<le> \<lfloor>x\<rfloor> + 1"
  by (auto simp: round_half_even_def Let_def)

lemma round_half_even_mono: "x \<le> y \<Longrightarrow> round_half_even x \<le> round_half_even y"
proof (cases "\<lfloor>x\<rfloor> = \<lfloor>y\<rfloor>")
  case False
  assume "x \<le> y"
  with False have "\<lfloor>x\<rfloor> + 1 \<le> \<lfloor>y\<rfloor>" using floor_mono [of x y] by linarith
  then show ?thesis using round_half_even_bounds [of x] round_half_even_bounds [of y] by linarith
qed (auto simp: round_half_even_def Let_def)

lemma round_half_even_between:
  "of_int m \<le> x \<Longrightarrow> x \<le> of_int n \<Longrightarrow> m \<le> round_half_even x \<and> round_half_even x \<le> n"
  using round_half_even_mono [of "of_int m" x] round_half_even_mono [of x "of_int n"] by simp

lemma round_half_even_minus: "round_half_even (- x) = - round_half_even x"
proof (cases "x = of_int \<lfloor>x\<rfloor>")
  case True
  then show ?thesis by (metis of_int_minus round_half_even_of_int)
next
  case False
  then have "\<lfloor>- x\<rfloor> = - \<lfloor>x\<rfloor> - 1" by (auto simp: floor_eq_iff) linarith+
  then show ?thesis by (auto simp: round_half_even_def Let_def)
qed

lemma f64_round_0 [simp]: "f64_round 0 = 0"
  by (simp add: f64_round_def)

lemma f64_round_minus: "f64_round (- x) = - f64_round x"
  by (simp add: f64_round_def f64_ulp_def round_half_even_minus)

lemma f64_ulp_mono: "0 < x \<Longrightarrow> x \<le> y \<Longrightarrow> f64_ulp x \<le> f64_ulp y"
  unfolding f64_ulp_def by (intro max.mono diff_mono floor_mono) auto

text \<open>Rounding stays within the binade.\<close>

lemma powi_ulp:
  assumes "0 < x" and "f64_ulp x = u"
  shows "x < 2 powi (u + 53)" and "u \<noteq> - 1074 \<Longrightarrow> 2 powi (u + 52) \<le> x"
proof -
  let ?e = "\<lfloor>log 2 x\<rfloor>"
  have l: "2 powr of_int ?e \<le> x" "x < 2 powr of_int (?e + 1)"
    using assms(1) by (simp_all add: powr_le_iff less_powr_iff)
  have u: "u = max (?e - 52) (- 1074)" using assms by (simp add: f64_ulp_def)
  have "(2 :: real) powr of_int (?e + 1) \<le> 2 powr of_int (u + 53)" using u by (intro powr_mono) auto
  then have "x < 2 powr of_int (u + 53)" using l(2) by linarith
  then show "x < 2 powi (u + 53)" by (subst (asm) powr_real_of_int') simp_all
  show "2 powi (u + 52) \<le> x" if "u \<noteq> - 1074"
  proof -
    have "u + 52 = ?e" using u that by linarith
    with l(1) show ?thesis by (simp add: powr_real_of_int')
  qed
qed

lemma f64_round_le:
  assumes "0 < x" and "f64_ulp x = u"
  shows "f64_round x \<le> 2 powi (u + 53)" and "0 \<le> f64_round x"
    and "u \<noteq> - 1074 \<Longrightarrow> 2 powi (u + 52) \<le> f64_round x"
proof -
  have f: "f64_round x = of_int (round_half_even (x / 2 powi u)) * 2 powi u"
    using assms by (simp add: f64_round_def)
  have p: "(2 :: real) powi (u + int k) = of_int (2 ^ k) * 2 powi u" for k
    by (simp add: power_int_add)
  have "x / 2 powi u \<le> of_int (2 ^ 53)"
    using powi_ulp(1) [OF assms] p [of 53] by (simp add: field_simps)
  then have "round_half_even (x / 2 powi u) \<le> 2 ^ 53" "0 \<le> round_half_even (x / 2 powi u)"
    using round_half_even_between [of 0 "x / 2 powi u" "2 ^ 53"] assms(1) by simp_all
  then have r: "real_of_int (round_half_even (x / 2 powi u)) \<le> of_int (2 ^ 53)"
    "0 \<le> real_of_int (round_half_even (x / 2 powi u))"
    by (simp_all only: of_int_le_iff of_int_0_le_iff)
  show "f64_round x \<le> 2 powi (u + 53)"
    using p [of 53] mult_right_mono [OF r(1), of "2 powi u"] unfolding f by simp
  show "0 \<le> f64_round x" unfolding f using r(2) by simp
  show "2 powi (u + 52) \<le> f64_round x" if "u \<noteq> - 1074"
  proof -
    have "of_int (2 ^ 52) \<le> x / 2 powi u"
      using powi_ulp(2) [OF assms that] p [of 52] by (simp add: field_simps)
    then have "2 ^ 52 \<le> round_half_even (x / 2 powi u)"
      using round_half_even_mono [of "of_int (2 ^ 52)" "x / 2 powi u"] by (simp only: round_half_even_of_int)
    then have "of_int (2 ^ 52) \<le> real_of_int (round_half_even (x / 2 powi u))"
      by (simp only: of_int_le_iff)
    from mult_right_mono [OF this, of "2 powi u"] show ?thesis using p [of 52] unfolding f by simp
  qed
qed

lemma f64_round_mono_pos: "0 < x \<Longrightarrow> x \<le> y \<Longrightarrow> f64_round x \<le> f64_round y"
proof (cases "f64_ulp x = f64_ulp y")
  case True
  assume xy: "0 < x" "x \<le> y"
  then have "x / 2 powi f64_ulp y \<le> y / 2 powi f64_ulp y" by (simp add: divide_right_mono)
  then have "round_half_even (x / 2 powi f64_ulp y) \<le> round_half_even (y / 2 powi f64_ulp y)"
    by (rule round_half_even_mono)
  then show ?thesis using True xy by (simp add: f64_round_def mult_right_mono)
next
  case False
  assume xy: "0 < x" "x \<le> y"
  with False have lt: "f64_ulp x < f64_ulp y" using f64_ulp_mono by fastforce
  moreover have "- 1074 \<le> f64_ulp x" by (simp add: f64_ulp_def)
  ultimately have "2 powi (f64_ulp y + 52) \<le> f64_round y"
    using f64_round_le(3) [of y] xy by force
  moreover have "(2 :: real) powi (f64_ulp x + 53) \<le> 2 powi (f64_ulp y + 52)"
    using lt by (intro power_int_increasing) auto
  ultimately show ?thesis using f64_round_le(1) [of x] xy by fastforce
qed

lemma f64_round_mono: "x \<le> y \<Longrightarrow> f64_round x \<le> f64_round y"
proof -
  assume xy: "x \<le> y"
  have nonneg: "0 \<le> f64_round z" if "0 \<le> z" for z
    using f64_round_le(2) [of z] that by (cases "z = 0") auto
  consider "0 < x" | "x \<le> 0" "0 \<le> y" | "y < 0" by linarith
  then show ?thesis
  proof cases
    case 1
    then show ?thesis using f64_round_mono_pos xy by blast
  next
    case 2
    then show ?thesis using nonneg [of y] nonneg [of "- x"] by (simp add: f64_round_minus)
  next
    case 3
    then show ?thesis using f64_round_mono_pos [of "- y" "- x"] xy by (simp add: f64_round_minus)
  qed
qed

text \<open>A value with a significand of 53 bits is represented exactly.\<close>

lemma f64_round_pos_exact:
  assumes "0 < n" and "n \<le> 2 ^ 53" and k: "- 1074 \<le> k"
  defines "x \<equiv> real_of_int n * 2 powi k"
  shows "f64_round x = x"
proof -
  let ?u = "f64_ulp x"
  have x: "0 < x" using assms(1) by (simp add: x_def)
  have lx: "log 2 x = log 2 n + of_int k"
    using assms(1) by (simp add: x_def log_mult powr_realpow [symmetric] powr_real_of_int' [symmetric] log_powr)
  define j where "j = ?u - k"
  have j: "j \<le> 0 \<or> j = 1 \<and> n = 2 ^ 53"
  proof (cases "n = 2 ^ 53")
    case True
    have "log 2 (2 ^ 53) = 53" by (subst log_nat_power) simp_all
    then have "\<lfloor>log 2 x\<rfloor> = 53 + k" using lx True by simp
    then show ?thesis using True x k by (simp add: j_def f64_ulp_def)
  next
    case False
    then have "n < 2 ^ 53" using assms(2) by simp
    then have "real_of_int n < of_int (2 ^ 53)" by (simp only: of_int_less_iff)
    then have "log 2 n < 53" using assms(1) by (simp add: log_less_iff powr_numeral)
    then have "\<lfloor>log 2 x\<rfloor> < 53 + k" unfolding lx by (simp add: floor_less_iff)
    then show ?thesis using x k by (simp add: j_def f64_ulp_def)
  qed
  have "x / 2 powi ?u = of_int n / 2 powi j"
    by (simp add: x_def j_def power_int_diff)
  also have "\<exists>m. of_int n / 2 powi j = real_of_int m"
    using j
  proof
    assume "j \<le> 0"
    then have "of_int n / 2 powi j = real_of_int (n * 2 ^ nat (- j))"
      by (simp add: power_int_def field_simps)
    then show ?thesis by blast
  next
    assume "j = 1 \<and> n = 2 ^ 53"
    then show ?thesis by (intro exI [of _ "2 ^ 52"]) simp
  qed
  then obtain m where "of_int n / 2 powi j = real_of_int m" by blast
  finally have m: "x / 2 powi ?u = real_of_int m" .
  then have "f64_round x = of_int m * 2 powi ?u" using x by (simp add: f64_round_def)
  with m show ?thesis by (simp add: field_simps)
qed

lemma f64_round_exact:
  assumes "\<bar>n\<bar> \<le> 2 ^ 53" and k: "- 1074 \<le> k"
  shows "f64_round (of_int n * 2 powi k) = of_int n * 2 powi k"
proof -
  consider "0 < n" | "n = 0" | "0 < - n" by linarith
  then show ?thesis
  proof cases
    case 3
    then have "f64_round (of_int (- n) * 2 powi k) = of_int (- n) * 2 powi k"
      using assms by (intro f64_round_pos_exact) auto
    then show ?thesis using f64_round_minus [of "of_int n * 2 powi k"] by simp
  qed (use assms f64_round_pos_exact in auto)
qed

lemma f64_round_int: "\<bar>n\<bar> \<le> 2 ^ 53 \<Longrightarrow> f64_round (of_int n) = of_int n"
  using f64_round_exact [of n 0] by simp

lemma f64_round_nat: "n \<le> 2 ^ 53 \<Longrightarrow> f64_round (of_nat n) = of_nat n"
  using f64_round_int [of "int n"] by (simp del: power_numeral)

lemma f64_round_pos_idem: "0 < x \<Longrightarrow> f64_round (f64_round x) = f64_round x"
proof -
  assume x: "0 < x"
  let ?u = "f64_ulp x" and ?n = "round_half_even (x / 2 powi f64_ulp x)"
  have f: "f64_round x = of_int ?n * 2 powi ?u" using x by (simp add: f64_round_def)
  have "real_of_int ?n * 2 powi ?u \<le> of_int (2 ^ 53) * 2 powi ?u" "0 \<le> real_of_int ?n * 2 powi ?u"
    using f64_round_le(1,2) [OF x refl] unfolding f by (simp_all add: power_int_add)
  then have "real_of_int ?n \<le> of_int (2 ^ 53)" "0 \<le> real_of_int ?n"
    using zero_less_power_int [of "2 :: real" ?u] by (simp_all add: zero_le_mult_iff not_le [symmetric])
  then have "\<bar>?n\<bar> \<le> 2 ^ 53" by (simp only: of_int_le_iff of_int_0_le_iff abs_of_nonneg)
  then show ?thesis unfolding f by (intro f64_round_exact) (auto simp: f64_ulp_def)
qed

lemma f64_round_idem [simp]: "f64_round (f64_round x) = f64_round x"
proof -
  consider "0 < x" | "x = 0" | "0 < - x" by linarith
  then show ?thesis
  proof cases
    case 3
    then show ?thesis using f64_round_pos_idem [of "- x"] by (simp add: f64_round_minus)
  qed (simp_all add: f64_round_pos_idem)
qed

end
