(* ===== verification/Bandwidth_Limiter.thy ===== *)
theory Bandwidth_Limiter
  imports Turbulence_Prelude Float64
begin

text \<open>
  The bandwidth limiter (\<open>bandwidth_limiter.rs\<close>).

  A credit of bytes that grows with time up to \<open>burst_bandwidth\<close> and may go into debt. The \<open>Timer\<close> is
  a trait the user of the crate implements: instants are a type parameter, what \<open>now\<close> returned is an
  argument, and \<open>duration_between\<close> is a function argument which may panic. A \<open>Duration\<close> is its
  nanoseconds.
\<close>

type_synonym duration = nat
type_synonym 'i elapsed = "'i \<Rightarrow> 'i \<Rightarrow> duration option"

text \<open>The clock is a function from the number of the read to the instant.\<close>

record 'i timer =
  clock :: "nat \<Rightarrow> 'i"
  duration_between :: "'i elapsed"

definition as_secs_f64 :: "duration \<Rightarrow> real" where
  "as_secs_f64 d =
     f64_round (f64_round (of_nat (d div 10 ^ 9)) + f64_round (of_nat (d mod 10 ^ 9) / 10 ^ 9))"

record 'i bandwidth_limiter =
  bandwidth :: nat
  burst_bandwidth :: nat
  bytes_credit :: real
  last_calculation :: 'i

definition BandwidthLimiter_new :: "'i \<Rightarrow> nat \<Rightarrow> nat \<Rightarrow> 'i bandwidth_limiter" where
  "BandwidthLimiter_new now bw burst =
     \<lparr>bandwidth = bw, burst_bandwidth = burst, bytes_credit = of_nat burst, last_calculation = now\<rparr>"

text \<open>
  The number of seconds handed to \<open>timer.sleep\<close>, when there is a delay. \<open>Duration::from_secs_f64\<close> panics
  on a quotient by zero and on more seconds than 64 bits hold.
\<close>

definition delay_until_available :: "('i, 'm) bandwidth_limiter_scheme \<Rightarrow> real option option" where
  "delay_until_available l =
     (if bytes_credit l < 0 then do {
        assert_that (bandwidth l \<noteq> 0);
        let secs = f64_round (- bytes_credit l / of_nat (bandwidth l));
        assert_that (secs < 2 ^ 64);
        Some (Some secs)
      } else Some None)"

definition update_available ::
  "'i elapsed \<Rightarrow> 'i bandwidth_limiter \<Rightarrow> 'i \<Rightarrow> 'i bandwidth_limiter option" where
  "update_available elapsed l now = do {
     d \<leftarrow> elapsed (last_calculation l) now;
     let credit = f64_round (bytes_credit l + f64_round (as_secs_f64 d * of_nat (bandwidth l)));
     Some (l\<lparr>bytes_credit := min credit (of_nat (burst_bandwidth l)), last_calculation := now\<rparr>)
   }"

definition bytes_available :: "('i, 'm) bandwidth_limiter_scheme \<Rightarrow> bool" where
  "bytes_available l \<longleftrightarrow> 0 \<le> bytes_credit l"

definition take_bytes :: "'i bandwidth_limiter \<Rightarrow> nat \<Rightarrow> 'i bandwidth_limiter" where
  "take_bytes l n = l\<lparr>bytes_credit := f64_round (bytes_credit l - of_nat n)\<rparr>"

subsection \<open>Invariant\<close>

text \<open>The credit is an \<open>f64\<close>, at most the burst, and the debt is at most one packet of \<open>m\<close> bytes.\<close>

definition limiter_ok :: "nat \<Rightarrow> 'i bandwidth_limiter \<Rightarrow> bool" where
  "limiter_ok m l \<longleftrightarrow> burst_bandwidth l \<le> u32_max \<and> f64_round (bytes_credit l) = bytes_credit l \<and>
     - of_nat m \<le> bytes_credit l \<and> bytes_credit l \<le> of_nat (burst_bandwidth l)"

lemma f64_round_nonneg: "0 \<le> x \<Longrightarrow> 0 \<le> f64_round x"
  using f64_round_mono [of 0 x] by simp

lemma as_secs_nonneg: "0 \<le> as_secs_f64 d"
  unfolding as_secs_f64_def by (intro f64_round_nonneg add_nonneg_nonneg) simp_all

lemma f64_round_u32: "n \<le> u32_max \<Longrightarrow> f64_round (of_nat n) = of_nat n"
  by (intro f64_round_nat) (simp add: u32_max_def)

lemma limiter_new_ok: "burst \<le> u32_max \<Longrightarrow> limiter_ok m (BandwidthLimiter_new now bw burst)"
  by (simp add: limiter_ok_def BandwidthLimiter_new_def f64_round_u32)

text \<open>An update never takes credit away.\<close>

lemma update_available_credit:
  assumes "limiter_ok m l" and "update_available elapsed l now = Some l'"
  shows "limiter_ok m l'" and "bytes_credit l \<le> bytes_credit l'" and "last_calculation l' = now"
    and "bandwidth l' = bandwidth l" and "burst_bandwidth l' = burst_bandwidth l"
proof -
  obtain d where d: "elapsed (last_calculation l) now = Some d"
    and l': "l' = l\<lparr>bytes_credit := min (f64_round (bytes_credit l + f64_round (as_secs_f64 d * of_nat (bandwidth l))))
        (of_nat (burst_bandwidth l)), last_calculation := now\<rparr>"
    using assms(2) by (auto simp: update_available_def option_bind_eq_Some)
  note l = assms(1) [unfolded limiter_ok_def]
  have "0 \<le> f64_round (as_secs_f64 d * of_nat (bandwidth l))"
    using as_secs_nonneg by (intro f64_round_nonneg mult_nonneg_nonneg) simp_all
  then have "bytes_credit l \<le> bytes_credit l + f64_round (as_secs_f64 d * of_nat (bandwidth l))" by simp
  then have c: "bytes_credit l \<le> f64_round (bytes_credit l + f64_round (as_secs_f64 d * of_nat (bandwidth l)))"
    using f64_round_mono l by metis
  then show "bytes_credit l \<le> bytes_credit l'" using l l' by simp
  then show "limiter_ok m l'" using l l' f64_round_u32 [of "burst_bandwidth l"]
    by (auto simp: limiter_ok_def min_def)
qed (use assms(2) in \<open>auto simp: update_available_def option_bind_eq_Some Let_def\<close>)

text \<open>A packet sent when there is credit leaves at most its own length of debt.\<close>

lemma take_bytes_debt:
  assumes "limiter_ok m l" and "bytes_available l" and "n \<le> m" and "n \<le> u32_max"
  shows "limiter_ok m (take_bytes l n)"
proof -
  note l = assms(1) [unfolded limiter_ok_def]
  have "f64_round (- of_nat n) \<le> f64_round (bytes_credit l - of_nat n)"
    using assms(2) by (intro f64_round_mono) (simp add: bytes_available_def)
  then have "- of_nat n \<le> f64_round (bytes_credit l - of_nat n)"
    using assms(4) by (simp add: f64_round_minus f64_round_u32)
  moreover have "f64_round (bytes_credit l - of_nat n) \<le> bytes_credit l"
    using f64_round_mono [of "bytes_credit l - of_nat n" "bytes_credit l"] l by simp
  ultimately show ?thesis using l assms(3) by (simp add: limiter_ok_def take_bytes_def)
qed

text \<open>A debt of at most a packet has a delay, and there is one exactly when there is no credit.\<close>

lemma delay_returns:
  assumes "limiter_ok m l" and "m \<le> u32_max" and "bandwidth l \<noteq> 0"
  shows "\<exists>d. delay_until_available l = Some d \<and> (d = None \<longleftrightarrow> bytes_available l)"
proof (cases "bytes_credit l < 0")
  case True
  note l = assms(1) [unfolded limiter_ok_def]
  have "- bytes_credit l / of_nat (bandwidth l) \<le> - bytes_credit l / 1"
    using True assms(3) by (intro divide_left_mono) auto
  also have "\<dots> \<le> of_nat u32_max" using l assms(2) by (simp add: u32_max_def)
  finally have "f64_round (- bytes_credit l / of_nat (bandwidth l)) \<le> f64_round (of_nat u32_max)"
    by (intro f64_round_mono)
  then have "f64_round (- bytes_credit l / of_nat (bandwidth l)) < 2 ^ 64"
    using f64_round_u32 [of u32_max] by (simp add: u32_max_def)
  then show ?thesis using True assms(3) by (simp add: delay_until_available_def bytes_available_def Let_def)
qed (simp add: delay_until_available_def bytes_available_def)

end
