(* ===== verification/Reliable_Channel.thy ===== *)
theory Reliable_Channel
  imports Send_Window Recv_Window_Spec Packet Bandwidth_Limiter "HOL-Library.AList"
begin

text \<open>
  The reliable channel (\<open>reliable_channel.rs\<close>).

  The task that owns both windows is a record; its handlers \<open>send\<close>, \<open>resend\<close> and \<open>recv_packet\<close> are
  functions on it, and a round of \<open>main_loop\<close> is one step, given the reason of the wake-up that
  \<open>select!\<close> picked. The outgoing \<open>spsc\<close> channel is the list of the packets sent so far and whether the
  other end is still there; what the handlers wake is a log. The clock is a function from the number
  of the read to the instant, so that each call of \<open>timer.now()\<close> may return something new. The hash
  map of unacknowledged ranges is an association list, and the order in which \<open>values_mut\<close> visits it
  is an argument of \<open>resend\<close>.

  The application's handle shares the rings of the two windows with the task.
\<close>

datatype rel_error = Disconnected | ProtocolError | Shutdown

record rel_settings =
  set_bandwidth :: nat
  set_burst_bandwidth :: nat
  recv_window_size :: nat
  send_window_size :: nat
  init_send :: nat
  resend_time :: duration
  initial_rtt :: duration
  max_rtt :: duration
  rtt_update_factor :: real
  rtt_resend_factor :: real

record 'i unacked_range =
  ur_start :: stream_pos
  ur_end :: stream_pos
  last_sent :: "'i option"
  retransmit :: bool

datatype wake = Wake_send_ready | Wake_write_ready | Wake_read_ready

record 'i task =
  settings :: rel_settings
  pool_capacity :: nat
  outgoing :: "byte list list"
  outgoing_open :: bool
  send_window :: send_window
  recv_window :: recv_window
  remote_recv_available :: nat
  unacked :: "(stream_pos \<times> 'i unacked_range) list"
  rtt_estimate :: real
  limiter :: "'i bandwidth_limiter"
  wakes :: "wake list"
  clock_reads :: nat

type_synonym 'i handled = "('i task \<times> (rel_error + unit)) option"

subsection \<open>Effects of the handlers\<close>

definition timer_now :: "'i timer \<Rightarrow> 'i task \<Rightarrow> 'i \<times> 'i task" where
  "timer_now tm tk = (clock tm (clock_reads tk), tk\<lparr>clock_reads := Suc (clock_reads tk)\<rparr>)"

text \<open>\<open>self.sender.send(packet).await.map_err(|_| Error::Disconnected)\<close>\<close>

definition send_packet :: "'i task \<Rightarrow> byte list \<Rightarrow> 'i task \<times> (rel_error + unit)" where
  "send_packet tk p =
     (if outgoing_open tk then (tk\<lparr>outgoing := outgoing tk @ [p]\<rparr>, Inr ())
      else (tk, Inl Disconnected))"

definition wake_up :: "wake \<Rightarrow> 'i task \<Rightarrow> 'i task" where
  "wake_up x tk = tk\<lparr>wakes := wakes tk @ [x]\<rparr>"

text \<open>The \<open>?\<close> operator on the result of a handler.\<close>

definition and_then :: "'i handled \<Rightarrow> ('i task \<Rightarrow> 'i handled) \<Rightarrow> 'i handled" where
  "and_then h k = do {
     (tk, r) \<leftarrow> h;
     (case r of Inl e \<Rightarrow> Some (tk, Inl e) | Inr _ \<Rightarrow> k tk)
   }"

definition as_i16 :: "nat \<Rightarrow> int" where
  "as_i16 n = (let m = int n mod 2 ^ 16 in if m < 2 ^ 15 then m else m - 2 ^ 16)"

definition i16_neg :: "int \<Rightarrow> int option" where
  "i16_neg v = (if v = - (2 ^ 15) then None else Some (- v))"

definition Task_update_bandwidth :: "'i timer \<Rightarrow> 'i task \<Rightarrow> 'i task option" where
  "Task_update_bandwidth tm tk = do {
     let (now, tk) = timer_now tm tk;
     l \<leftarrow> update_available (duration_between tm) (limiter tk) now;
     Some (tk\<lparr>limiter := l\<rparr>)
   }"

subsection \<open>Handlers\<close>

definition Task_send :: "'i timer \<Rightarrow> 'i task \<Rightarrow> 'i handled" where
  "Task_send tm tk =
     (if \<not> bytes_available (limiter tk) then Some (tk, Inr ())
      else do {
        avail \<leftarrow> SendWindow_send_available (send_window tk);
        let send_amt = min (min avail (remote_recv_available tk)) i16_max;
        if send_amt = 0 then Some (tk, Inr ())
        else do {
          room \<leftarrow> usize_sub (pool_capacity tk) 6;
          let send_amt = min send_amt (as_u32 room);
          packet \<leftarrow> packet_resize (pool_capacity tk) [] (6 + send_amt) 0;
          body \<leftarrow> slice packet 6 (length packet);
          (sw, body, r) \<leftarrow> SendWindow_send (send_window tk) body;
          (start, end_pos) \<leftarrow> r;
          assert_that (unat (end_pos - start) = send_amt);
          packet \<leftarrow> copy_at packet 6 body;
          packet \<leftarrow> copy_at packet 0 (write_i16 (as_i16 send_amt));
          packet \<leftarrow> copy_at packet 2 (write_u32 start);
          let (now, tk) = timer_now tm tk;
          let tk = tk\<lparr>send_window := sw,
            unacked := AList.update start
              \<lparr>ur_start = start, ur_end = end_pos, last_sent = Some now, retransmit = False\<rparr> (unacked tk),
            limiter := take_bytes (limiter tk) (as_u32 (length packet))\<rparr>;
          and_then (Some (send_packet tk packet)) (\<lambda>tk. do {
            remote \<leftarrow> u32_sub (remote_recv_available tk) send_amt;
            Some (tk\<lparr>remote_recv_available := remote\<rparr>, Inr ())
          })
        }
      })"

text \<open>Whether a range is due: never sent since it was cut off, or its time-out has passed.\<close>

definition resend_due :: "'i timer \<Rightarrow> 'i task \<Rightarrow> 'i unacked_range \<Rightarrow> ('i task \<times> bool) option" where
  "resend_due tm tk u =
     (case last_sent u of
        None \<Rightarrow> Some (tk, True)
      | Some t \<Rightarrow> do {
          let (now, tk) = timer_now tm tk;
          d \<leftarrow> duration_between tm t now;
          Some (tk, f64_round (rtt_estimate tk * rtt_resend_factor (settings tk)) < as_secs_f64 d)
        })"

definition resend_range :: "'i timer \<Rightarrow> 'i task \<Rightarrow> stream_pos \<Rightarrow> 'i unacked_range \<Rightarrow> 'i handled" where
  "resend_range tm tk k u = do {
     let (now, tk) = timer_now tm tk;
     let u = u\<lparr>last_sent := Some now, retransmit := True\<rparr>;
     let tk = tk\<lparr>unacked := AList.update k u (unacked tk)\<rparr>;
     let len = unat (ur_end u - ur_start u);
     packet \<leftarrow> packet_resize (pool_capacity tk) [] (6 + len) 0;
     packet \<leftarrow> copy_at packet 0 (write_i16 (as_i16 len));
     packet \<leftarrow> copy_at packet 2 (write_u32 (ur_start u));
     body \<leftarrow> slice packet 6 (length packet);
     body \<leftarrow> SendWindow_get_unacked (send_window tk) (ur_start u) body;
     packet \<leftarrow> copy_at packet 6 body;
     Some (send_packet (tk\<lparr>limiter := take_bytes (limiter tk) (as_u32 (length packet))\<rparr>) packet)
   }"

fun Task_resend :: "'i timer \<Rightarrow> 'i task \<Rightarrow> stream_pos list \<Rightarrow> 'i handled" where
  "Task_resend tm tk [] = Some (tk, Inr ())"
| "Task_resend tm tk (k # ks) =
     (if \<not> bytes_available (limiter tk) then Some (tk, Inr ())
      else do {
        u \<leftarrow> map_of (unacked tk) k;
        (tk, due) \<leftarrow> resend_due tm tk u;
        and_then (if due then resend_range tm tk k u else Some (tk, Inr ()))
          (\<lambda>tk. Task_resend tm tk ks)
      })"

text \<open>The part of \<open>recv_packet\<close> that believes a new end of the remote window.\<close>

definition recv_window_end_update :: "'i timer \<Rightarrow> 'i task \<Rightarrow> stream_pos \<Rightarrow> 'i handled" where
  "recv_window_end_update tm tk recv_window_end =
     (if stream_gt recv_window_end (send_pos (send_window tk)) then
        let old = remote_recv_available tk;
            tk = tk\<lparr>remote_recv_available :=
              max old (unat (recv_window_end - send_pos (send_window tk)))\<rparr>
        in if remote_recv_available tk \<noteq> 0 \<and> old = 0 then Task_send tm tk else Some (tk, Inr ())
      else Some (tk, Inr ()))"

definition ack_unacked ::
  "'i task \<Rightarrow> stream_pos \<Rightarrow> stream_pos \<Rightarrow> ('i task \<times> 'i unacked_range option) option" where
  "ack_unacked tk start_pos end_pos = do {
     (sw, r) \<leftarrow> SendWindow_ack_range (send_window tk) start_pos end_pos;
     let tk = tk\<lparr>send_window := sw\<rparr>;
     (case r of
        NotFound \<Rightarrow> Some (tk, None)
      | Ack \<Rightarrow> do {
          acked \<leftarrow> map_of (unacked tk) start_pos;
          let tk = tk\<lparr>unacked := AList.delete start_pos (unacked tk)\<rparr>;
          assert_that (ur_end acked = end_pos);
          Some (tk, Some acked)
        }
      | PartialAck nacked_end \<Rightarrow> do {
          acked \<leftarrow> map_of (unacked tk) start_pos;
          let tk = tk\<lparr>unacked := AList.delete start_pos (unacked tk)\<rparr>;
          assert_that (ur_end acked = nacked_end);
          let tk = tk\<lparr>unacked := AList.update end_pos
            \<lparr>ur_start = end_pos, ur_end = nacked_end, last_sent = None, retransmit = True\<rparr> (unacked tk)\<rparr>;
          Some (tk, Some (acked\<lparr>ur_end := end_pos\<rparr>))
        })
   }"

definition update_rtt :: "'i timer \<Rightarrow> 'i task \<Rightarrow> 'i unacked_range \<Rightarrow> 'i task option" where
  "update_rtt tm tk acked =
     (if retransmit acked then Some tk
      else (case last_sent acked of
          None \<Rightarrow> Some tk
        | Some t \<Rightarrow> do {
            let (now, tk) = timer_now tm tk;
            d \<leftarrow> duration_between tm t now;
            let rtt = as_secs_f64 (min d (max_rtt (settings tk)));
            Some (tk\<lparr>rtt_estimate := f64_round (rtt_estimate tk +
              f64_round (f64_round (rtt - rtt_estimate tk) * rtt_update_factor (settings tk)))\<rparr>)
          }))"

definition Task_recv_ack :: "'i timer \<Rightarrow> 'i task \<Rightarrow> int \<Rightarrow> byte list \<Rightarrow> 'i handled" where
  "Task_recv_ack tm tk data_len packet =
     (if length packet \<noteq> 10 then Some (tk, Inl ProtocolError)
      else do {
        s \<leftarrow> slice packet 2 6;
        len \<leftarrow> i16_neg data_len;
        e \<leftarrow> slice packet 6 10;
        let start_pos = read_u32 s;
        let end_pos = start_pos + of_int len;
        and_then (recv_window_end_update tm tk (read_u32 e)) (\<lambda>tk. do {
          (tk, acked_range) \<leftarrow> ack_unacked tk start_pos end_pos;
          (case acked_range of
             None \<Rightarrow> Some (tk, Inr ())
           | Some acked \<Rightarrow> do {
               tk \<leftarrow> update_rtt tm tk acked;
               n \<leftarrow> SendWindow_write_available (send_window tk);
               Some (if 0 < n then wake_up Wake_write_ready tk else tk, Inr ())
             })
        })
      })"

definition ack_packet :: "nat \<Rightarrow> stream_pos \<Rightarrow> stream_pos \<Rightarrow> stream_pos \<Rightarrow> byte list option" where
  "ack_packet cap start_pos end_pos window_end = do {
     packet \<leftarrow> packet_resize cap [] 10 0;
     neg \<leftarrow> i16_neg (as_i16 (unat (end_pos - start_pos)));
     packet \<leftarrow> copy_at packet 0 (write_i16 neg);
     packet \<leftarrow> copy_at packet 2 (write_u32 start_pos);
     copy_at packet 6 (write_u32 window_end)
   }"

definition Task_recv_data :: "'i timer \<Rightarrow> 'i task \<Rightarrow> int \<Rightarrow> byte list \<Rightarrow> 'i handled" where
  "Task_recv_data tm tk data_len packet =
     (if length packet < 6 then Some (tk, Inl ProtocolError)
      else do {
        s \<leftarrow> slice packet 2 6;
        let start_pos = read_u32 s;
        if nat data_len \<noteq> length packet - 6 then Some (tk, Inl ProtocolError)
        else do {
          body \<leftarrow> slice packet 6 (length packet);
          (rw, r) \<leftarrow> RecvWindow_recv (recv_window tk) start_pos body;
          let tk = tk\<lparr>recv_window := rw\<rparr>;
          (case r of
             None \<Rightarrow> Some (tk, Inr ())
           | Some end_pos \<Rightarrow> do {
               window_end \<leftarrow> RecvWindow_window_end (recv_window tk);
               ack \<leftarrow> ack_packet (pool_capacity tk) start_pos end_pos window_end;
               and_then (Some (send_packet tk ack)) (\<lambda>tk. do {
                 n \<leftarrow> RecvWindow_read_available (recv_window tk);
                 Some (if 0 < n then wake_up Wake_read_ready tk else tk, Inr ())
               })
             })
        }
      })"

definition Task_recv_packet :: "'i timer \<Rightarrow> 'i task \<Rightarrow> byte list \<Rightarrow> 'i handled" where
  "Task_recv_packet tm tk packet =
     (if length packet < 2 then Some (tk, Inl ProtocolError)
      else do {
        h \<leftarrow> slice packet 0 2;
        let data_len = read_i16 h;
        if data_len < 0 then Task_recv_ack tm tk data_len packet
        else Task_recv_data tm tk data_len packet
      })"

text \<open>
  A round of \<open>main_loop\<close>. The reasons carry what the environment decides: the order in which the hash
  map is visited, and the packet that arrived, \<open>None\<close> when the incoming channel is disconnected.
\<close>

datatype wake_reason =
    ResendTimer "stream_pos list"
  | IncomingPacket "byte list option"
  | SendAvailable "stream_pos list"

definition Task_unstall :: "'i task \<Rightarrow> 'i task" where
  "Task_unstall tk =
     (if unacked tk = [] \<and> remote_recv_available tk = 0
      then tk\<lparr>remote_recv_available := init_send (settings tk)\<rparr> else tk)"

fun handle_wake :: "'i timer \<Rightarrow> 'i task \<Rightarrow> wake_reason \<Rightarrow> 'i handled" where
  "handle_wake tm tk (ResendTimer ks) = Task_resend tm tk ks"
| "handle_wake tm tk (IncomingPacket (Some p)) = Task_recv_packet tm tk p"
| "handle_wake tm tk (IncomingPacket None) = Some (tk, Inl Disconnected)"
| "handle_wake tm tk (SendAvailable ks) = and_then (Task_resend tm tk ks) (Task_send tm)"

definition main_loop_round :: "'i timer \<Rightarrow> 'i task \<Rightarrow> wake_reason \<Rightarrow> 'i handled" where
  "main_loop_round tm tk reason = do {
     tk \<leftarrow> Task_update_bandwidth tm tk;
     (if reason = IncomingPacket None then Some (tk, Inl Disconnected)
      else do {
        tk \<leftarrow> Task_update_bandwidth tm tk;
        and_then (handle_wake tm tk reason) (\<lambda>tk. Some (Task_unstall tk, Inr ()))
      })
   }"

text \<open>When \<open>select!\<close> can take a branch (the timers apart): \<open>send_available\<close> waits for data and for room.\<close>

definition wake_enabled :: "'i task \<Rightarrow> wake_reason \<Rightarrow> bool" where
  "wake_enabled tk reason =
     (case reason of
        SendAvailable ks \<Rightarrow> remote_recv_available tk \<noteq> 0 \<and>
          (\<exists>n \<in> set_option (SendWindow_send_available (send_window tk)). 0 < n)
      | _ \<Rightarrow> True)"

definition Task_new :: "'i timer \<Rightarrow> nat \<Rightarrow> rel_settings \<Rightarrow> 'i task option" where
  "Task_new tm cap st = do {
     assert_that (set_bandwidth st \<noteq> 0);
     assert_that (recv_window_size st \<noteq> 0);
     assert_that (recv_window_size st \<noteq> 0);
     assert_that (set_burst_bandwidth st \<noteq> 0);
     assert_that (init_send st \<noteq> 0);
     assert_that (0 < rtt_update_factor st);
     assert_that (0 < rtt_resend_factor st);
     sw \<leftarrow> SendWindow_new (send_window_size st) 0;
     rw \<leftarrow> RecvWindow_new (recv_window_size st) 0;
     Some \<lparr>settings = st, pool_capacity = cap, outgoing = [], outgoing_open = True,
       send_window = sw, recv_window = rw, remote_recv_available = init_send st, unacked = [],
       rtt_estimate = as_secs_f64 (initial_rtt st),
       limiter = BandwidthLimiter_new (clock tm 0) (set_bandwidth st) (set_burst_bandwidth st),
       wakes = [], clock_reads = 1\<rparr>
   }"

subsection \<open>The application's handle\<close>

text \<open>
  \<open>Fuse<RemoteHandle<Error>>\<close>: the task is running, has returned an error that was not collected yet,
  or its error was collected and the handle is terminated.
\<close>

datatype task_handle = Running | Returned rel_error | Terminated

record 'i reliable_channel =
  task :: "'i task"
  handle :: task_handle

definition ReliableChannel_new :: "'i timer \<Rightarrow> nat \<Rightarrow> rel_settings \<Rightarrow> 'i reliable_channel option" where
  "ReliableChannel_new tm cap st = do {
     tk \<leftarrow> Task_new tm cap st;
     Some \<lparr>task = tk, handle = Running\<rparr>
   }"

definition write_ring :: "'i reliable_channel \<Rightarrow> byte list \<Rightarrow> ('i reliable_channel \<times> nat) option" where
  "write_ring ch data = do {
     (rb, n) \<leftarrow> SendWindowWriter_write (sw_ring (send_window (task ch))) data;
     Some (ch\<lparr>task := (task ch)\<lparr>send_window := (send_window (task ch))\<lparr>sw_ring := rb\<rparr>\<rparr>\<rparr>, n)
   }"

definition read_ring ::
  "'i reliable_channel \<Rightarrow> byte list \<Rightarrow> ('i reliable_channel \<times> byte list \<times> nat) option" where
  "read_ring ch buf = do {
     (rb, buf, n) \<leftarrow> RecvWindowReader_read (rw_ring (recv_window (task ch))) buf;
     Some (ch\<lparr>task := (task ch)\<lparr>recv_window := (recv_window (task ch))\<lparr>rw_ring := rb\<rparr>\<rparr>\<rparr>, buf, n)
   }"

text \<open>
  The polls. \<open>env\<close> is what the task does to the shared state between the first attempt and the one made
  after the waker was registered; it is the identity when the task does not run in between.
\<close>

definition poll_write ::
  "('i reliable_channel \<Rightarrow> 'i reliable_channel) \<Rightarrow> 'i reliable_channel \<Rightarrow> byte list \<Rightarrow>
   ('i reliable_channel \<times> (rel_error + nat) poll) option" where
  "poll_write env ch data =
     (case handle ch of
        Terminated \<Rightarrow> Some (ch, Ready (Inl Shutdown))
      | Returned e \<Rightarrow> Some (ch\<lparr>handle := Terminated\<rparr>, Ready (Inl e))
      | Running \<Rightarrow>
          if data = [] then Some (ch, Ready (Inr 0))
          else do {
            (ch, len) \<leftarrow> write_ring ch data;
            if 0 < len then Some (ch, Ready (Inr len))
            else do {
              (ch, len) \<leftarrow> write_ring (env ch) data;
              if 0 < len then Some (ch, Ready (Inr len))
              else Some (ch\<lparr>task := wake_up Wake_send_ready (task ch)\<rparr>, Pending)
            }
          })"

definition poll_read ::
  "('i reliable_channel \<Rightarrow> 'i reliable_channel) \<Rightarrow> 'i reliable_channel \<Rightarrow> byte list \<Rightarrow>
   ('i reliable_channel \<times> byte list \<times> (rel_error + nat) poll) option" where
  "poll_read env ch buf =
     (case handle ch of
        Terminated \<Rightarrow> Some (ch, buf, Ready (Inl Shutdown))
      | Returned e \<Rightarrow> Some (ch\<lparr>handle := Terminated\<rparr>, buf, Ready (Inl e))
      | Running \<Rightarrow>
          if buf = [] then Some (ch, buf, Ready (Inr 0))
          else do {
            (ch, buf, len) \<leftarrow> read_ring ch buf;
            if 0 < len then Some (ch, buf, Ready (Inr len))
            else do {
              (ch, buf, len) \<leftarrow> read_ring (env ch) buf;
              if 0 < len then Some (ch, buf, Ready (Inr len)) else Some (ch, buf, Pending)
            }
          })"

definition ReliableChannel_flush ::
  "'i reliable_channel \<Rightarrow> 'i reliable_channel \<times> (rel_error + unit)" where
  "ReliableChannel_flush ch =
     (case handle ch of
        Terminated \<Rightarrow> (ch, Inl Shutdown)
      | Returned e \<Rightarrow> (ch\<lparr>handle := Terminated\<rparr>, Inl e)
      | Running \<Rightarrow> (ch\<lparr>task := wake_up Wake_send_ready (task ch)\<rparr>, Inr ()))"

definition ReliableChannel_write_available :: "'i reliable_channel \<Rightarrow> nat option" where
  "ReliableChannel_write_available ch = SendWindowWriter_write_available (sw_ring (send_window (task ch)))"

definition try_write ::
  "'i reliable_channel \<Rightarrow> byte list \<Rightarrow> ('i reliable_channel \<times> (rel_error + nat)) option" where
  "try_write ch data =
     (if handle ch = Terminated then Some (ch, Inl Shutdown)
      else do { (ch, n) \<leftarrow> write_ring ch data; Some (ch, Inr n) })"

definition try_read ::
  "'i reliable_channel \<Rightarrow> byte list \<Rightarrow> ('i reliable_channel \<times> byte list \<times> (rel_error + nat)) option" where
  "try_read ch buf =
     (if handle ch = Terminated then Some (ch, buf, Inl Shutdown)
      else do { (ch, buf, n) \<leftarrow> read_ring ch buf; Some (ch, buf, Inr n) })"

text \<open>The task runs for one round; an error ends it and is kept for the handle.\<close>

definition channel_round ::
  "'i timer \<Rightarrow> 'i reliable_channel \<Rightarrow> wake_reason \<Rightarrow> 'i reliable_channel option" where
  "channel_round tm ch reason =
     (case handle ch of
        Running \<Rightarrow> do {
          (tk, r) \<leftarrow> main_loop_round tm (task ch) reason;
          Some (case r of Inl e \<Rightarrow> ch\<lparr>task := tk, handle := Returned e\<rparr> | Inr _ \<Rightarrow> ch\<lparr>task := tk\<rparr>)
        }
      | _ \<Rightarrow> Some ch)"

end
