(* ===== verification/Reliable_Task.thy ===== *)
theory Reliable_Task
  imports Reliable_Channel
begin

text \<open>
  Correctness of the handlers of the reliable channel's task.

  \<open>task_inv\<close> says that the hash map has exactly the ranges of the send window, that each fits a packet,
  and that kept instants come from the clock. Here is the format of the packets, and that \<open>send\<close> and
  \<open>resend\<close> return without a panic, keep the invariant, and send only packets that carry the bytes of
  the stream at their positions.
\<close>


subsection \<open>Packet formats\<close>

definition data_packet :: "stream_pos \<Rightarrow> byte list \<Rightarrow> byte list" where
  "data_packet start data = write_i16 (int (length data)) @ write_u32 start @ data"

definition ack_bytes :: "nat \<Rightarrow> stream_pos \<Rightarrow> stream_pos \<Rightarrow> byte list" where
  "ack_bytes len start window_end = write_i16 (- int len) @ write_u32 start @ write_u32 window_end"

lemma length_data_packet [simp]: "length (data_packet start data) = 6 + length data"
  by (simp add: data_packet_def)

lemma length_ack_bytes [simp]: "length (ack_bytes len start window_end) = 10"
  by (simp add: ack_bytes_def)

lemma as_i16_ok: "n \<le> i16_max \<Longrightarrow> as_i16 n = int n"
  by (simp add: as_i16_def i16_max_def Let_def)

lemma i16_neg_ok: "- (2 ^ 15) < v \<Longrightarrow> i16_neg v = Some (- v)"
  by (simp add: i16_neg_def)

text \<open>Filling in a packet that was resized to its final length, in the two orders the code uses.\<close>

lemma build_data_packet:
  assumes "length body = n" and "n \<le> i16_max" and "6 + n \<le> cap"
  defines "p \<equiv> vec_resize [] (6 + n) (0 :: byte)"
  shows "packet_resize cap [] (6 + n) 0 = Some p"
    "slice p 6 (length p) = Some (replicate n 0)"
    "do { p \<leftarrow> copy_at p 6 body; p \<leftarrow> copy_at p 0 (write_i16 (as_i16 n)); copy_at p 2 (write_u32 start) } =
       Some (data_packet start body)"
    "do { p \<leftarrow> copy_at p 0 (write_i16 (as_i16 n)); copy_at p 2 (write_u32 start) } =
       Some (data_packet start (replicate n 0))"
    "copy_at (data_packet start (replicate n 0)) 6 body = Some (data_packet start body)"
proof -
  have p: "p = replicate (6 + n) 0" by (simp add: p_def vec_resize_def)
  show "packet_resize cap [] (6 + n) 0 = Some p" using assms(3) by (simp add: packet_resize_def p_def)
  show "slice p 6 (length p) = Some (replicate n 0)" by (simp add: p slice_def)
  show "do { p \<leftarrow> copy_at p 6 body; p \<leftarrow> copy_at p 0 (write_i16 (as_i16 n)); copy_at p 2 (write_u32 start) } =
       Some (data_packet start body)"
    using assms(1,2) by (simp add: p copy_at_def as_i16_ok data_packet_def)
  show "do { p \<leftarrow> copy_at p 0 (write_i16 (as_i16 n)); copy_at p 2 (write_u32 start) } =
       Some (data_packet start (replicate n 0))"
    using assms(2) by (simp add: p copy_at_def as_i16_ok data_packet_def)
  show "copy_at (data_packet start (replicate n 0)) 6 body = Some (data_packet start body)"
    using assms(1) by (simp add: copy_at_def data_packet_def)
qed

lemma ack_packet_ok:
  assumes "10 \<le> cap" and "unat (e - s) \<le> i16_max"
  shows "ack_packet cap s e wend = Some (ack_bytes (unat (e - s)) s wend)"
proof -
  define n where "n = unat (e - s)"
  have "i16_neg (int n) = Some (- int n)" by (rule i16_neg_ok) simp
  then show ?thesis using assms unfolding ack_packet_def n_def [symmetric]
    by (simp add: packet_resize_def vec_resize_def as_i16_ok copy_at_def ack_bytes_def)
qed

text \<open>What the receiving side reads from them.\<close>

lemma parse_data_packet:
  assumes "length data \<le> i16_max"
  shows "Task_recv_packet tm tk (data_packet start data) =
     Task_recv_data tm tk (int (length data)) (data_packet start data)"
    "slice (data_packet start data) 2 6 = Some (write_u32 start)"
    "slice (data_packet start data) 6 (length (data_packet start data)) = Some data"
proof -
  have "slice (data_packet start data) 0 2 = Some (write_i16 (int (length data)))"
    by (simp add: data_packet_def slice_def)
  then show "Task_recv_packet tm tk (data_packet start data) =
     Task_recv_data tm tk (int (length data)) (data_packet start data)"
    using assms by (simp add: Task_recv_packet_def i16_max_def)
qed (simp_all add: data_packet_def slice_def)

lemma parse_ack_bytes:
  assumes "0 < len" and "len \<le> i16_max"
  shows "Task_recv_packet tm tk (ack_bytes len start wend) =
     Task_recv_ack tm tk (- int len) (ack_bytes len start wend)"
    "slice (ack_bytes len start wend) 2 6 = Some (write_u32 start)"
    "slice (ack_bytes len start wend) 6 10 = Some (write_u32 wend)"
proof -
  have "slice (ack_bytes len start wend) 0 2 = Some (write_i16 (- int len))"
    by (simp add: ack_bytes_def slice_def)
  then show "Task_recv_packet tm tk (ack_bytes len start wend) =
     Task_recv_ack tm tk (- int len) (ack_bytes len start wend)"
    using assms by (simp add: Task_recv_packet_def i16_max_def)
qed (simp_all add: ack_bytes_def slice_def)


subsection \<open>Invariant of the task\<close>

text \<open>
  The hash map has exactly the ranges of the send window, under their start positions.
\<close>

definition span_of :: "'i unacked_range \<Rightarrow> stream_pos \<times> stream_pos" where
  "span_of u = (ur_start u, ur_end u)"

definition spans :: "(stream_pos \<times> 'i unacked_range) list \<Rightarrow> stream_pos \<rightharpoonup> stream_pos \<times> stream_pos" where
  "spans ua = map_option span_of \<circ> map_of ua"

definition tracks :: "range list \<Rightarrow> (stream_pos \<times> 'i unacked_range) list \<Rightarrow> bool" where
  "tracks rs ua \<longleftrightarrow> distinct (map fst ua) \<and>
     Map.graph (spans ua) = (\<lambda>r. (pos_of (fst r), enc_range r)) ` set rs"

lemma spans_update [simp]: "spans (AList.update k u ua) = (spans ua)(k \<mapsto> span_of u)"
  by (auto simp: spans_def update_conv)

lemma spans_delete [simp]: "spans (AList.delete k ua) = (spans ua)(k := None)"
  by (auto simp: spans_def delete_conv restrict_map_def)

lemma spans_eq_Some: "spans ua k = Some v \<longleftrightarrow> (\<exists>u. map_of ua k = Some u \<and> span_of u = v)"
  by (auto simp: spans_def)

lemma tracks_update:
  assumes "tracks rs ua" and "\<forall>r\<in>set rs. pos_of (fst r) \<noteq> pos_of a" and "span_of u = enc_range (a, b)"
  shows "tracks (rs @ [(a, b)]) (AList.update (pos_of a) u ua)"
  using assms unfolding tracks_def
  by (auto simp: distinct_update graph_map_upd graph_fun_upd_None)

lemma tracks_touch:
  assumes "tracks rs ua" and "map_of ua k = Some u" and "span_of u' = span_of u"
  shows "tracks rs (AList.update k u' ua)"
proof -
  have "spans ua k = Some (span_of u')" using assms(2,3) by (simp add: spans_eq_Some)
  then have "spans (AList.update k u' ua) = spans ua" by auto
  then show ?thesis using assms(1) by (simp add: tracks_def distinct_update del: spans_update)
qed

lemma tracks_delete:
  assumes "tracks rs ua" and "\<forall>r\<in>set rs'. pos_of (fst r) \<noteq> pos_of (fst x)" and "set rs = insert x (set rs')"
  shows "tracks rs' (AList.delete (pos_of (fst x)) ua)"
  using assms unfolding tracks_def
  by (auto simp: distinct_delete graph_fun_upd_None)

lemma tracks_set: "set rs = set rs' \<Longrightarrow> tracks rs ua \<longleftrightarrow> tracks rs' ua"
  by (simp add: tracks_def)

lemma tracks_lookup:
  assumes "tracks rs ua" and "r \<in> set rs"
  shows "\<exists>u. map_of ua (pos_of (fst r)) = Some u \<and> span_of u = enc_range r"
proof -
  have "(pos_of (fst r), enc_range r) \<in> Map.graph (spans ua)" using assms by (auto simp: tracks_def)
  then show ?thesis by (simp add: in_graphD spans_eq_Some [symmetric])
qed

lemma tracks_range:
  assumes "tracks rs ua" and "map_of ua k = Some u"
  shows "\<exists>r\<in>set rs. k = pos_of (fst r) \<and> ur_start u = pos_of (fst r) \<and> ur_end u = pos_of (snd r)"
proof -
  have "(k, span_of u) \<in> Map.graph (spans ua)" using assms(2) by (simp add: in_graphI spans_eq_Some)
  then obtain r where "r \<in> set rs" "k = pos_of (fst r)" "span_of u = enc_range r"
    using assms(1) by (auto simp: tracks_def)
  then show ?thesis by (auto simp: span_of_def map_prod_def split_beta)
qed

lemma send_starts_inj:
  assumes inv: "send_inv f U rs w" and r: "r \<in> set rs" "r' \<in> set rs" and eq: "pos_of (fst r) = pos_of (fst r')"
  shows "r = r'"
proof -
  have "\<bar>fst r - fst r'\<bar> < 2 ^ 32"
    using send_range_bounds [OF inv r(1)] send_range_bounds [OF inv r(2)] send_inv_sizes(2) [OF inv] by auto
  with eq have "fst r = fst r'" by (simp add: pos_of_eq_iff)
  moreover obtain i j where "i < length rs" "r = rs ! i" "j < length rs" "r' = rs ! j"
    using r by (auto simp: in_set_conv_nth)
  ultimately show ?thesis
    using below_start [OF send_invD(6) [OF inv]] by metis
qed

text \<open>Instants the task has kept were read from its clock; a timer whose clock never runs backwards.\<close>

definition monotonic_timer :: "'i timer \<Rightarrow> bool" where
  "monotonic_timer tm \<longleftrightarrow> (\<forall>i j. i \<le> j \<longrightarrow> duration_between tm (clock tm i) (clock tm j) \<noteq> None)"

definition instants_ok :: "'i timer \<Rightarrow> 'i task \<Rightarrow> bool" where
  "instants_ok tm tk \<longleftrightarrow> last_calculation (limiter tk) \<in> clock tm ` {..<clock_reads tk} \<and>
     (\<forall>u\<in>snd ` set (unacked tk). set_option (last_sent u) \<subseteq> clock tm ` {..<clock_reads tk})"

definition max_payload :: "'i task \<Rightarrow> nat" where
  "max_payload tk = min i16_max (pool_capacity tk - 6)"

definition task_inv ::
  "'i timer \<Rightarrow> (int \<Rightarrow> byte) \<Rightarrow> int \<Rightarrow> range list \<Rightarrow> 'i task \<Rightarrow> bool" where
  "task_inv tm f U rs tk \<longleftrightarrow>
     send_inv f U rs (send_window tk) \<and> tracks rs (unacked tk) \<and>
     (\<forall>r\<in>set rs. snd r - fst r \<le> int (max_payload tk)) \<and>
     10 \<le> pool_capacity tk \<and> pool_capacity tk \<le> u32_max \<and>
     remote_recv_available tk \<le> u32_max \<and> instants_ok tm tk \<and>
     limiter_ok (pool_capacity tk) (limiter tk)"

lemma task_invD:
  assumes "task_inv tm f U rs tk"
  shows "send_inv f U rs (send_window tk)" "tracks rs (unacked tk)"
    "\<And>r. r \<in> set rs \<Longrightarrow> snd r - fst r \<le> int (max_payload tk)"
    "10 \<le> pool_capacity tk" "pool_capacity tk \<le> u32_max" "remote_recv_available tk \<le> u32_max"
    "instants_ok tm tk" "limiter_ok (pool_capacity tk) (limiter tk)"
  using assms by (auto simp: task_inv_def)

lemma snd_set_update: "snd ` set (AList.update k v xs) \<subseteq> insert v (snd ` set xs)"
  by (induction xs) auto

lemma snd_set_delete: "snd ` set (AList.delete k xs) \<subseteq> snd ` set xs"
  by (auto simp: AList.delete_eq)

text \<open>A clock read keeps the kept instants good.\<close>

lemma clock_read_mono: "clock tm ` {..<n} \<subseteq> clock tm ` {..<Suc n}"
  by (intro image_mono) auto

lemma instants_update:
  assumes "instants_ok tm tk" and "clock_reads tk \<le> clock_reads tk'"
    and "last_calculation (limiter tk') = last_calculation (limiter tk) \<or>
      last_calculation (limiter tk') \<in> clock tm ` {..<clock_reads tk'}"
    and "\<And>u. u \<in> snd ` set (unacked tk') \<Longrightarrow> u \<in> snd ` set (unacked tk) \<or>
      set_option (last_sent u) \<subseteq> clock tm ` {..<clock_reads tk'}"
  shows "instants_ok tm tk'"
proof -
  have m: "clock tm ` {..<clock_reads tk} \<subseteq> clock tm ` {..<clock_reads tk'}"
    using assms(2) by (intro image_mono) auto
  have l: "last_calculation (limiter tk) \<in> clock tm ` {..<clock_reads tk'}"
    and u: "\<And>u. u \<in> snd ` set (unacked tk) \<Longrightarrow> set_option (last_sent u) \<subseteq> clock tm ` {..<clock_reads tk'}"
    using m assms(1) unfolding instants_ok_def by (blast intro: subsetD, metis order.trans)
  show ?thesis unfolding instants_ok_def using l u assms(3,4) by metis
qed

lemma elapsed_ok:
  assumes "monotonic_timer tm" and "t \<in> clock tm ` {..<clock_reads tk}"
  shows "\<exists>d. duration_between tm t (clock tm (clock_reads tk)) = Some d"
  using assms unfolding monotonic_timer_def by (metis imageE lessThan_iff less_imp_le not_Some_eq)

lemma bandwidth_update_inv:
  assumes inv: "task_inv tm f U rs tk" and mono: "monotonic_timer tm"
  shows "\<exists>tk'. Task_update_bandwidth tm tk = Some tk' \<and> task_inv tm f U rs tk' \<and>
     tk' = tk\<lparr>limiter := limiter tk', clock_reads := clock_reads tk'\<rparr>"
proof -
  note i = task_invD [OF inv]
  have "last_calculation (limiter tk) \<in> clock tm ` {..<clock_reads tk}"
    using i(7) by (simp add: instants_ok_def)
  from elapsed_ok [OF mono this] obtain l where
    l: "update_available (duration_between tm) (limiter tk) (clock tm (clock_reads tk)) = Some l"
    by (auto simp: update_available_def Let_def)
  note u = update_available_credit [OF i(8) l]
  let ?tk = "tk\<lparr>clock_reads := Suc (clock_reads tk), limiter := l\<rparr>"
  have "Task_update_bandwidth tm tk = Some ?tk"
    using l by (simp add: Task_update_bandwidth_def timer_now_def)
  moreover have "instants_ok tm ?tk"
    by (rule instants_update [OF i(7)]) (simp_all add: u(3))
  then have "task_inv tm f U rs ?tk" using inv u(1) by (simp add: task_inv_def max_payload_def)
  ultimately show ?thesis by (intro exI [of _ ?tk]) simp
qed


subsection \<open>Sending\<close>

text \<open>A data packet that carries a piece of the stream \<open>f\<close> between \<open>lo\<close> and \<open>hi\<close>.\<close>

definition data_of :: "(int \<Rightarrow> byte) \<Rightarrow> int \<Rightarrow> int \<Rightarrow> byte list \<Rightarrow> bool" where
  "data_of f lo hi p \<longleftrightarrow> (\<exists>a n. p = data_packet (pos_of a) (stream_bytes f a n) \<and>
     lo \<le> a \<and> a + int n \<le> hi \<and> 0 < n \<and> n \<le> i16_max)"

definition same_frame :: "'i task \<Rightarrow> 'i task \<Rightarrow> bool" where
  "same_frame tk tk' \<longleftrightarrow> settings tk' = settings tk \<and> pool_capacity tk' = pool_capacity tk \<and>
     outgoing_open tk' = outgoing_open tk \<and> recv_window tk' = recv_window tk"

text \<open>Positions that were sent and are no longer waiting for an acknowledgement.\<close>

definition settled :: "int \<Rightarrow> range list \<Rightarrow> send_window \<Rightarrow> int set" where
  "settled U rs w = {..<U + int (sent w)} - range_set rs"

text \<open>The number of bytes a call of \<open>send\<close> sends.\<close>

definition send_amount :: "'i task \<Rightarrow> nat" where
  "send_amount tk = (if bytes_available (limiter tk)
     then min (min (rb_count (sw_ring (send_window tk)) - sent (send_window tk)) (remote_recv_available tk))
            (max_payload tk) else 0)"

lemma send_available_ok:
  assumes inv: "send_inv f U rs w"
  shows "SendWindow_send_available w = Some (rb_count (sw_ring w) - sent w)"
  using send_invD(1-3) [OF inv] rb_okD(6) [OF send_invD(1) [OF inv]]
  by (simp add: SendWindow_send_available_def read_available_count checked_simps u32_max_def as_u32_def)

lemma payload_amount:
  fixes a c :: nat
  assumes "10 \<le> c" and "c \<le> u32_max"
  shows "min (min a i16_max) (as_u32 (c - 6)) = min a (min i16_max (c - 6))"
    "(min a i16_max = 0) = (min a (min i16_max (c - 6)) = 0)" "usize_sub c 6 = Some (c - 6)"
  using assms by (auto simp: as_u32_def u32_max_def i16_max_def checked_simps)

lemma Task_send_idle:
  assumes inv: "task_inv tm f U rs tk" and "send_amount tk = 0"
  shows "Task_send tm tk = Some (tk, Inr ())"
proof (cases "bytes_available (limiter tk)")
  case True
  note i = task_invD [OF inv]
  have "min (min (rb_count (sw_ring (send_window tk)) - sent (send_window tk)) (remote_recv_available tk)) i16_max = 0"
    using assms(2) True payload_amount(2) [OF i(4,5)] by (simp add: send_amount_def max_payload_def)
  then show ?thesis using True send_available_ok [OF i(1)] by (simp add: Task_send_def Let_def)
qed (simp add: Task_send_def)

lemma Task_send_sends:
  assumes inv: "task_inv tm f U rs tk" and pos: "0 < send_amount tk"
  defines "n \<equiv> send_amount tk" and "a \<equiv> U + int (sent (send_window tk))"
  shows "\<exists>sw u. send_inv f U (rs @ [(a, a + int n)]) sw \<and> sent sw = sent (send_window tk) + n \<and>
     sw_ring sw = sw_ring (send_window tk) \<and> span_of u = enc_range (a, a + int n) \<and>
     last_sent u = Some (clock tm (clock_reads tk)) \<and>
     (let tk' = tk\<lparr>clock_reads := Suc (clock_reads tk), send_window := sw,
        unacked := AList.update (pos_of a) u (unacked tk), limiter := take_bytes (limiter tk) (6 + n)\<rparr>;
        p = data_packet (pos_of a) (stream_bytes f a n)
      in Task_send tm tk = Some (if outgoing_open tk
         then (tk'\<lparr>outgoing := outgoing tk @ [p],
                 remote_recv_available := remote_recv_available tk - n\<rparr>, Inr ())
         else (tk', Inl Disconnected)))"
proof -
  note i = task_invD [OF inv]
  let ?w = "send_window tk"
  have credit: "bytes_available (limiter tk)" using pos by (simp add: send_amount_def split: if_splits)
  have n: "n = min (min (rb_count (sw_ring ?w) - sent ?w) (remote_recv_available tk)) (min i16_max (pool_capacity tk - 6))"
    using credit by (simp add: n_def send_amount_def max_payload_def)
  then have nb: "n \<le> rb_count (sw_ring ?w) - sent ?w" "n \<le> remote_recv_available tk" "n \<le> i16_max"
    "6 + n \<le> pool_capacity tk" using i(4) by linarith+
  have amt: "min (min (min (rb_count (sw_ring ?w) - sent ?w) (remote_recv_available tk)) i16_max)
      (as_u32 (pool_capacity tk - 6)) = n"
    using payload_amount(1) [OF i(4,5)] n by simp
  have nz: "(min (min (rb_count (sw_ring ?w) - sent ?w) (remote_recv_available tk)) i16_max = 0) = False"
    using payload_amount(2) [OF i(4,5)] pos n by (simp add: n_def)
  have m: "min (length (replicate n (0 :: byte))) (rb_count (sw_ring ?w) - sent ?w) = n" using nb by simp
  obtain sw where sw: "SendWindow_send ?w (replicate n 0) =
      Some (sw, stream_bytes f a n, Some (pos_of a, pos_of (a + int n)))"
    "send_inv f U (rs @ [(a, a + int n)]) sw" "sent sw = sent ?w + n" "sw_ring sw = sw_ring ?w"
    using send_some [OF i(1), of "replicate n 0", unfolded m] pos by (auto simp: n_def a_def)
  have un: "unat (pos_of (a + int n) - pos_of a) = n"
    using nb(3) by (subst unat_pos_of_diff) (auto simp: i16_max_def)
  define u where "u = \<lparr>ur_start = pos_of a, ur_end = pos_of (a + int n),
    last_sent = Some (clock tm (clock_reads tk)), retransmit = False\<rparr>"
  define p where "p = vec_resize [] (6 + n) (0 :: byte)"
  note b = build_data_packet(1-3) [OF length_stream_bytes [of f a n] nb(3,4), folded p_def]
  from b(3) [of "pos_of a"] obtain p1 p2 where cp: "copy_at p 6 (stream_bytes f a n) = Some p1"
    "copy_at p1 0 (write_i16 (as_i16 n)) = Some p2"
    "copy_at p2 2 (write_u32 (pos_of a)) = Some (data_packet (pos_of a) (stream_bytes f a n))"
    by (auto simp: option_bind_eq_Some)
  have len: "as_u32 (6 + n) = 6 + n" using nb(3) by (simp add: as_u32_def i16_max_def)
  have "Task_send tm tk = (let tk' = tk\<lparr>clock_reads := Suc (clock_reads tk), send_window := sw,
        unacked := AList.update (pos_of a) u (unacked tk), limiter := take_bytes (limiter tk) (6 + n)\<rparr>
      in Some (if outgoing_open tk
         then (tk'\<lparr>outgoing := outgoing tk @ [data_packet (pos_of a) (stream_bytes f a n)],
                 remote_recv_available := remote_recv_available tk - n\<rparr>, Inr ())
         else (tk', Inl Disconnected)))"
    unfolding Task_send_def Let_def
    by (simp add: credit send_available_ok [OF i(1)] nz amt payload_amount(3) [OF i(4,5)] b(1,2)
        sw(1) un cp timer_now_def and_then_def send_packet_def u_def nb(2) u32_sub_ok len)
  moreover have "span_of u = enc_range (a, a + int n)" "last_sent u = Some (clock tm (clock_reads tk))"
    by (simp_all add: u_def span_of_def)
  ultimately show ?thesis using sw(2-4) unfolding Let_def by blast
qed

lemma limiter_take:
  assumes inv: "task_inv tm f U rs tk" and "bytes_available (limiter tk)" and "6 + n \<le> pool_capacity tk"
  shows "limiter_ok (pool_capacity tk) (take_bytes (limiter tk) (6 + n))"
  using task_invD(5,8) [OF inv] assms(2,3) by (intro take_bytes_debt) simp_all

lemma last_calculation_take_bytes [simp]: "last_calculation (take_bytes l n) = last_calculation l"
  by (simp add: take_bytes_def)

lemma send_amount_bounds:
  assumes inv: "task_inv tm f U rs tk" and n: "n = send_amount tk" "0 < n"
  shows "bytes_available (limiter tk)" "n \<le> max_payload tk" "n \<le> i16_max" "6 + n \<le> pool_capacity tk"
proof -
  show "bytes_available (limiter tk)" using n by (simp add: send_amount_def split: if_splits)
  show le: "n \<le> max_payload tk" using n by (simp add: send_amount_def split: if_splits)
  then show "n \<le> i16_max" "6 + n \<le> pool_capacity tk"
    using task_invD(4) [OF inv] by (auto simp: max_payload_def)
qed

text \<open>Recording a range that was just sent.\<close>

lemma task_inv_record:
  assumes inv: "task_inv tm f U rs tk" and sw: "send_inv f U (rs @ [(a, a + int n)]) sw"
    and u: "span_of u = enc_range (a, a + int n)" "last_sent u = Some (clock tm (clock_reads tk))"
    and n: "0 < n" "n \<le> max_payload tk" "6 + n \<le> pool_capacity tk" and credit: "bytes_available (limiter tk)"
    and a: "a = U + int (sent (send_window tk))"
  shows "task_inv tm f U (rs @ [(a, a + int n)]) (tk\<lparr>clock_reads := Suc (clock_reads tk), send_window := sw,
     unacked := AList.update (pos_of a) u (unacked tk), limiter := take_bytes (limiter tk) (6 + n)\<rparr>)"
    (is "task_inv tm f U ?rs ?tk")
proof -
  note i = task_invD [OF inv]
  have "\<forall>r\<in>set rs. pos_of (fst r) \<noteq> pos_of a"
  proof
    fix r assume r: "r \<in> set rs"
    have "(a, a + int n) \<in> set ?rs" "r \<in> set ?rs" using r by auto
    from send_starts_inj [OF sw this(2,1)] send_range_bounds [OF i(1) r] n(1)
    show "pos_of (fst r) \<noteq> pos_of a" by (auto simp: a)
  qed
  then have "tracks ?rs (unacked ?tk)" using tracks_update [OF i(2) _ u(1)] by simp
  moreover have "instants_ok tm ?tk"
  proof (rule instants_update [OF i(7)])
    fix v assume "v \<in> snd ` set (unacked ?tk)"
    then have "v = u \<or> v \<in> snd ` set (unacked tk)"
      using snd_set_update [of "pos_of a" u "unacked tk"] by auto
    then show "v \<in> snd ` set (unacked tk) \<or> set_option (last_sent v) \<subseteq> clock tm ` {..<clock_reads ?tk}"
      using u(2) by auto
  qed simp_all
  ultimately show ?thesis
    using inv sw limiter_take [OF inv credit n(3)] n(2) by (auto simp: task_inv_def max_payload_def)
qed

lemma Task_send_effect:
  assumes inv: "task_inv tm f U rs tk" and n: "n = send_amount tk" "0 < n"
    and a: "a = U + int (sent (send_window tk))"
  shows "\<exists>tk'. Task_send tm tk = Some (tk', if outgoing_open tk then Inr () else Inl Disconnected) \<and>
     task_inv tm f U (rs @ [(a, a + int n)]) tk' \<and> same_frame tk tk' \<and>
     sw_ring (send_window tk') = sw_ring (send_window tk) \<and>
     sent (send_window tk') = sent (send_window tk) + n \<and>
     limiter tk' = take_bytes (limiter tk) (6 + n) \<and>
     outgoing tk' = outgoing tk @ (if outgoing_open tk then [data_packet (pos_of a) (stream_bytes f a n)] else []) \<and>
     (outgoing_open tk \<longrightarrow> remote_recv_available tk' = remote_recv_available tk - n)"
proof -
  note b = send_amount_bounds [OF inv n]
  have pos: "0 < send_amount tk" using n by simp
  obtain sw u where sw: "send_inv f U (rs @ [(a, a + int n)]) sw" "sent sw = sent (send_window tk) + n"
    "sw_ring sw = sw_ring (send_window tk)" "span_of u = enc_range (a, a + int n)"
    "last_sent u = Some (clock tm (clock_reads tk))"
    and eq: "let tk' = tk\<lparr>clock_reads := Suc (clock_reads tk), send_window := sw,
        unacked := AList.update (pos_of a) u (unacked tk), limiter := take_bytes (limiter tk) (6 + n)\<rparr>;
        p = data_packet (pos_of a) (stream_bytes f a n)
      in Task_send tm tk = Some (if outgoing_open tk
         then (tk'\<lparr>outgoing := outgoing tk @ [p],
                 remote_recv_available := remote_recv_available tk - n\<rparr>, Inr ())
         else (tk', Inl Disconnected))"
    using Task_send_sends [OF inv pos] unfolding n(1) [symmetric] a [symmetric] by blast
  define tk1 where "tk1 = tk\<lparr>clock_reads := Suc (clock_reads tk), send_window := sw,
        unacked := AList.update (pos_of a) u (unacked tk), limiter := take_bytes (limiter tk) (6 + n)\<rparr>"
  have inv1: "task_inv tm f U (rs @ [(a, a + int n)]) tk1"
    unfolding tk1_def using inv sw(1,4,5) n(2) b(2,4,1) a by (rule task_inv_record)
  define tk2 where "tk2 = (if outgoing_open tk
    then tk1\<lparr>outgoing := outgoing tk @ [data_packet (pos_of a) (stream_bytes f a n)],
           remote_recv_available := remote_recv_available tk - n\<rparr> else tk1)"
  have "task_inv tm f U (rs @ [(a, a + int n)]) tk2"
    using inv1 task_invD(6) [OF inv] by (auto simp: task_inv_def tk2_def max_payload_def instants_ok_def tk1_def)
  moreover have "Task_send tm tk = Some (tk2, if outgoing_open tk then Inr () else Inl Disconnected)"
    using eq by (simp add: Let_def tk2_def tk1_def)
  ultimately show ?thesis using sw(2,3)
    by (intro exI [of _ tk2]) (simp add: same_frame_def tk2_def tk1_def)
qed

lemma settled_send:
  assumes "send_inv f U rs w" and "sent w' = sent w + n" and "a = U + int (sent w)"
  shows "settled U (rs @ [(a, a + int n)]) w' = settled U rs w"
proof -
  have "range_set rs \<subseteq> {..<a}"
    using send_range_bounds(3) [OF assms(1)] unfolding range_set_def assms(3) by fastforce
  then show ?thesis using assms(2) unfolding settled_def assms(3) by auto
qed

lemma Task_send_inv:
  assumes inv: "task_inv tm f U rs tk"
  shows "\<exists>tk' r rs' ps. Task_send tm tk = Some (tk', r) \<and> task_inv tm f U rs' tk' \<and> same_frame tk tk' \<and>
     sw_ring (send_window tk') = sw_ring (send_window tk) \<and>
     sent (send_window tk) \<le> sent (send_window tk') \<and>
     (outgoing_open tk \<longrightarrow> r = Inr ()) \<and> outgoing tk' = outgoing tk @ ps \<and>
     (\<forall>p\<in>set ps. data_of f U (U + int (sent (send_window tk'))) p) \<and>
     settled U rs' (send_window tk') = settled U rs (send_window tk)"
proof (cases "send_amount tk = 0")
  case True
  then show ?thesis using Task_send_idle [OF inv] inv
    by (intro exI [of _ tk] exI [of _ "Inr ()"] exI [of _ rs] exI [of _ "[]"]) (simp add: same_frame_def)
next
  case False
  define n where "n = send_amount tk"
  define a where "a = U + int (sent (send_window tk))"
  have n: "0 < n" "n \<le> i16_max" using False send_amount_bounds(3) [OF inv n_def] by (auto simp: n_def)
  from Task_send_effect [OF inv n_def n(1) a_def] obtain tk' where
    t: "Task_send tm tk = Some (tk', if outgoing_open tk then Inr () else Inl Disconnected)"
    "task_inv tm f U (rs @ [(a, a + int n)]) tk'" "same_frame tk tk'"
    "sw_ring (send_window tk') = sw_ring (send_window tk)" "sent (send_window tk') = sent (send_window tk) + n"
    "outgoing tk' = outgoing tk @ (if outgoing_open tk then [data_packet (pos_of a) (stream_bytes f a n)] else [])"
    by blast
  have "data_of f U (U + int (sent (send_window tk'))) (data_packet (pos_of a) (stream_bytes f a n))"
    unfolding data_of_def using n t(5) by (intro exI [of _ a] exI [of _ n]) (simp add: a_def)
  moreover have "settled U (rs @ [(a, a + int n)]) (send_window tk') = settled U rs (send_window tk)"
    using settled_send [OF task_invD(1) [OF inv] t(5) a_def] .
  ultimately show ?thesis using t
    by (intro exI [of _ tk'] exI [of _ "if outgoing_open tk then Inr () else Inl Disconnected"]
        exI [of _ "rs @ [(a, a + int n)]"]
        exI [of _ "if outgoing_open tk then [data_packet (pos_of a) (stream_bytes f a n)] else []"]) simp
qed

subsection \<open>Resending\<close>

lemma resend_due_ok:
  assumes inv: "task_inv tm f U rs tk" and mono: "monotonic_timer tm" and u: "map_of (unacked tk) k = Some u"
  shows "\<exists>due. resend_due tm tk u =
       Some (tk\<lparr>clock_reads := clock_reads tk + (if last_sent u = None then 0 else 1)\<rparr>, due) \<and>
     (last_sent u = None \<longrightarrow> due)"
proof (cases "last_sent u")
  case None
  then show ?thesis by (auto simp: resend_due_def)
next
  case (Some t)
  have "u \<in> snd ` set (unacked tk)" using map_of_SomeD [OF u] by force
  then have "t \<in> clock tm ` {..<clock_reads tk}"
    using task_invD(7) [OF inv] Some unfolding instants_ok_def by fastforce
  from elapsed_ok [OF mono this] Some show ?thesis by (auto simp: resend_due_def timer_now_def)
qed

lemma task_inv_clock:
  assumes "task_inv tm f U rs tk"
  shows "task_inv tm f U rs (tk\<lparr>clock_reads := clock_reads tk + n\<rparr>)"
proof -
  have "instants_ok tm (tk\<lparr>clock_reads := clock_reads tk + n\<rparr>)"
    by (rule instants_update [OF task_invD(7) [OF assms]]) simp_all
  with assms show ?thesis by (simp add: task_inv_def max_payload_def)
qed

lemma resend_range_sends:
  assumes inv: "task_inv tm f U rs tk" and u: "map_of (unacked tk) k = Some u"
  shows "\<exists>r\<in>set rs. k = pos_of (fst r) \<and> (let n = nat (snd r - fst r);
       p = data_packet k (stream_bytes f (fst r) n);
       tk1 = tk\<lparr>clock_reads := Suc (clock_reads tk),
         unacked := AList.update k (u\<lparr>last_sent := Some (clock tm (clock_reads tk)), retransmit := True\<rparr>) (unacked tk),
         limiter := take_bytes (limiter tk) (6 + n)\<rparr>
     in 0 < n \<and> n \<le> max_payload tk \<and> resend_range tm tk k u = Some (send_packet tk1 p))"
proof -
  note i = task_invD [OF inv]
  from tracks_range [OF i(2) u] obtain r where r: "r \<in> set rs" "k = pos_of (fst r)"
    "ur_start u = pos_of (fst r)" "ur_end u = pos_of (snd r)" by blast
  note b = send_range_bounds [OF i(1) r(1)]
  define n where "n = nat (snd r - fst r)"
  have sn: "snd r = fst r + int n" "0 < n" using b(2) by (simp_all add: n_def)
  have n: "n \<le> max_payload tk" using i(3) [OF r(1)] sn by simp
  then have nb: "n \<le> i16_max" "6 + n \<le> pool_capacity tk" using i(4) by (auto simp: max_payload_def)
  have len: "unat (ur_end u - ur_start u) = n"
    using nb(1) b(2) sn unfolding r(3,4) by (subst unat_pos_of_diff) (auto simp: i16_max_def)
  define p where "p = vec_resize [] (6 + n) (0 :: byte)"
  note bp = build_data_packet [OF length_stream_bytes [of f "fst r" n] nb, folded p_def]
  from bp(4) [of "pos_of (fst r)"] obtain p1 where cp: "copy_at p 0 (write_i16 (as_i16 n)) = Some p1"
    "copy_at p1 2 (write_u32 (pos_of (fst r))) = Some (data_packet (pos_of (fst r)) (replicate n 0))"
    by (auto simp: option_bind_eq_Some)
  have g: "SendWindow_get_unacked (send_window tk) (pos_of (fst r)) (replicate n 0) =
      Some (stream_bytes f (fst r) n)"
    using get_unacked_bytes [OF i(1), of "fst r" "replicate n 0"] b sn send_invD(3) [OF i(1)] by simp
  have sl: "slice (data_packet (pos_of (fst r)) (replicate n 0)) 6 (6 + n) = Some (replicate n (0 :: byte))"
    using parse_data_packet(3) [of "replicate n 0" "pos_of (fst r)"] nb(1) by simp
  have a: "as_u32 (6 + n) = 6 + n" using nb(1) by (simp add: as_u32_def i16_max_def)
  have "resend_range tm tk k u = Some (send_packet (tk\<lparr>clock_reads := Suc (clock_reads tk),
         unacked := AList.update k (u\<lparr>last_sent := Some (clock tm (clock_reads tk)), retransmit := True\<rparr>) (unacked tk),
         limiter := take_bytes (limiter tk) (6 + n)\<rparr>) (data_packet k (stream_bytes f (fst r) n)))"
    unfolding resend_range_def Let_def
    by (simp add: timer_now_def len [unfolded r(3)] bp(1) cp r(2,3) sl g bp(5) a)
  then show ?thesis using r(1,2) n sn(2) by (intro bexI [of _ r]) (simp_all add: n_def Let_def)
qed

lemma resend_range_inv:
  assumes inv: "task_inv tm f U rs tk" and u: "map_of (unacked tk) k = Some u"
    and credit: "bytes_available (limiter tk)"
  shows "\<exists>tk' res ps. resend_range tm tk k u = Some (tk', res) \<and> task_inv tm f U rs tk' \<and>
     same_frame tk tk' \<and> send_window tk' = send_window tk \<and>
     fst ` set (unacked tk') = fst ` set (unacked tk) \<and>
     remote_recv_available tk' = remote_recv_available tk \<and>
     (outgoing_open tk \<longrightarrow> res = Inr ()) \<and> outgoing tk' = outgoing tk @ ps \<and>
     (\<forall>p\<in>set ps. data_of f U (U + int (sent (send_window tk))) p)"
proof -
  note i = task_invD [OF inv]
  define v where "v = u\<lparr>last_sent := Some (clock tm (clock_reads tk)), retransmit := True\<rparr>"
  obtain r where r: "r \<in> set rs" "k = pos_of (fst r)" and eq: "let n = nat (snd r - fst r);
       p = data_packet k (stream_bytes f (fst r) n);
       tk1 = tk\<lparr>clock_reads := Suc (clock_reads tk), unacked := AList.update k v (unacked tk),
         limiter := take_bytes (limiter tk) (6 + n)\<rparr>
     in 0 < n \<and> n \<le> max_payload tk \<and> resend_range tm tk k u = Some (send_packet tk1 p)"
    using resend_range_sends [OF inv u] unfolding v_def by blast
  define n where "n = nat (snd r - fst r)"
  define p where "p = data_packet k (stream_bytes f (fst r) n)"
  define tk1 where "tk1 = tk\<lparr>clock_reads := Suc (clock_reads tk), unacked := AList.update k v (unacked tk),
         limiter := take_bytes (limiter tk) (6 + n)\<rparr>"
  have n: "0 < n" "n \<le> max_payload tk" and code: "resend_range tm tk k u = Some (send_packet tk1 p)"
    using eq by (simp_all add: n_def Let_def tk1_def p_def)
  have n6: "6 + n \<le> pool_capacity tk" "n \<le> i16_max" using n i(4) by (auto simp: max_payload_def)
  have "tracks rs (unacked tk1)"
    using tracks_touch [OF i(2) u, of v] by (simp add: tk1_def v_def span_of_def)
  moreover have "instants_ok tm tk1"
  proof (rule instants_update [OF i(7)])
    fix x assume "x \<in> snd ` set (unacked tk1)"
    then have "x = v \<or> x \<in> snd ` set (unacked tk)"
      using snd_set_update [of k v "unacked tk"] by (auto simp: tk1_def)
    then show "x \<in> snd ` set (unacked tk) \<or> set_option (last_sent x) \<subseteq> clock tm ` {..<clock_reads tk1}"
      by (auto simp: tk1_def v_def)
  qed (simp_all add: tk1_def)
  ultimately have inv1: "task_inv tm f U rs tk1"
    using inv limiter_take [OF inv credit n6(1)] by (auto simp: task_inv_def tk1_def max_payload_def)
  have "k \<in> fst ` set (unacked tk)" using map_of_SomeD [OF u] by force
  then have keys: "fst ` set (unacked tk1) = fst ` set (unacked tk)"
    by (auto simp: tk1_def dom_update)
  define tk2 where "tk2 = tk1\<lparr>outgoing := outgoing tk @ [p]\<rparr>"
  have inv2: "task_inv tm f U rs tk2"
    using inv1 by (simp add: task_inv_def tk2_def max_payload_def instants_ok_def)
  have d: "data_of f U (U + int (sent (send_window tk))) p"
    unfolding data_of_def p_def r(2) using n n6(2) send_range_bounds [OF i(1) r(1)]
    by (intro exI [of _ "fst r"] exI [of _ n]) (simp add: n_def)
  show ?thesis
  proof (cases "outgoing_open tk")
    case True
    then have "resend_range tm tk k u = Some (tk2, Inr ())"
      using code by (simp add: send_packet_def tk2_def tk1_def)
    then show ?thesis using inv2 keys d
      by (intro exI [of _ tk2] exI [of _ "Inr ()"] exI [of _ "[p]"]) (auto simp: same_frame_def tk2_def tk1_def)
  next
    case False
    then have "resend_range tm tk k u = Some (tk1, Inl Disconnected)"
      using code by (simp add: send_packet_def tk1_def)
    then show ?thesis using inv1 keys False
      by (intro exI [of _ tk1] exI [of _ "Inl Disconnected"] exI [of _ "[]"])
        (auto simp: same_frame_def tk1_def)
  qed
qed

lemma same_frame_trans: "same_frame x y \<Longrightarrow> same_frame y z \<Longrightarrow> same_frame x z"
  by (simp add: same_frame_def)

lemma Task_resend_inv:
  assumes "task_inv tm f U rs tk" and "monotonic_timer tm" and "set ks \<subseteq> fst ` set (unacked tk)"
  shows "\<exists>tk' res ps. Task_resend tm tk ks = Some (tk', res) \<and> task_inv tm f U rs tk' \<and>
     same_frame tk tk' \<and> send_window tk' = send_window tk \<and>
     remote_recv_available tk' = remote_recv_available tk \<and>
     (outgoing_open tk \<longrightarrow> res = Inr ()) \<and> outgoing tk' = outgoing tk @ ps \<and>
     (\<forall>p\<in>set ps. data_of f U (U + int (sent (send_window tk))) p)"
  using assms
proof (induction ks arbitrary: tk)
  case Nil
  then show ?case by (auto simp: same_frame_def)
next
  case (Cons k ks)
  show ?case
  proof (cases "bytes_available (limiter tk)")
    case False
    with Cons.prems(1) show ?thesis by (auto simp: same_frame_def)
  next
    case credit: True
    obtain u where u: "map_of (unacked tk) k = Some u"
      using Cons.prems(3) by (metis insert_subset list.simps(15) map_of_eq_None_iff not_None_eq)
    define tk1 where "tk1 = tk\<lparr>clock_reads := clock_reads tk + (if last_sent u = None then 0 else 1)\<rparr>"
    obtain due where due: "resend_due tm tk u = Some (tk1, due)"
      using resend_due_ok [OF Cons.prems(1,2) u] unfolding tk1_def by blast
    have inv1: "task_inv tm f U rs tk1" unfolding tk1_def using Cons.prems(1) by (rule task_inv_clock)
    have same1: "same_frame tk tk1" "send_window tk1 = send_window tk" "unacked tk1 = unacked tk"
      "remote_recv_available tk1 = remote_recv_available tk" "outgoing tk1 = outgoing tk"
      "outgoing_open tk1 = outgoing_open tk" "limiter tk1 = limiter tk"
      by (simp_all add: tk1_def same_frame_def)
    obtain tk2 res ps where tk2: "(if due then resend_range tm tk1 k u else Some (tk1, Inr ())) = Some (tk2, res)"
      "task_inv tm f U rs tk2" "same_frame tk1 tk2" "send_window tk2 = send_window tk1"
      "fst ` set (unacked tk2) = fst ` set (unacked tk1)"
      "remote_recv_available tk2 = remote_recv_available tk1" "outgoing_open tk1 \<longrightarrow> res = Inr ()"
      "outgoing tk2 = outgoing tk1 @ ps" "\<forall>p\<in>set ps. data_of f U (U + int (sent (send_window tk1))) p"
    proof (cases due)
      case True
      then show thesis using resend_range_inv [OF inv1, of k u] u credit same1 that by auto
    next
      case False
      then show thesis using that [of tk1 "Inr ()" "[]"] inv1 by (simp add: same_frame_def)
    qed
    have code: "Task_resend tm tk (k # ks) =
        (case res of Inl e \<Rightarrow> Some (tk2, Inl e) | Inr _ \<Rightarrow> Task_resend tm tk2 ks)"
      using credit u due tk2(1) by (simp add: and_then_def)
    have frame: "same_frame tk tk2" using same1(1) tk2(3) by (rule same_frame_trans)
    show ?thesis
    proof (cases res)
      case (Inl e)
      then show ?thesis using code tk2 same1 frame
        by (intro exI [of _ tk2] exI [of _ res] exI [of _ ps]) auto
    next
      case (Inr x)
      have "set ks \<subseteq> fst ` set (unacked tk2)" using Cons.prems(3) tk2(5) same1(3) by simp
      from Cons.IH [OF tk2(2) Cons.prems(2) this] obtain tk3 res' ps' where
        tk3: "Task_resend tm tk2 ks = Some (tk3, res')" "task_inv tm f U rs tk3" "same_frame tk2 tk3"
        "send_window tk3 = send_window tk2" "remote_recv_available tk3 = remote_recv_available tk2"
        "outgoing_open tk2 \<longrightarrow> res' = Inr ()" "outgoing tk3 = outgoing tk2 @ ps'"
        "\<forall>p\<in>set ps'. data_of f U (U + int (sent (send_window tk2))) p" by blast
      have "same_frame tk tk3" using frame tk3(3) by (rule same_frame_trans)
      moreover have "outgoing_open tk2 = outgoing_open tk" using frame by (simp add: same_frame_def)
      ultimately show ?thesis using code Inr tk2 tk3 same1
        by (intro exI [of _ tk3] exI [of _ res'] exI [of _ "ps @ ps'"]) auto
    qed
  qed
qed


subsection \<open>What a pass of resends covers\<close>

text \<open>A range that was cut off by a partial acknowledgement waits without a time of sending.\<close>

definition resent :: "(int \<Rightarrow> byte) \<Rightarrow> range list \<Rightarrow> stream_pos \<Rightarrow> byte list list \<Rightarrow> bool" where
  "resent f rs k ps \<longleftrightarrow> (\<exists>r\<in>set rs. k = pos_of (fst r) \<and>
     data_packet k (stream_bytes f (fst r) (nat (snd r - fst r))) \<in> set ps)"

lemma resent_mono: "resent f rs k ps \<Longrightarrow> set ps \<subseteq> set ps' \<Longrightarrow> resent f rs k ps'"
  unfolding resent_def by blast

lemma resend_range_resent:
  assumes inv: "task_inv tm f U rs tk" and u: "map_of (unacked tk) k = Some u" and op: "outgoing_open tk"
  shows "\<exists>tk' v. resend_range tm tk k u = Some (tk', Inr ()) \<and> resent f rs k (outgoing tk') \<and>
     unacked tk' = AList.update k v (unacked tk)"
proof -
  from resend_range_sends [OF inv u] obtain r where
    r: "r \<in> set rs" "k = pos_of (fst r)" and eq: "let n = nat (snd r - fst r);
       p = data_packet k (stream_bytes f (fst r) n);
       tk1 = tk\<lparr>clock_reads := Suc (clock_reads tk),
         unacked := AList.update k (u\<lparr>last_sent := Some (clock tm (clock_reads tk)), retransmit := True\<rparr>) (unacked tk),
         limiter := take_bytes (limiter tk) (6 + n)\<rparr>
     in 0 < n \<and> n \<le> max_payload tk \<and> resend_range tm tk k u = Some (send_packet tk1 p)" by blast
  then show ?thesis using op by (auto simp: Let_def send_packet_def resent_def)
qed

lemma Task_resend_covers:
  assumes "task_inv tm f U rs tk" and "monotonic_timer tm" and "outgoing_open tk"
    and "set ks \<subseteq> fst ` set (unacked tk)" and "distinct ks"
    and "Task_resend tm tk ks = Some (tk', Inr ())" and "bytes_available (limiter tk')"
    and "k \<in> set ks" and "map_of (unacked tk) k = Some u" and "last_sent u = None"
  shows "resent f rs k (outgoing tk')"
  using assms
proof (induction ks arbitrary: tk)
  case (Cons j ks)
  have credit: "bytes_available (limiter tk)"
    using Cons.prems(6,7) by (auto split: if_splits)
  obtain v where v: "map_of (unacked tk) j = Some v"
    using Cons.prems(4) by (metis insert_subset list.simps(15) map_of_eq_None_iff not_None_eq)
  define tk1 where "tk1 = tk\<lparr>clock_reads := clock_reads tk + (if last_sent v = None then 0 else 1)\<rparr>"
  obtain due where due: "resend_due tm tk v = Some (tk1, due)" "last_sent v = None \<longrightarrow> due"
    using resend_due_ok [OF Cons.prems(1,2) v, folded tk1_def] by (elim exE conjE)
  have inv1: "task_inv tm f U rs tk1" unfolding tk1_def using Cons.prems(1) by (rule task_inv_clock)
  have same1: "unacked tk1 = unacked tk" "outgoing_open tk1" "limiter tk1 = limiter tk"
    using Cons.prems(3) by (simp_all add: tk1_def)
  obtain tk2 where tk2: "(if due then resend_range tm tk1 j v else Some (tk1, Inr ())) = Some (tk2, Inr ())"
    "task_inv tm f U rs tk2" "outgoing_open tk2" "fst ` set (unacked tk2) = fst ` set (unacked tk)"
    "due \<Longrightarrow> resent f rs j (outgoing tk2)" "\<And>i. i \<noteq> j \<Longrightarrow> map_of (unacked tk2) i = map_of (unacked tk) i"
  proof (cases due)
    case True
    have v1: "map_of (unacked tk1) j = Some v" "bytes_available (limiter tk1)" using v credit same1 by simp_all
    obtain tk2 x where r: "resend_range tm tk1 j v = Some (tk2, Inr ())" "resent f rs j (outgoing tk2)"
      "unacked tk2 = AList.update j x (unacked tk1)"
      using resend_range_resent [OF inv1 v1(1) same1(2)] by blast
    have "task_inv tm f U rs tk2" "same_frame tk1 tk2" "fst ` set (unacked tk2) = fst ` set (unacked tk1)"
      using resend_range_inv [OF inv1 v1] r(1) by auto
    then show thesis using that [of tk2] r same1 True by (simp add: same_frame_def update_conv)
  next
    case False
    then show thesis using that [of tk1] inv1 same1 by simp
  qed
  have code: "Task_resend tm tk2 ks = Some (tk', Inr ())"
    using Cons.prems(6) credit v due(1) tk2(1) by (simp add: and_then_def)
  have ks: "set ks \<subseteq> fst ` set (unacked tk2)" using Cons.prems(4) tk2(4) by simp
  show ?case
  proof (cases "k = j")
    case True
    then have "due" using due(2) v Cons.prems(9,10) by simp
    then have "resent f rs k (outgoing tk2)" using tk2(5) True by simp
    moreover have "set (outgoing tk2) \<subseteq> set (outgoing tk')"
      using Task_resend_inv [OF tk2(2) Cons.prems(2) ks] code by auto
    ultimately show ?thesis by (rule resent_mono)
  next
    case False
    then show ?thesis
      using Cons.IH [OF tk2(2) Cons.prems(2) tk2(3) ks _ code Cons.prems(7) _ _ Cons.prems(10)]
        Cons.prems(5,8,9) tk2(6) by simp
  qed
qed simp

end
