(* ===== verification/Reliable_Recv.thy ===== *)
theory Reliable_Recv
  imports Reliable_Task
begin

text \<open>
  Correctness of \<open>recv_packet\<close> and of a round of the main loop of the reliable channel's task.

  An acknowledgement, whatever positions it names, is either matched with a range of the send window
  and of the hash map, or ignored; it never panics. A data packet is stored and acknowledged, and the
  acknowledgement vouches only for positions that are stored. A round composes these with the
  bandwidth updates and with the measure against stalls.
\<close>

subsection \<open>Acknowledgements\<close>

text \<open>Only what the window, the map and the instants say matters to the invariant.\<close>

lemma task_inv_window:
  assumes inv: "task_inv tm f U rs tk" and "send_inv f U' rs' sw" and "tracks rs' ua"
    and "\<And>r. r \<in> set rs' \<Longrightarrow> \<exists>r0\<in>set rs. snd r - fst r \<le> snd r0 - fst r0"
    and "\<And>u. u \<in> snd ` set ua \<Longrightarrow> u \<in> snd ` set (unacked tk) \<or> last_sent u = None"
  shows "task_inv tm f U' rs' (tk\<lparr>send_window := sw, unacked := ua\<rparr>)"
proof -
  have "instants_ok tm (tk\<lparr>send_window := sw, unacked := ua\<rparr>)"
  proof (rule instants_update [OF task_invD(7) [OF inv]])
    fix u assume "u \<in> snd ` set (unacked (tk\<lparr>send_window := sw, unacked := ua\<rparr>))"
    then have "u \<in> snd ` set ua" by simp
    from assms(5) [OF this]
    show "u \<in> snd ` set (unacked tk) \<or> set_option (last_sent u) \<subseteq>
        clock tm ` {..<clock_reads (tk\<lparr>send_window := sw, unacked := ua\<rparr>)}" by auto
  qed simp_all
  moreover have "\<forall>r\<in>set rs'. snd r - fst r \<le> int (max_payload tk)"
    using assms(4) task_invD(3) [OF inv] by (meson order.trans)
  ultimately show ?thesis using inv assms(2,3) by (simp add: task_inv_def max_payload_def)
qed

lemma starts_apart:
  assumes inv: "send_inv f U rs w" and i: "i < length rs"
  shows "\<forall>r\<in>set (take i rs @ drop (Suc i) rs). pos_of (fst r) \<noteq> pos_of (fst (rs ! i))"
    "set rs = insert (rs ! i) (set (take i rs @ drop (Suc i) rs))"
proof -
  have split: "rs = take i rs @ rs ! i # drop (Suc i) rs" using i by (rule id_take_nth_drop)
  then have "set rs = set (take i rs @ rs ! i # drop (Suc i) rs)" by simp
  then show s: "set rs = insert (rs ! i) (set (take i rs @ drop (Suc i) rs))" by simp
  have o: "ordered (take i rs @ rs ! i # drop (Suc i) rs)" using send_invD(6) [OF inv] split by simp
  then have d: "rs ! i \<notin> set (take i rs @ drop (Suc i) rs)"
    using ordered_bounds [OF o] by (fastforce simp: ordered_append)
  show "\<forall>r\<in>set (take i rs @ drop (Suc i) rs). pos_of (fst r) \<noteq> pos_of (fst (rs ! i))"
  proof
    fix r assume r: "r \<in> set (take i rs @ drop (Suc i) rs)"
    then have "r \<in> set rs" "rs ! i \<in> set rs" using s by auto
    from send_starts_inj [OF inv this] d r show "pos_of (fst r) \<noteq> pos_of (fst (rs ! i))" by auto
  qed
qed

lemma ack_unacked_full:
  assumes inv: "task_inv tm f U rs tk" and a: "acks rs i (snd (rs ! i)) p q"
  shows "\<exists>u sw U'. map_of (unacked tk) p = Some u \<and> ur_end u = q \<and>
     ack_unacked tk p q = Some (tk\<lparr>send_window := sw, unacked := AList.delete p (unacked tk)\<rparr>, Some u) \<and>
     task_inv tm f U' (take i rs @ drop (Suc i) rs)
       (tk\<lparr>send_window := sw, unacked := AList.delete p (unacked tk)\<rparr>) \<and>
     freed_to U (send_window tk) U' sw"
proof -
  note v = task_invD [OF inv]
  let ?rs = "take i rs @ drop (Suc i) rs"
  have i: "i < length rs" and p: "p = pos_of (fst (rs ! i))" and q: "q = pos_of (snd (rs ! i))"
    using a by (auto simp: acks_def)
  obtain sw U' where sw: "SendWindow_ack_range (send_window tk) p q = Some (sw, Ack)"
    "send_inv f U' ?rs sw" "freed_to U (send_window tk) U' sw"
    using ack_full [OF v(1) a] by blast
  obtain u where u: "map_of (unacked tk) p = Some u" "span_of u = enc_range (rs ! i)"
    using tracks_lookup [OF v(2) nth_mem [OF i]] p by auto
  have q': "ur_end u = q" using u(2) q by (simp add: span_of_def map_prod_def split_beta)
  have "tracks ?rs (AList.delete p (unacked tk))"
    using tracks_delete [OF v(2) starts_apart [OF v(1) i]] p by simp
  moreover have "set ?rs \<subseteq> set rs" using starts_apart(2) [OF v(1) i] by auto
  ultimately have "task_inv tm f U' ?rs (tk\<lparr>send_window := sw, unacked := AList.delete p (unacked tk)\<rparr>)"
    using snd_set_delete [of p "unacked tk"] by (intro task_inv_window [OF inv sw(2)]) blast+
  moreover have "ack_unacked tk p q = Some (tk\<lparr>send_window := sw, unacked := AList.delete p (unacked tk)\<rparr>, Some u)"
    using sw(1) u(1) q' by (simp add: ack_unacked_def Let_def)
  ultimately show ?thesis using u(1) q' sw(3) by blast
qed

lemma ack_unacked_partial:
  assumes inv: "task_inv tm f U rs tk" and a: "acks rs i t p q" and t: "t < snd (rs ! i)"
  defines "rest \<equiv> \<lparr>ur_start = q, ur_end = pos_of (snd (rs ! i)), last_sent = None, retransmit = True\<rparr>"
  defines "ua \<equiv> AList.update q rest (AList.delete p (unacked tk))"
  shows "\<exists>u sw U'. map_of (unacked tk) p = Some u \<and>
     ack_unacked tk p q = Some (tk\<lparr>send_window := sw, unacked := ua\<rparr>, Some (u\<lparr>ur_end := q\<rparr>)) \<and>
     task_inv tm f U' (rs[i := (t, snd (rs ! i))]) (tk\<lparr>send_window := sw, unacked := ua\<rparr>) \<and>
     freed_to U (send_window tk) U' sw"
proof -
  note v = task_invD [OF inv]
  let ?rs = "rs[i := (t, snd (rs ! i))]" and ?r1 = "take i rs @ drop (Suc i) rs"
  have i: "i < length rs" and ft: "fst (rs ! i) < t" and p: "p = pos_of (fst (rs ! i))" and q: "q = pos_of t"
    using a by (auto simp: acks_def)
  obtain sw U' where sw: "SendWindow_ack_range (send_window tk) p q = Some (sw, PartialAck (pos_of (snd (rs ! i))))"
    "send_inv f U' ?rs sw" "freed_to U (send_window tk) U' sw"
    using ack_partial [OF v(1) a t] by blast
  obtain u where u: "map_of (unacked tk) p = Some u" "span_of u = enc_range (rs ! i)"
    using tracks_lookup [OF v(2) nth_mem [OF i]] p by auto
  have e: "ur_end u = pos_of (snd (rs ! i))" using u(2) by (simp add: span_of_def map_prod_def split_beta)
  have sets: "set ?rs = set (?r1 @ [(t, snd (rs ! i))])"
    using i by (simp add: upd_conv_take_nth_drop)
  have "i < length ?rs" using i by simp
  from starts_apart(1) [OF sw(2) this] i
  have new: "\<forall>r\<in>set ?r1. pos_of (fst r) \<noteq> pos_of t" by (simp add: drop_update_cancel)
  have "tracks ?r1 (AList.delete p (unacked tk))"
    using tracks_delete [OF v(2) starts_apart [OF v(1) i]] p by simp
  then have "tracks (?r1 @ [(t, snd (rs ! i))]) (AList.update (pos_of t) rest (AList.delete p (unacked tk)))"
    using new by (rule tracks_update) (simp add: rest_def span_of_def q)
  then have tr: "tracks ?rs ua" unfolding tracks_set [OF sets] ua_def q .
  have "task_inv tm f U' ?rs (tk\<lparr>send_window := sw, unacked := ua\<rparr>)"
  proof (rule task_inv_window [OF inv sw(2) tr])
    fix r assume "r \<in> set ?rs"
    then have "r = (t, snd (rs ! i)) \<or> r \<in> set rs"
      by (meson insert_iff set_update_subset_insert subsetD)
    then show "\<exists>r0\<in>set rs. snd r - fst r \<le> snd r0 - fst r0"
    proof
      assume "r = (t, snd (rs ! i))"
      then show ?thesis using ft nth_mem [OF i] by (intro bexI [of _ "rs ! i"]) auto
    qed blast
  next
    fix x assume "x \<in> snd ` set ua"
    then have "x = rest \<or> x \<in> snd ` set (unacked tk)"
      using snd_set_update [of q rest "AList.delete p (unacked tk)"] snd_set_delete [of p "unacked tk"]
      unfolding ua_def by blast
    then show "x \<in> snd ` set (unacked tk) \<or> last_sent x = None" by (auto simp: rest_def)
  qed
  moreover have "ack_unacked tk p q = Some (tk\<lparr>send_window := sw, unacked := ua\<rparr>, Some (u\<lparr>ur_end := q\<rparr>))"
    using sw(1) u(1) e by (simp add: ack_unacked_def Let_def ua_def rest_def)
  ultimately show ?thesis using u(1) sw(3) by blast
qed

text \<open>What an acknowledgement from \<open>p\<close> to \<open>q\<close> can stand for between \<open>lo\<close> and \<open>hi\<close>.\<close>

definition acked_between :: "int \<Rightarrow> int \<Rightarrow> stream_pos \<Rightarrow> stream_pos \<Rightarrow> int set" where
  "acked_between lo hi p q =
     {x. \<exists>s t. p = pos_of s \<and> q = pos_of t \<and> lo \<le> s \<and> s < t \<and> t \<le> hi \<and> s \<le> x \<and> x < t}"

lemma settled_ack:
  assumes inv: "send_inv f U rs w" and a: "acks rs i t p q" and "freed_to U w U' w'"
    and rs': "range_set rs' = range_set rs - {fst (rs ! i)..<t}"
  shows "settled U' rs' w' \<subseteq> settled U rs w \<union> acked_between U (U + int (sent w)) p q"
proof -
  have i: "i < length rs" "fst (rs ! i) < t" "t \<le> snd (rs ! i)" "p = pos_of (fst (rs ! i))" "q = pos_of t"
    using a by (auto simp: acks_def)
  note b = send_range_bounds [OF inv nth_mem [OF i(1)]]
  have "{fst (rs ! i)..<t} \<subseteq> acked_between U (U + int (sent w)) p q"
  proof
    fix x assume "x \<in> {fst (rs ! i)..<t}"
    then show "x \<in> acked_between U (U + int (sent w)) p q"
      unfolding acked_between_def mem_Collect_eq
      using i b by (intro exI [of _ "fst (rs ! i)"] exI [of _ t]) simp
  qed
  then show ?thesis using assms(3) rs' by (auto simp: settled_def freed_to_def)
qed

text \<open>Any acknowledgement: it is accepted, or it changes nothing.\<close>

lemma ack_unacked_inv:
  assumes inv: "task_inv tm f U rs tk"
  shows "\<exists>tk' acked U' rs'. ack_unacked tk p q = Some (tk', acked) \<and> task_inv tm f U' rs' tk' \<and>
     tk' = tk\<lparr>send_window := send_window tk', unacked := unacked tk'\<rparr> \<and>
     freed_to U (send_window tk) U' (send_window tk') \<and>
     (\<forall>a. acked = Some a \<longrightarrow> set_option (last_sent a) \<subseteq> clock tm ` {..<clock_reads tk}) \<and>
     settled U' rs' (send_window tk') \<subseteq> settled U rs (send_window tk) \<union>
       acked_between U (U + int (sent (send_window tk))) p q"
proof -
  note v = task_invD [OF inv]
  have kept: "set_option (last_sent u) \<subseteq> clock tm ` {..<clock_reads tk}" if "map_of (unacked tk) p = Some u" for u
  proof -
    have "u \<in> snd ` set (unacked tk)" using map_of_SomeD [OF that] by force
    then show ?thesis using task_invD(7) [OF inv] unfolding instants_ok_def by blast
  qed
  consider (no) "\<nexists>i t. acks rs i t p q" | (full) i where "acks rs i (snd (rs ! i)) p q"
    | (part) i t where "acks rs i t p q" "t < snd (rs ! i)"
    by (metis acks_def order_le_less)
  then show ?thesis
  proof cases
    case no
    from ack_not_found [OF task_invD(1) [OF inv] this] show ?thesis using inv
      by (intro exI [of _ tk] exI [of _ None] exI [of _ U] exI [of _ rs])
        (simp add: ack_unacked_def freed_to_def)
  next
    case full
    from ack_unacked_full [OF inv this] obtain u sw U' where
      s: "map_of (unacked tk) p = Some u"
      "ack_unacked tk p q = Some (tk\<lparr>send_window := sw, unacked := AList.delete p (unacked tk)\<rparr>, Some u)"
      "task_inv tm f U' (take i rs @ drop (Suc i) rs)
       (tk\<lparr>send_window := sw, unacked := AList.delete p (unacked tk)\<rparr>)" "freed_to U (send_window tk) U' sw"
      by blast
    have "i < length rs" using full by (simp add: acks_def)
    from settled_ack [OF v(1) full s(4) ordered_remove(2) [OF send_invD(6) [OF v(1)] this]]
    show ?thesis using s kept [OF s(1)]
      by (intro exI [of _ "tk\<lparr>send_window := sw, unacked := AList.delete p (unacked tk)\<rparr>"]
          exI [of _ "Some u"] exI [of _ U'] exI [of _ "take i rs @ drop (Suc i) rs"]) simp
  next
    case part
    from ack_unacked_partial [OF inv this] obtain u sw U' ua where
      s: "map_of (unacked tk) p = Some u"
      "ack_unacked tk p q = Some (tk\<lparr>send_window := sw, unacked := ua\<rparr>, Some (u\<lparr>ur_end := q\<rparr>))"
      "task_inv tm f U' (rs[i := (t, snd (rs ! i))]) (tk\<lparr>send_window := sw, unacked := ua\<rparr>)"
      "freed_to U (send_window tk) U' sw" by blast
    have i: "i < length rs" "fst (rs ! i) < t" using part by (auto simp: acks_def)
    from settled_ack [OF v(1) part(1) s(4) ordered_shorten(2) [OF send_invD(6) [OF v(1)] i part(2)]]
    show ?thesis using s kept [OF s(1)]
      by (intro exI [of _ "tk\<lparr>send_window := sw, unacked := ua\<rparr>"]
          exI [of _ "Some (u\<lparr>ur_end := q\<rparr>)"] exI [of _ U'] exI [of _ "rs[i := (t, snd (rs ! i))]"]) simp
  qed
qed


lemma update_rtt_ok:
  assumes "monotonic_timer tm" and "set_option (last_sent a) \<subseteq> clock tm ` {..<clock_reads tk}"
  shows "\<exists>x n. update_rtt tm tk a = Some (tk\<lparr>rtt_estimate := x, clock_reads := clock_reads tk + n\<rparr>)"
proof (cases "retransmit a \<or> last_sent a = None")
  case True
  then have "update_rtt tm tk a = Some tk" by (auto simp: update_rtt_def split: option.splits)
  then show ?thesis by (intro exI [of _ "rtt_estimate tk"] exI [of _ 0]) simp
next
  case False
  then obtain t where t: "last_sent a = Some t" "t \<in> clock tm ` {..<clock_reads tk}"
    using assms(2) by auto
  from elapsed_ok [OF assms(1) t(2)] obtain d where
    "duration_between tm t (clock tm (clock_reads tk)) = Some d" by blast
  with t(1) False show ?thesis
    unfolding update_rtt_def timer_now_def Let_def
    by (intro exI [of _ "f64_round (rtt_estimate tk + f64_round (f64_round
          (as_secs_f64 (min d (max_rtt (settings tk))) - rtt_estimate tk) * rtt_update_factor (settings tk)))"]
        exI [of _ 1]) simp
qed

lemma task_inv_cong:
  assumes "task_inv tm f U rs tk" and "send_window tk' = send_window tk" "unacked tk' = unacked tk"
    "pool_capacity tk' = pool_capacity tk" "remote_recv_available tk' \<le> u32_max"
    "limiter tk' = limiter tk" "clock_reads tk \<le> clock_reads tk'"
  shows "task_inv tm f U rs tk'"
proof -
  have "instants_ok tm tk'"
    by (rule instants_update [OF task_invD(7) [OF assms(1)]]) (use assms in simp_all)
  with assms show ?thesis by (simp add: task_inv_def max_payload_def)
qed

lemma unat_u32: "unat (w :: 32 word) \<le> u32_max"
proof -
  have "unat w < 2 ^ 32" using unsigned_less [of w] by simp
  then show ?thesis by (simp add: u32_max_def)
qed

lemma window_end_update_inv:
  assumes inv: "task_inv tm f U rs tk"
  shows "\<exists>tk' r rs' ps. recv_window_end_update tm tk e = Some (tk', r) \<and> task_inv tm f U rs' tk' \<and>
     same_frame tk tk' \<and> sw_ring (send_window tk') = sw_ring (send_window tk) \<and>
     sent (send_window tk) \<le> sent (send_window tk') \<and>
     (outgoing_open tk \<longrightarrow> r = Inr ()) \<and> outgoing tk' = outgoing tk @ ps \<and>
     (\<forall>p\<in>set ps. data_of f U (U + int (sent (send_window tk'))) p) \<and>
     settled U rs' (send_window tk') = settled U rs (send_window tk)"
proof -
  define tk1 where "tk1 = tk\<lparr>remote_recv_available :=
     max (remote_recv_available tk) (unat (e - send_pos (send_window tk)))\<rparr>"
  have "unat (e - send_pos (send_window tk)) \<le> u32_max"
    by (rule unat_u32)
  then have inv1: "task_inv tm f U rs tk1"
    using task_invD(6) [OF inv] by (intro task_inv_cong [OF inv]) (simp_all add: tk1_def)
  have same: "same_frame tk tk1" "outgoing tk1 = outgoing tk" "send_window tk1 = send_window tk"
    "outgoing_open tk1 = outgoing_open tk" by (simp_all add: tk1_def same_frame_def)
  consider (send) "recv_window_end_update tm tk e = Task_send tm tk1"
    | (up) "recv_window_end_update tm tk e = Some (tk1, Inr ())"
    | (no) "recv_window_end_update tm tk e = Some (tk, Inr ())"
    unfolding recv_window_end_update_def Let_def tk1_def by metis
  then show ?thesis
  proof cases
    case send
    from Task_send_inv [OF inv1] show ?thesis
      unfolding send same(2-4) using same_frame_trans [OF same(1)] by blast
  next
    case up
    then show ?thesis using inv1 same
      by (intro exI [of _ tk1] exI [of _ "Inr ()"] exI [of _ rs] exI [of _ "[]"]) simp
  next
    case no
    then show ?thesis using inv
      by (intro exI [of _ tk] exI [of _ "Inr ()"] exI [of _ rs] exI [of _ "[]"]) (simp add: same_frame_def)
  qed
qed

lemma write_available_ok:
  assumes "send_inv f U rs w"
  shows "SendWindow_write_available w = Some (rb_capacity (sw_ring w) - rb_count (sw_ring w))"
  using send_invD(1,2) [OF assms]
  by (simp add: SendWindow_write_available_def write_available_free as_u32_def u32_max_def)

text \<open>The second half of an acknowledgement.\<close>

lemma ack_tail_inv:
  assumes inv: "task_inv tm f U rs tk" and mono: "monotonic_timer tm"
  shows "\<exists>tk' U' rs'. do {
       (tk, acked_range) \<leftarrow> ack_unacked tk p q;
       (case acked_range of
          None \<Rightarrow> Some (tk, Inr ())
        | Some acked \<Rightarrow> do {
            tk \<leftarrow> update_rtt tm tk acked;
            n \<leftarrow> SendWindow_write_available (send_window tk);
            Some (if 0 < n then wake_up Wake_write_ready tk else tk, Inr ())
          }) } = Some (tk', Inr () :: rel_error + unit) \<and>
     task_inv tm f U' rs' tk' \<and> same_frame tk tk' \<and> outgoing tk' = outgoing tk \<and>
     freed_to U (send_window tk) U' (send_window tk') \<and>
     settled U' rs' (send_window tk') \<subseteq> settled U rs (send_window tk) \<union>
       acked_between U (U + int (sent (send_window tk))) p q"
proof -
  from ack_unacked_inv [OF inv, of p q] obtain tk1 acked U' rs' where
    tk1: "ack_unacked tk p q = Some (tk1, acked)" "task_inv tm f U' rs' tk1"
    "tk1 = tk\<lparr>send_window := send_window tk1, unacked := unacked tk1\<rparr>"
    "freed_to U (send_window tk) U' (send_window tk1)"
    "\<forall>a. acked = Some a \<longrightarrow> set_option (last_sent a) \<subseteq> clock tm ` {..<clock_reads tk}"
    "settled U' rs' (send_window tk1) \<subseteq> settled U rs (send_window tk) \<union>
       acked_between U (U + int (sent (send_window tk))) p q" by blast
  have same: "same_frame tk tk1" "outgoing tk1 = outgoing tk" "clock_reads tk1 = clock_reads tk"
    by (subst tk1(3), simp add: same_frame_def)+
  show ?thesis
  proof (cases acked)
    case None
    then show ?thesis using tk1(1,2,4,6) same by auto
  next
    case (Some a)
    then obtain x n where rtt: "update_rtt tm tk1 a = Some (tk1\<lparr>rtt_estimate := x, clock_reads := clock_reads tk1 + n\<rparr>)"
      using update_rtt_ok [OF mono, of a tk1] tk1(5) same(3) by auto
    define tk2 where "tk2 = tk1\<lparr>rtt_estimate := x, clock_reads := clock_reads tk1 + n\<rparr>"
    define tk3 where "tk3 = (if 0 < rb_capacity (sw_ring (send_window tk2)) - rb_count (sw_ring (send_window tk2))
      then wake_up Wake_write_ready tk2 else tk2)"
    have f3: "send_window tk3 = send_window tk1" "unacked tk3 = unacked tk1"
      "pool_capacity tk3 = pool_capacity tk1" "remote_recv_available tk3 = remote_recv_available tk1"
      "limiter tk3 = limiter tk1" "clock_reads tk1 \<le> clock_reads tk3" "same_frame tk1 tk3"
      "outgoing tk3 = outgoing tk1"
      by (simp_all add: tk3_def tk2_def wake_up_def same_frame_def)
    have "task_inv tm f U' rs' tk3"
      using f3 task_invD(6) [OF tk1(2)] by (intro task_inv_cong [OF tk1(2)]) simp_all
    moreover have "SendWindow_write_available (send_window tk2) =
        Some (rb_capacity (sw_ring (send_window tk2)) - rb_count (sw_ring (send_window tk2)))"
      using write_available_ok [OF task_invD(1) [OF tk1(2)]] by (simp add: tk2_def)
    moreover have "same_frame tk tk3" using same(1) f3(7) by (rule same_frame_trans)
    ultimately show ?thesis using tk1(1,4,6) Some rtt f3(1,8) same(2)
      by (intro exI [of _ tk3] exI [of _ U'] exI [of _ rs']) (simp add: tk2_def [symmetric], simp add: tk3_def)
  qed
qed

lemma Task_recv_ack_inv:
  assumes inv: "task_inv tm f U rs tk" and mono: "monotonic_timer tm"
    and len: "- (2 ^ 15) < data_len" "data_len < 0" and packet: "length packet = 10"
  shows "\<exists>tk' res U' rs' ps. Task_recv_ack tm tk data_len packet = Some (tk', res) \<and>
     task_inv tm f U' rs' tk' \<and> same_frame tk tk' \<and> U \<le> U' \<and>
     U + int (sent (send_window tk)) \<le> U' + int (sent (send_window tk')) \<and>
     U' + int (rb_count (sw_ring (send_window tk'))) = U + int (rb_count (sw_ring (send_window tk))) \<and>
     (outgoing_open tk \<longrightarrow> res = Inr ()) \<and> outgoing tk' = outgoing tk @ ps \<and>
     (\<forall>p\<in>set ps. data_of f U (U' + int (sent (send_window tk'))) p) \<and>
     (let p = read_u32 (take 4 (drop 2 packet)) in
      settled U' rs' (send_window tk') \<subseteq> settled U rs (send_window tk) \<union>
        acked_between U (U' + int (sent (send_window tk'))) p (p + of_int (- data_len)))"
proof -
  have sl: "slice packet 2 6 = Some (take 4 (drop 2 packet))" "slice packet 6 10 = Some (take 4 (drop 6 packet))"
    using packet by (simp_all add: slice_def)
  define p where "p = read_u32 (take 4 (drop 2 packet))"
  define q where "q = p + of_int (- data_len)"
  have neg: "i16_neg data_len = Some (- data_len)" using len by (intro i16_neg_ok)
  from window_end_update_inv [OF inv, of "read_u32 (take 4 (drop 6 packet))"] obtain tk1 r rs1 ps where
    tk1: "recv_window_end_update tm tk (read_u32 (take 4 (drop 6 packet))) = Some (tk1, r)"
    "task_inv tm f U rs1 tk1" "same_frame tk tk1" "sw_ring (send_window tk1) = sw_ring (send_window tk)"
    "sent (send_window tk) \<le> sent (send_window tk1)"
    "outgoing_open tk \<longrightarrow> r = Inr ()" "outgoing tk1 = outgoing tk @ ps"
    "\<forall>p\<in>set ps. data_of f U (U + int (sent (send_window tk1))) p"
    "settled U rs1 (send_window tk1) = settled U rs (send_window tk)" by blast
  show ?thesis
  proof (cases r)
    case (Inl e)
    then have "Task_recv_ack tm tk data_len packet = Some (tk1, Inl e)"
      using packet sl neg tk1(1) by (simp add: Task_recv_ack_def and_then_def Let_def)
    then show ?thesis using tk1 Inl
      by (intro exI [of _ tk1] exI [of _ "Inl e"] exI [of _ U] exI [of _ rs1] exI [of _ ps])
        (simp add: Let_def)
  next
    case (Inr x)
    from ack_tail_inv [OF tk1(2) mono, of p q] obtain tk2 U' rs' where
      tk2: "do {
       (tk, acked_range) \<leftarrow> ack_unacked tk1 p q;
       (case acked_range of
          None \<Rightarrow> Some (tk, Inr ())
        | Some acked \<Rightarrow> do {
            tk \<leftarrow> update_rtt tm tk acked;
            n \<leftarrow> SendWindow_write_available (send_window tk);
            Some (if 0 < n then wake_up Wake_write_ready tk else tk, Inr ())
          }) } = Some (tk2, Inr () :: rel_error + unit)" "task_inv tm f U' rs' tk2" "same_frame tk1 tk2"
      "outgoing tk2 = outgoing tk1" "freed_to U (send_window tk1) U' (send_window tk2)"
      "settled U' rs' (send_window tk2) \<subseteq> settled U rs1 (send_window tk1) \<union>
         acked_between U (U + int (sent (send_window tk1))) p q" by blast
    have "Task_recv_ack tm tk data_len packet = Some (tk2, Inr ())"
      using packet sl neg tk1(1) Inr tk2(1)
      by (simp add: Task_recv_ack_def and_then_def Let_def p_def [symmetric] q_def)
    moreover have "same_frame tk tk2" using tk1(3) tk2(3) by (rule same_frame_trans)
    moreover have "U' + int (sent (send_window tk2)) = U + int (sent (send_window tk1))"
      using tk2(5) by (simp add: freed_to_def)
    ultimately show ?thesis using tk1 tk2(2,4-6)
      by (intro exI [of _ tk2] exI [of _ "Inr ()"] exI [of _ U'] exI [of _ rs'] exI [of _ ps])
        (simp add: freed_to_def p_def q_def Let_def)
  qed
qed

subsection \<open>Incoming data\<close>

text \<open>
  An acknowledgement packet that vouches only for positions in \<open>A\<close>, from \<open>b\<close> on.
\<close>

definition ack_of :: "int \<Rightarrow> int set \<Rightarrow> byte list \<Rightarrow> bool" where
  "ack_of b A p \<longleftrightarrow> (\<exists>s n w. p = ack_bytes n (pos_of s) w \<and> b \<le> s \<and> 0 < n \<and> n \<le> i16_max \<and>
     {s..<s + int n} \<subseteq> A)"

lemma ack_of_mono: "ack_of b A p \<Longrightarrow> A \<subseteq> B \<Longrightarrow> ack_of b B p"
  unfolding ack_of_def by (blast intro: order.trans)

lemma segment_of_bytes:
  "b \<le> s \<Longrightarrow> s + int n \<le> u \<Longrightarrow> segment_of g b u (Segment s (stream_bytes g s n))"
  by (simp add: stream_bytes_def)

lemma recv_available_ok:
  assumes "recv_inv g P qs w"
  shows "RecvWindow_read_available w = Some (rb_count (rw_ring w))"
    "\<exists>e. RecvWindow_window_end w = Some e"
proof -
  have k: "rb_ok (rw_ring w)" "rb_capacity (rw_ring w) \<le> u32_max div 2"
    using assms by (auto simp: recv_inv_def)
  then show "RecvWindow_read_available w = Some (rb_count (rw_ring w))"
    using rb_okD(6) [OF k(1)]
    by (simp add: RecvWindow_read_available_def read_available_count as_u32_def u32_max_def)
  show "\<exists>e. RecvWindow_window_end w = Some e"
    using k by (simp add: RecvWindow_window_end_def write_available_free)
qed

lemma Task_recv_data_inv:
  assumes inv: "task_inv tm f U rs tk" and ri: "recv_inv g P qs (recv_window tk)" and wi: "confined b u P qs"
    and cap: "u + int (rb_capacity (rw_ring (recv_window tk))) < b + half_span"
    and packet: "data_of g b u packet"
  shows "\<exists>tk' res P' qs' ps. Task_recv_packet tm tk packet = Some (tk', res) \<and> task_inv tm f U rs tk' \<and>
     recv_inv g P' qs' (recv_window tk') \<and> confined b u P' qs' \<and>
     rb_capacity (rw_ring (recv_window tk')) = rb_capacity (rw_ring (recv_window tk)) \<and>
     P' - int (rb_count (rw_ring (recv_window tk'))) = P - int (rb_count (rw_ring (recv_window tk))) \<and>
     received P qs \<subseteq> received P' qs' \<and> send_window tk' = send_window tk \<and>
     settings tk' = settings tk \<and> pool_capacity tk' = pool_capacity tk \<and>
     outgoing_open tk' = outgoing_open tk \<and> (outgoing_open tk \<longrightarrow> res = Inr ()) \<and>
     outgoing tk' = outgoing tk @ ps \<and> (\<forall>p\<in>set ps. ack_of b (received P' qs') p)"
proof -
  obtain s n where p: "packet = data_packet (pos_of s) (stream_bytes g s n)" "b \<le> s" "s + int n \<le> u"
    "0 < n" "n \<le> i16_max" using packet by (auto simp: data_of_def)
  from recv_step_confined [OF ri wi cap segment_of_bytes [OF p(2,3)]] obtain w' r P' qs' where
    w': "RecvWindow_recv (recv_window tk) (pos_of s) (stream_bytes g s n) = Some (w', r)"
    "recv_inv g P' qs' w'" "confined b u P' qs'"
    "rb_capacity (rw_ring w') = rb_capacity (rw_ring (recv_window tk))"
    "P' - int (rb_count (rw_ring w')) = P - int (rb_count (rw_ring (recv_window tk)))"
    "received P qs \<subseteq> received P' qs'"
    and acked: "\<And>e. r = Some e \<Longrightarrow> \<exists>m. e = pos_of (s + int m) \<and> 0 < m \<and> m \<le> n \<and>
        {s..<s + int m} \<subseteq> received P' qs'" by auto
  define tk1 where "tk1 = tk\<lparr>recv_window := w'\<rparr>"
  have inv1: "task_inv tm f U rs tk1"
    using task_invD(6) [OF inv] by (intro task_inv_cong [OF inv]) (simp_all add: tk1_def)
  note pd = parse_data_packet [of "stream_bytes g s n", unfolded length_stream_bytes, OF p(5)]
  have code: "Task_recv_packet tm tk packet = (case r of
             None \<Rightarrow> Some (tk1, Inr ())
           | Some end_pos \<Rightarrow> do {
               window_end \<leftarrow> RecvWindow_window_end (recv_window tk1);
               ack \<leftarrow> ack_packet (pool_capacity tk1) (pos_of s) end_pos window_end;
               and_then (Some (send_packet tk1 ack)) (\<lambda>tk. do {
                 n \<leftarrow> RecvWindow_read_available (recv_window tk);
                 Some (if 0 < n then wake_up Wake_read_ready tk else tk, Inr ())
               })
             })"
    using pd(2,3) [of "pos_of s"] w'(1) unfolding p(1) pd(1) Task_recv_data_def Let_def tk1_def
    by (cases r) simp_all
  show ?thesis
  proof (cases r)
    case None
    then show ?thesis using code inv1 w'
      by (intro exI [of _ tk1] exI [of _ "Inr ()"] exI [of _ P'] exI [of _ qs'] exI [of _ "[]"])
        (simp add: tk1_def)
  next
    case (Some e)
    from acked [OF this] obtain m where m: "e = pos_of (s + int m)" "0 < m" "m \<le> n"
      "{s..<s + int m} \<subseteq> received P' qs'" by blast
    have un: "unat (e - pos_of s) = m"
      using m p(5) unfolding m(1) by (subst unat_pos_of_diff) (auto simp: i16_max_def)
    obtain we where we: "RecvWindow_window_end w' = Some we" using recv_available_ok(2) [OF w'(2)] by blast
    define ack where "ack = ack_bytes m (pos_of s) we"
    have pk: "ack_packet (pool_capacity tk1) (pos_of s) e we = Some ack"
      using ack_packet_ok [of "pool_capacity tk1" e "pos_of s" we] un m p(5) task_invD(4) [OF inv1]
      by (simp add: ack_def)
    have ok: "ack_of b (received P' qs') ack"
      unfolding ack_of_def ack_def using m p(2,5)
      by (intro exI [of _ s] exI [of _ m] exI [of _ we]) simp
    define tk2 where "tk2 = tk1\<lparr>outgoing := outgoing tk1 @ [ack]\<rparr>"
    define tk3 where "tk3 = (if 0 < rb_count (rw_ring w') then wake_up Wake_read_ready tk2 else tk2)"
    have code': "Task_recv_packet tm tk packet =
        Some (if outgoing_open tk then (tk3, Inr ()) else (tk1, Inl Disconnected))"
      using code Some we pk recv_available_ok(1) [OF w'(2)]
      by (simp add: and_then_def send_packet_def tk1_def tk2_def tk3_def)
    have inv3: "task_inv tm f U rs tk3"
      using task_invD(6) [OF inv1] by (intro task_inv_cong [OF inv1]) (simp_all add: tk3_def tk2_def wake_up_def)
    have f3: "send_window tk3 = send_window tk" "settings tk3 = settings tk" "recv_window tk3 = w'"
      "pool_capacity tk3 = pool_capacity tk" "outgoing_open tk3 = outgoing_open tk"
      "outgoing tk3 = outgoing tk @ [ack]"
      by (simp_all add: tk3_def tk2_def tk1_def wake_up_def)
    show ?thesis
    proof (cases "outgoing_open tk")
      case True
      then show ?thesis using inv3 code' w' ok f3
        by (intro exI [of _ tk3] exI [of _ "Inr ()"] exI [of _ P'] exI [of _ qs'] exI [of _ "[ack]"]) simp
    next
      case False
      then show ?thesis using code' inv1 w'
        by (intro exI [of _ tk1] exI [of _ "Inl Disconnected"] exI [of _ P'] exI [of _ qs'] exI [of _ "[]"])
          (simp add: tk1_def)
    qed
  qed
qed

subsection \<open>A round of the main loop\<close>

text \<open>
  How a round may change a task: both windows only move forward, and what it sends is either stream
  data or acknowledgements of stored positions.
\<close>

definition progress ::
  "(int \<Rightarrow> byte) \<Rightarrow> int \<Rightarrow> int \<Rightarrow> range list \<Rightarrow> 'i task \<Rightarrow> int \<Rightarrow> int \<Rightarrow> range list \<Rightarrow> 'i task \<Rightarrow> bool" where
  "progress f U P qs tk U' P' qs' tk' \<longleftrightarrow>
     (\<exists>ps. outgoing tk' = outgoing tk @ ps \<and>
        (\<forall>p\<in>set ps. data_of f U (U' + int (sent (send_window tk'))) p \<or> ack_of 0 (received P' qs') p)) \<and>
     settings tk' = settings tk \<and> pool_capacity tk' = pool_capacity tk \<and>
     outgoing_open tk' = outgoing_open tk \<and> U \<le> U' \<and>
     U + int (sent (send_window tk)) \<le> U' + int (sent (send_window tk')) \<and>
     U' + int (rb_count (sw_ring (send_window tk'))) = U + int (rb_count (sw_ring (send_window tk))) \<and>
     rb_capacity (rw_ring (recv_window tk')) = rb_capacity (rw_ring (recv_window tk)) \<and>
     P' - int (rb_count (rw_ring (recv_window tk'))) = P - int (rb_count (rw_ring (recv_window tk))) \<and>
     received P qs \<subseteq> received P' qs'"

lemma progress_cong:
  assumes "progress f U P qs tk1 U' P' qs' tk1'"
    and "outgoing tk1 = outgoing tk" "settings tk1 = settings tk" "pool_capacity tk1 = pool_capacity tk"
      "outgoing_open tk1 = outgoing_open tk" "send_window tk1 = send_window tk" "recv_window tk1 = recv_window tk"
    and "outgoing tk1' = outgoing tk'" "settings tk1' = settings tk'" "pool_capacity tk1' = pool_capacity tk'"
      "outgoing_open tk1' = outgoing_open tk'" "send_window tk1' = send_window tk'" "recv_window tk1' = recv_window tk'"
  shows "progress f U P qs tk U' P' qs' tk'"
  using assms unfolding progress_def by simp

text \<open>
  What can arrive: a piece of the peer's stream, or an acknowledgement of positions in \<open>A\<close>.
\<close>

definition arrives :: "(int \<Rightarrow> byte) \<Rightarrow> int \<Rightarrow> int set \<Rightarrow> byte list \<Rightarrow> bool" where
  "arrives g u A p \<longleftrightarrow> data_of g 0 u p \<or> ack_of 0 A p"

lemma acked_between_sound:
  assumes "{s..<s + int n} \<subseteq> A" and "0 \<le> s" "s + int n \<le> half_span" and "0 \<le> lo" "hi \<le> half_span"
  shows "acked_between lo hi (pos_of s) (pos_of (s + int n)) \<subseteq> A"
proof
  fix x assume "x \<in> acked_between lo hi (pos_of s) (pos_of (s + int n))"
  then obtain s' t' where "pos_of s = pos_of s'" "pos_of (s + int n) = pos_of t'"
    "lo \<le> s'" "s' < t'" "t' \<le> hi" "s' \<le> x" "x < t'" by (auto simp: acked_between_def)
  moreover from this have "s = s'" "s + int n = t'" using assms(2-5) by (auto simp: pos_of_eq_iff)
  ultimately show "x \<in> A" using assms(1) by auto
qed

lemma handle_ack_inv:
  assumes inv: "task_inv tm f U rs tk" and mono: "monotonic_timer tm" and op: "outgoing_open tk"
    and ack: "ack_of 0 A p" "A \<subseteq> {..<half_span}"
    and U: "0 \<le> U" "U + int (rb_count (sw_ring (send_window tk))) \<le> half_span"
  shows "\<exists>tk' U' rs'. Task_recv_packet tm tk p = Some (tk', Inr ()) \<and> task_inv tm f U' rs' tk' \<and>
     progress f U P qs tk U' P qs tk' \<and> recv_window tk' = recv_window tk \<and>
     settled U' rs' (send_window tk') \<subseteq> settled U rs (send_window tk) \<union> A"
proof -
  obtain s n w where p: "p = ack_bytes n (pos_of s) w" "0 \<le> s" "0 < n" "n \<le> i16_max" "{s..<s + int n} \<subseteq> A"
    using ack(1) by (auto simp: ack_of_def)
  have "s + int n - 1 \<in> A" using p(3,5) by auto
  then have sn: "s + int n \<le> half_span" using ack(2) by auto
  note pa = parse_ack_bytes [OF p(3,4)]
  have dl: "- (2 ^ 15) < - int n" "- int n < 0" "length p = 10" using p by (auto simp: i16_max_def)
  from Task_recv_ack_inv [OF inv mono dl] obtain tk' res U' rs' ps where
    t: "Task_recv_ack tm tk (- int n) p = Some (tk', res)" "task_inv tm f U' rs' tk'" "same_frame tk tk'"
    "U \<le> U'" "U + int (sent (send_window tk)) \<le> U' + int (sent (send_window tk'))"
    "U' + int (rb_count (sw_ring (send_window tk'))) = U + int (rb_count (sw_ring (send_window tk)))"
    "outgoing_open tk \<longrightarrow> res = Inr ()" "outgoing tk' = outgoing tk @ ps"
    "\<forall>p\<in>set ps. data_of f U (U' + int (sent (send_window tk'))) p"
    and st: "let q = read_u32 (take 4 (drop 2 p)) in
      settled U' rs' (send_window tk') \<subseteq> settled U rs (send_window tk) \<union>
        acked_between U (U' + int (sent (send_window tk'))) q (q + of_int (- (- int n)))" by blast
  have "read_u32 (take 4 (drop 2 p)) = pos_of s"
    using pa(2) [of "pos_of s" w] unfolding p(1) by (simp add: slice_def)
  moreover have "pos_of s + of_int (- (- int n)) = pos_of (s + int n)"
    by (simp add: pos_of_def)
  moreover have "U' + int (sent (send_window tk')) \<le> half_span"
    using send_invD(3) [OF task_invD(1) [OF t(2)]] t(6) U(2) by linarith
  ultimately have "settled U' rs' (send_window tk') \<subseteq> settled U rs (send_window tk) \<union> A"
    using st acked_between_sound [OF p(5,2) sn U(1), of "U' + int (sent (send_window tk'))"]
    unfolding Let_def by auto
  moreover have "progress f U P qs tk U' P qs tk'"
    using t(3-6,8,9) unfolding progress_def same_frame_def by auto
  moreover have "Task_recv_packet tm tk p = Some (tk', Inr ())"
    using pa(1) [of tm tk "pos_of s" w] t(1,7) op unfolding p(1) by simp
  ultimately show ?thesis using t(2,3) unfolding same_frame_def by blast
qed

lemma handle_data_inv:
  assumes inv: "task_inv tm f U rs tk" and ri: "recv_inv g P qs (recv_window tk)" and wi: "confined 0 u P qs"
    and cap: "u + int (rb_capacity (rw_ring (recv_window tk))) < half_span"
    and packet: "data_of g 0 u p" and op: "outgoing_open tk"
  shows "\<exists>tk' P' qs'. Task_recv_packet tm tk p = Some (tk', Inr ()) \<and> task_inv tm f U rs tk' \<and>
     recv_inv g P' qs' (recv_window tk') \<and> confined 0 u P' qs' \<and> progress f U P qs tk U P' qs' tk' \<and>
     send_window tk' = send_window tk"
proof -
  have cap': "u + int (rb_capacity (rw_ring (recv_window tk))) < 0 + half_span" using cap by simp
  from Task_recv_data_inv [OF inv ri wi cap' packet] op obtain tk' P' qs' ps where
    t: "Task_recv_packet tm tk p = Some (tk', Inr ())" "task_inv tm f U rs tk'"
     "recv_inv g P' qs' (recv_window tk')" "confined 0 u P' qs'"
     "rb_capacity (rw_ring (recv_window tk')) = rb_capacity (rw_ring (recv_window tk))"
     "P' - int (rb_count (rw_ring (recv_window tk'))) = P - int (rb_count (rw_ring (recv_window tk)))"
     "received P qs \<subseteq> received P' qs'" "send_window tk' = send_window tk" "settings tk' = settings tk"
     "pool_capacity tk' = pool_capacity tk" "outgoing_open tk' = outgoing_open tk"
     "outgoing tk' = outgoing tk @ ps" "\<forall>p\<in>set ps. ack_of 0 (received P' qs') p" by auto
  then have "progress f U P qs tk U P' qs' tk'" unfolding progress_def by auto
  with t show ?thesis by blast
qed

lemma handle_resend_inv:
  assumes inv: "task_inv tm f U rs tk" and mono: "monotonic_timer tm" and op: "outgoing_open tk"
    and ks: "set ks \<subseteq> fst ` set (unacked tk)"
  shows "\<exists>tk'. Task_resend tm tk ks = Some (tk', Inr ()) \<and> task_inv tm f U rs tk' \<and>
     progress f U P qs tk U P qs tk' \<and> recv_window tk' = recv_window tk \<and> send_window tk' = send_window tk"
  using Task_resend_inv [OF inv mono ks] op unfolding progress_def same_frame_def by fastforce

lemma handle_send_inv:
  assumes inv: "task_inv tm f U rs tk" and mono: "monotonic_timer tm" and op: "outgoing_open tk"
    and ks: "set ks \<subseteq> fst ` set (unacked tk)"
  shows "\<exists>tk' rs'. and_then (Task_resend tm tk ks) (Task_send tm) = Some (tk', Inr ()) \<and>
     task_inv tm f U rs' tk' \<and> progress f U P qs tk U P qs tk' \<and> recv_window tk' = recv_window tk \<and>
     settled U rs' (send_window tk') = settled U rs (send_window tk)"
proof -
  from Task_resend_inv [OF inv mono ks] op obtain tk1 ps where
    t: "Task_resend tm tk ks = Some (tk1, Inr ())" "task_inv tm f U rs tk1" "same_frame tk tk1"
    "send_window tk1 = send_window tk" "outgoing tk1 = outgoing tk @ ps"
    "\<forall>p\<in>set ps. data_of f U (U + int (sent (send_window tk))) p" by auto
  have "outgoing_open tk1" using t(3) op by (simp add: same_frame_def)
  with Task_send_inv [OF t(2)] obtain tk2 rs' ps' where
    s: "Task_send tm tk1 = Some (tk2, Inr ())" "task_inv tm f U rs' tk2" "same_frame tk1 tk2"
    "sw_ring (send_window tk2) = sw_ring (send_window tk1)"
    "sent (send_window tk1) \<le> sent (send_window tk2)" "outgoing tk2 = outgoing tk1 @ ps'"
    "\<forall>p\<in>set ps'. data_of f U (U + int (sent (send_window tk2))) p"
    "settled U rs' (send_window tk2) = settled U rs (send_window tk1)" by auto
  have "data_of f U (U + int (sent (send_window tk2))) p" if "p \<in> set ps" for p
    using t(6) that s(5) t(4) unfolding data_of_def by fastforce
  then have "progress f U P qs tk U P qs tk2"
    using t(3-5) s(3-7) unfolding progress_def same_frame_def by auto
  moreover have "and_then (Task_resend tm tk ks) (Task_send tm) = Some (tk2, Inr ())"
    using t(1) s(1) by (simp add: and_then_def)
  ultimately show ?thesis using s(2,8) t(3,4) s(3) unfolding same_frame_def by auto
qed

definition reason_ok :: "(int \<Rightarrow> byte) \<Rightarrow> int \<Rightarrow> int set \<Rightarrow> 'i task \<Rightarrow> wake_reason \<Rightarrow> bool" where
  "reason_ok g u A tk reason \<longleftrightarrow>
     (case reason of
        ResendTimer ks \<Rightarrow> set ks \<subseteq> fst ` set (unacked tk)
      | SendAvailable ks \<Rightarrow> set ks \<subseteq> fst ` set (unacked tk)
      | IncomingPacket None \<Rightarrow> False
      | IncomingPacket (Some p) \<Rightarrow> arrives g u A p)"

lemma handle_wake_inv:
  assumes inv: "task_inv tm f U rs tk" and mono: "monotonic_timer tm" and op: "outgoing_open tk"
    and ri: "recv_inv g P qs (recv_window tk)" and wi: "confined 0 u P qs"
    and cap: "u + int (rb_capacity (rw_ring (recv_window tk))) < half_span"
    and A: "A \<subseteq> {..<half_span}" and U: "0 \<le> U" "U + int (rb_count (sw_ring (send_window tk))) \<le> half_span"
    and reason: "reason_ok g u A tk reason"
  shows "\<exists>tk' U' rs' P' qs'. handle_wake tm tk reason = Some (tk', Inr ()) \<and> task_inv tm f U' rs' tk' \<and>
     recv_inv g P' qs' (recv_window tk') \<and> confined 0 u P' qs' \<and> progress f U P qs tk U' P' qs' tk' \<and>
     settled U' rs' (send_window tk') \<subseteq> settled U rs (send_window tk) \<union> A"
proof -
  consider (timer) ks where "reason = ResendTimer ks" "set ks \<subseteq> fst ` set (unacked tk)"
    | (can_send) ks where "reason = SendAvailable ks" "set ks \<subseteq> fst ` set (unacked tk)"
    | (data) p where "reason = IncomingPacket (Some p)" "data_of g 0 u p"
    | (ack) p where "reason = IncomingPacket (Some p)" "ack_of 0 A p"
    using reason by (auto simp: reason_ok_def arrives_def split: wake_reason.splits option.splits)
  then show ?thesis
  proof cases
    case timer
    from handle_resend_inv [OF inv mono op timer(2), of P qs] obtain tk' where
      "Task_resend tm tk ks = Some (tk', Inr ())" "task_inv tm f U rs tk'" "progress f U P qs tk U P qs tk'"
      "recv_window tk' = recv_window tk" "send_window tk' = send_window tk" by blast
    with ri wi timer(1) show ?thesis
      by (intro exI [of _ tk'] exI [of _ U] exI [of _ rs] exI [of _ P] exI [of _ qs]) simp
  next
    case can_send
    from handle_send_inv [OF inv mono op can_send(2), of P qs] obtain tk' rs' where
      "and_then (Task_resend tm tk ks) (Task_send tm) = Some (tk', Inr ())" "task_inv tm f U rs' tk'"
      "progress f U P qs tk U P qs tk'" "recv_window tk' = recv_window tk"
      "settled U rs' (send_window tk') = settled U rs (send_window tk)" by blast
    with ri wi can_send(1) show ?thesis
      by (intro exI [of _ tk'] exI [of _ U] exI [of _ rs'] exI [of _ P] exI [of _ qs]) simp
  next
    case data
    from handle_data_inv [OF inv ri wi cap data(2) op] obtain tk' P' qs' where
      "Task_recv_packet tm tk p = Some (tk', Inr ())" "task_inv tm f U rs tk'"
      "recv_inv g P' qs' (recv_window tk')" "confined 0 u P' qs'" "progress f U P qs tk U P' qs' tk'"
      "send_window tk' = send_window tk" by blast
    with data(1) show ?thesis
      by (intro exI [of _ tk'] exI [of _ U] exI [of _ rs] exI [of _ P'] exI [of _ qs']) simp
  next
    case ack
    from handle_ack_inv [OF inv mono op ack(2) A U, of P qs] obtain tk' U' rs' where
      "Task_recv_packet tm tk p = Some (tk', Inr ())" "task_inv tm f U' rs' tk'"
      "progress f U P qs tk U' P qs tk'" "recv_window tk' = recv_window tk"
      "settled U' rs' (send_window tk') \<subseteq> settled U rs (send_window tk) \<union> A" by blast
    with ri wi ack(1) show ?thesis
      by (intro exI [of _ tk'] exI [of _ U'] exI [of _ rs'] exI [of _ P] exI [of _ qs]) simp
  qed
qed

lemma unstall_inv:
  assumes inv: "task_inv tm f U rs tk" and "init_send (settings tk) \<le> u32_max"
  shows "task_inv tm f U rs (Task_unstall tk)"
  using assms(2) task_invD(6) [OF inv] by (intro task_inv_cong [OF inv]) (simp_all add: Task_unstall_def)

lemma unstall_same [simp]:
  "outgoing (Task_unstall tk) = outgoing tk" "settings (Task_unstall tk) = settings tk"
  "pool_capacity (Task_unstall tk) = pool_capacity tk" "outgoing_open (Task_unstall tk) = outgoing_open tk"
  "send_window (Task_unstall tk) = send_window tk" "recv_window (Task_unstall tk) = recv_window tk"
  by (simp_all add: Task_unstall_def)

lemma main_loop_round_inv:
  assumes inv: "task_inv tm f U rs tk" and mono: "monotonic_timer tm" and op: "outgoing_open tk"
    and ri: "recv_inv g P qs (recv_window tk)" and wi: "confined 0 u P qs"
    and cap: "u + int (rb_capacity (rw_ring (recv_window tk))) < half_span"
    and A: "A \<subseteq> {..<half_span}" and U: "0 \<le> U" "U + int (rb_count (sw_ring (send_window tk))) \<le> half_span"
    and reason: "reason_ok g u A tk reason" and init: "init_send (settings tk) \<le> u32_max"
  shows "\<exists>tk' U' rs' P' qs'. main_loop_round tm tk reason = Some (tk', Inr ()) \<and> task_inv tm f U' rs' tk' \<and>
     recv_inv g P' qs' (recv_window tk') \<and> confined 0 u P' qs' \<and> progress f U P qs tk U' P' qs' tk' \<and>
     settled U' rs' (send_window tk') \<subseteq> settled U rs (send_window tk) \<union> A"
proof -
  from bandwidth_update_inv [OF inv mono] obtain tk1 where
    t1: "Task_update_bandwidth tm tk = Some tk1" "task_inv tm f U rs tk1"
    "tk1 = tk\<lparr>limiter := limiter tk1, clock_reads := clock_reads tk1\<rparr>" by blast
  from bandwidth_update_inv [OF t1(2) mono] obtain tk2 where
    t2: "Task_update_bandwidth tm tk1 = Some tk2" "task_inv tm f U rs tk2"
    "tk2 = tk1\<lparr>limiter := limiter tk2, clock_reads := clock_reads tk2\<rparr>" by blast
  have same1: "outgoing tk1 = outgoing tk" "settings tk1 = settings tk" "pool_capacity tk1 = pool_capacity tk"
    "outgoing_open tk1 = outgoing_open tk" "send_window tk1 = send_window tk" "recv_window tk1 = recv_window tk"
    "unacked tk1 = unacked tk" by (subst t1(3), simp)+
  have same: "outgoing tk2 = outgoing tk" "settings tk2 = settings tk" "pool_capacity tk2 = pool_capacity tk"
    "outgoing_open tk2 = outgoing_open tk" "send_window tk2 = send_window tk" "recv_window tk2 = recv_window tk"
    "unacked tk2 = unacked tk" by (subst t2(3), simp add: same1)+
  have reason2: "reason_ok g u A tk2 reason" using reason unfolding reason_ok_def same .
  have "\<exists>tk' U' rs' P' qs'. handle_wake tm tk2 reason = Some (tk', Inr ()) \<and> task_inv tm f U' rs' tk' \<and>
     recv_inv g P' qs' (recv_window tk') \<and> confined 0 u P' qs' \<and> progress f U P qs tk2 U' P' qs' tk' \<and>
     settled U' rs' (send_window tk') \<subseteq> settled U rs (send_window tk2) \<union> A"
    using same ri cap op U by (intro handle_wake_inv [OF t2(2) mono _ _ wi _ A U(1) _ reason2]) simp_all
  then obtain tk3 U' rs' P' qs' where t3: "handle_wake tm tk2 reason = Some (tk3, Inr ())"
    "task_inv tm f U' rs' tk3" "recv_inv g P' qs' (recv_window tk3)" "confined 0 u P' qs'"
    "progress f U P qs tk2 U' P' qs' tk3"
    "settled U' rs' (send_window tk3) \<subseteq> settled U rs (send_window tk2) \<union> A" by blast
  have "reason \<noteq> IncomingPacket None" using reason by (auto simp: reason_ok_def)
  then have "main_loop_round tm tk reason = Some (Task_unstall tk3, Inr ())"
    using t1(1) t2(1) t3(1) by (simp add: main_loop_round_def and_then_def)
  moreover have "progress f U P qs tk U' P' qs' (Task_unstall tk3)"
    by (rule progress_cong [OF t3(5)]) (simp_all add: same)
  moreover have "init_send (settings tk3) \<le> u32_max" using t3(5) init same by (simp add: progress_def)
  then have "task_inv tm f U' rs' (Task_unstall tk3)" by (rule unstall_inv [OF t3(2)])
  ultimately show ?thesis using t3(3,4,6) same(5)
    by (intro exI [of _ "Task_unstall tk3"] exI [of _ U'] exI [of _ rs'] exI [of _ P'] exI [of _ qs']) simp
qed

end
