(* ===== verification/Reliable_Network.thy ===== *)
theory Reliable_Network
  imports Reliable_Recv "HOL-Library.Multiset"
begin

text \<open>
  Two reliable channels over a network that loses, duplicates, delays and reorders packets.

  Each end has an application that writes and reads through the polls of its handle. A packet that
  arrives is any packet the other end has ever sent, so that loss, duplication and reordering are
  choices of the events. The order in which a hash map is visited is chosen by \<open>visit\<close> from a seed of
  the event; all that is assumed of it is that it visits the entries of the map.

  Every run of the two ends returns, no end fails, what one application reads is a prefix of what the
  other wrote, and a byte leaves the send buffer only after the receiver has stored it.
\<close>

record 'i endpoint =
  chan :: "'i reliable_channel"
  accepted :: "byte list"
  delivered :: "byte list"

datatype round_event = Timer_fires nat | Can_send nat | Packet_arrives nat

datatype net_event = App_write "byte list" | App_read nat | Round round_event

type_synonym visit_order = "nat \<Rightarrow> stream_pos list \<Rightarrow> stream_pos list"

abbreviation unacked_keys :: "'i reliable_channel \<Rightarrow> stream_pos list" where
  "unacked_keys ch \<equiv> map fst (unacked (task ch))"

text \<open>A round of the task for an event, where \<open>inbox\<close> holds the packets that may arrive.\<close>

fun channel_event ::
  "'i timer \<Rightarrow> visit_order \<Rightarrow> byte list list \<Rightarrow> 'i reliable_channel \<Rightarrow> round_event \<Rightarrow> 'i reliable_channel option" where
  "channel_event tm visit inbox ch (Timer_fires seed) =
     channel_round tm ch (ResendTimer (visit seed (unacked_keys ch)))"
| "channel_event tm visit inbox ch (Can_send seed) =
     (let reason = SendAvailable (visit seed (unacked_keys ch))
      in if wake_enabled (task ch) reason then channel_round tm ch reason else Some ch)"
| "channel_event tm visit inbox ch (Packet_arrives i) =
     (if i < length inbox then channel_round tm ch (IncomingPacket (Some (inbox ! i))) else Some ch)"

fun endpoint_step ::
  "'i timer \<Rightarrow> visit_order \<Rightarrow> byte list list \<Rightarrow> 'i endpoint \<Rightarrow> net_event \<Rightarrow> 'i endpoint option" where
  "endpoint_step tm visit inbox ep (App_write data) = do {
     (ch, r) \<leftarrow> poll_write id (chan ep) data;
     Some (ep\<lparr>chan := ch,
       accepted := accepted ep @ (case r of Ready (Inr n) \<Rightarrow> take n data | _ \<Rightarrow> [])\<rparr>)
   }"
| "endpoint_step tm visit inbox ep (App_read n) = do {
     (ch, buf, r) \<leftarrow> poll_read id (chan ep) (replicate n 0);
     Some (ep\<lparr>chan := ch,
       delivered := delivered ep @ (case r of Ready (Inr k) \<Rightarrow> take k buf | _ \<Rightarrow> [])\<rparr>)
   }"
| "endpoint_step tm visit inbox ep (Round ev) = do {
     ch \<leftarrow> channel_event tm visit inbox (chan ep) ev;
     Some (ep\<lparr>chan := ch\<rparr>)
   }"

type_synonym 'i net = "'i endpoint \<times> 'i endpoint"

text \<open>An event at one end: \<open>True\<close> is the first.\<close>

definition net_step ::
  "'i timer \<Rightarrow> 'i timer \<Rightarrow> visit_order \<Rightarrow> 'i net \<Rightarrow> bool \<times> net_event \<Rightarrow> 'i net option" where
  "net_step tmA tmB visit = (\<lambda>(A, B) (at_A, ev).
     if at_A then do { A \<leftarrow> endpoint_step tmA visit (outgoing (task (chan B))) A ev; Some (A, B) }
     else do { B \<leftarrow> endpoint_step tmB visit (outgoing (task (chan A))) B ev; Some (A, B) })"

fun net_run ::
  "'i timer \<Rightarrow> 'i timer \<Rightarrow> visit_order \<Rightarrow> 'i net \<Rightarrow> (bool \<times> net_event) list \<Rightarrow> 'i net option" where
  "net_run tmA tmB visit s [] = Some s"
| "net_run tmA tmB visit s (e # es) = do {
     s \<leftarrow> net_step tmA tmB visit s e;
     net_run tmA tmB visit s es
   }"

fun written :: "bool \<Rightarrow> (bool \<times> net_event) list \<Rightarrow> nat" where
  "written side [] = 0"
| "written side ((s, App_write data) # es) = (if s = side then length data else 0) + written side es"
| "written side (_ # es) = written side es"

subsection \<open>Invariant of the network\<close>

text \<open>The stream from \<open>A\<close> to \<open>B\<close>: \<open>U\<close> and \<open>rs\<close> describe \<open>A\<close>'s send window, \<open>P\<close> and \<open>qs\<close> the receive window of \<open>B\<close>.\<close>

definition flow :: "'i timer \<Rightarrow> 'i endpoint \<Rightarrow> 'i endpoint \<Rightarrow> int \<Rightarrow> range list \<Rightarrow> int \<Rightarrow> range list \<Rightarrow> bool" where
  "flow tm A B U rs P qs \<longleftrightarrow>
     (let tk = task (chan A); f = stream_of 0 (accepted A); w = recv_window (task (chan B)) in
      handle (chan A) = Running \<and> outgoing_open tk \<and> init_send (settings tk) \<le> u32_max \<and>
      task_inv tm f U rs tk \<and> 0 \<le> U \<and>
      U + int (rb_count (sw_ring (send_window tk))) = int (length (accepted A)) \<and>
      recv_inv f P qs w \<and> confined 0 (U + int (sent (send_window tk))) P qs \<and>
      P - int (rb_count (rw_ring w)) = int (length (delivered B)) \<and>
      delivered B = take (length (delivered B)) (accepted A) \<and>
      settled U rs (send_window tk) \<subseteq> received P qs)"

definition packets_ok :: "'i endpoint \<Rightarrow> int \<Rightarrow> int \<Rightarrow> range list \<Rightarrow> bool" where
  "packets_ok A U P qs \<longleftrightarrow> (\<forall>p\<in>set (outgoing (task (chan A))).
     arrives (stream_of 0 (accepted A)) (U + int (sent (send_window (task (chan A))))) (received P qs) p)"

text \<open>The ends in one order; \<open>M\<close> and \<open>N\<close> bound what \<open>A\<close> and \<open>B\<close> accept.\<close>

definition net_inv ::
  "'i timer \<Rightarrow> 'i timer \<Rightarrow> nat \<Rightarrow> nat \<Rightarrow> 'i endpoint \<Rightarrow> 'i endpoint \<Rightarrow> bool" where
  "net_inv tmA tmB M N A B \<longleftrightarrow>
     (\<exists>U rs P qs U' rs' P' qs'. flow tmA A B U rs P qs \<and> flow tmB B A U' rs' P' qs' \<and>
        packets_ok A U P' qs' \<and> packets_ok B U' P qs) \<and>
     int M + int (rb_capacity (rw_ring (recv_window (task (chan B))))) < half_span \<and>
     int N + int (rb_capacity (rw_ring (recv_window (task (chan A))))) < half_span \<and>
     length (accepted A) \<le> M \<and> length (accepted B) \<le> N"

lemma net_inv_sym: "net_inv tmA tmB M N A B \<longleftrightarrow> net_inv tmB tmA N M B A"
  unfolding net_inv_def by blast

subsection \<open>Streams that grow\<close>

lemma stream_of_append: "p < b + int (length xs) \<Longrightarrow> stream_of b (xs @ ys) p = stream_of b xs p"
  by (auto simp: stream_of_def nth_append)

lemma recv_inv_agree:
  assumes inv: "recv_inv f P qs w" and eq: "\<And>x. x \<in> received P qs \<Longrightarrow> f x = f' x"
  shows "recv_inv f' P qs w"
  using assms unfolding recv_inv_def stores_def by auto

lemma confined_received: "confined b u P qs \<Longrightarrow> received P qs \<subseteq> {..<u}"
  by (fastforce simp: confined_def received_def range_set_def)

lemma data_of_grow:
  assumes "data_of (stream_of 0 acc) 0 hi p" and "hi \<le> int (length acc)" and "hi \<le> hi'"
  shows "data_of (stream_of 0 (acc @ xs)) 0 hi' p"
proof -
  obtain a n where a: "p = data_packet (pos_of a) (stream_bytes (stream_of 0 acc) a n)" "0 \<le> a"
    "a + int n \<le> hi" "0 < n" "n \<le> i16_max" using assms(1) by (auto simp: data_of_def)
  moreover have "stream_bytes (stream_of 0 (acc @ xs)) a n = stream_bytes (stream_of 0 acc) a n"
    using a(2,3) assms(2) by (intro stream_bytes_of_append) auto
  ultimately show ?thesis using assms(3) unfolding data_of_def
    by (intro exI [of _ a] exI [of _ n]) auto
qed

lemma arrives_grow:
  assumes "arrives (stream_of 0 acc) hi A p" and "hi \<le> int (length acc)" and "hi \<le> hi'" and "A \<subseteq> A'"
  shows "arrives (stream_of 0 (acc @ xs)) hi' A' p"
  using assms data_of_grow [OF _ assms(2,3)] ack_of_mono [OF _ assms(4)] unfolding arrives_def by blast

lemma flowD:
  assumes "flow tm A B U rs P qs"
  shows "handle (chan A) = Running" "outgoing_open (task (chan A))"
    "init_send (settings (task (chan A))) \<le> u32_max"
    "task_inv tm (stream_of 0 (accepted A)) U rs (task (chan A))" "0 \<le> U"
    "U + int (rb_count (sw_ring (send_window (task (chan A))))) = int (length (accepted A))"
    "recv_inv (stream_of 0 (accepted A)) P qs (recv_window (task (chan B)))"
    "confined 0 (U + int (sent (send_window (task (chan A))))) P qs"
    "P - int (rb_count (rw_ring (recv_window (task (chan B))))) = int (length (delivered B))"
    "delivered B = take (length (delivered B)) (accepted A)"
    "settled U rs (send_window (task (chan A))) \<subseteq> received P qs"
  using assms unfolding flow_def Let_def by blast+

lemma flow_bounds:
  assumes "flow tm A B U rs P qs"
  shows "U + int (sent (send_window (task (chan A)))) \<le> int (length (accepted A))"
    "P \<le> U + int (sent (send_window (task (chan A))))" "length (delivered B) \<le> length (accepted A)"
proof -
  note i = flowD [OF assms]
  show a: "U + int (sent (send_window (task (chan A)))) \<le> int (length (accepted A))"
    using send_invD(3) [OF task_invD(1) [OF i(4)]] i(6) by linarith
  show P: "P \<le> U + int (sent (send_window (task (chan A))))" using i(8) by (simp add: confined_def)
  show "length (delivered B) \<le> length (accepted A)" using i(9) a P by linarith
qed

lemma net_invI:
  assumes "flow tmA A B U rs P qs" "flow tmB B A U' rs' P' qs'" "packets_ok A U P' qs'" "packets_ok B U' P qs"
    and "int M + int (rb_capacity (rw_ring (recv_window (task (chan B))))) < half_span"
      "int N + int (rb_capacity (rw_ring (recv_window (task (chan A))))) < half_span"
      "length (accepted A) \<le> M" "length (accepted B) \<le> N"
  shows "net_inv tmA tmB M N A B"
  using assms unfolding net_inv_def by blast

subsection \<open>Rounds of a task\<close>

lemma net_round:
  assumes fl: "flow tmA A B U rs P qs" "flow tmB B A U' rs' P' qs'"
    and pk: "packets_ok A U P' qs'" "packets_ok B U' P qs" and mono: "monotonic_timer tmA"
    and M: "int M + int (rb_capacity (rw_ring (recv_window (task (chan B))))) < half_span" "length (accepted A) \<le> M"
    and N: "int N + int (rb_capacity (rw_ring (recv_window (task (chan A))))) < half_span" "length (accepted B) \<le> N"
    and reason: "reason_ok (stream_of 0 (accepted B)) (U' + int (sent (send_window (task (chan B)))))
      (received P qs) (task (chan A)) reason"
  shows "\<exists>ch. channel_round tmA (chan A) reason = Some ch \<and> net_inv tmA tmB M N (A\<lparr>chan := ch\<rparr>) B"
proof -
  note a = flowD [OF fl(1)] and b = flowD [OF fl(2)]
  note ab = flow_bounds [OF fl(1)] and bb = flow_bounds [OF fl(2)]
  let ?f = "stream_of 0 (accepted A)" and ?g = "stream_of 0 (accepted B)"
  let ?u = "U' + int (sent (send_window (task (chan B))))"
  have u: "?u + int (rb_capacity (rw_ring (recv_window (task (chan A))))) < half_span"
    using bb(1) N by linarith
  have set: "received P qs \<subseteq> {..<half_span}" using confined_received [OF a(8)] ab(1) M by auto
  have len: "U + int (rb_count (sw_ring (send_window (task (chan A))))) \<le> half_span" using a(6) M by linarith
  from main_loop_round_inv [OF a(4) mono a(2) b(7) b(8) u set a(5) len reason a(3)]
  obtain tk' U1 rs1 P1 qs1 where
    t: "main_loop_round tmA (task (chan A)) reason = Some (tk', Inr ())" "task_inv tmA ?f U1 rs1 tk'"
     "recv_inv ?g P1 qs1 (recv_window tk')" "confined 0 ?u P1 qs1"
     "progress ?f U P' qs' (task (chan A)) U1 P1 qs1 tk'"
     "settled U1 rs1 (send_window tk') \<subseteq> settled U rs (send_window (task (chan A))) \<union> received P qs" by blast
  note p = t(5) [unfolded progress_def]
  let ?ch = "(chan A)\<lparr>task := tk'\<rparr>" and ?A = "A\<lparr>chan := (chan A)\<lparr>task := tk'\<rparr>\<rparr>"
  have code: "channel_round tmA (chan A) reason = Some ?ch"
    using a(1) t(1) by (simp add: channel_round_def)
  have "confined 0 (U1 + int (sent (send_window tk'))) P qs" using a(8) p by (fastforce simp: confined_def)
  moreover have "settled U1 rs1 (send_window tk') \<subseteq> received P qs" using t(6) a(11) by blast
  ultimately have f1: "flow tmA ?A B U1 rs1 P qs"
    using a p t(2) unfolding flow_def Let_def by simp
  have f2: "flow tmB B ?A U' rs' P1 qs1"
    using b p t(3,4) unfolding flow_def Let_def by auto
  have up: "U + int (sent (send_window (task (chan A)))) \<le> U1 + int (sent (send_window tk'))" using p by blast
  have pkA: "packets_ok ?A U1 P1 qs1"
    unfolding packets_ok_def
  proof
    fix x assume "x \<in> set (outgoing (task (chan ?A)))"
    then have "x \<in> set (outgoing tk')" by simp
    then consider (old) "x \<in> set (outgoing (task (chan A)))"
      | (new) "data_of ?f U (U1 + int (sent (send_window tk'))) x \<or> ack_of 0 (received P1 qs1) x"
      using p by auto
    then have "arrives ?f (U1 + int (sent (send_window tk'))) (received P1 qs1) x"
    proof cases
      case old
      then have "arrives ?f (U + int (sent (send_window (task (chan A))))) (received P' qs') x"
        using pk(1) unfolding packets_ok_def by blast
      from arrives_grow [OF this ab(1) up, of "received P1 qs1" "[]"] p show ?thesis by simp
    next
      case new
      then show ?thesis using a(5) unfolding arrives_def data_of_def by fastforce
    qed
    then show "arrives (stream_of 0 (accepted ?A)) (U1 + int (sent (send_window (task (chan ?A)))))
        (received P1 qs1) x" by simp
  qed
  have "net_inv tmA tmB M N ?A B"
    by (rule net_invI [OF f1 f2 pkA pk(2)]) (use M N p in simp_all)
  with code show ?thesis by blast
qed

subsection \<open>The applications\<close>

text \<open>A channel with another ring behind its send window.\<close>

definition set_send_ring :: "'i reliable_channel \<Rightarrow> ring_buffer \<Rightarrow> 'i reliable_channel" where
  "set_send_ring ch rb = ch\<lparr>task := (task ch)\<lparr>send_window := (send_window (task ch))\<lparr>sw_ring := rb\<rparr>\<rparr>\<rparr>"

lemma set_send_ring_simps [simp]:
  "sw_ring (send_window (task (set_send_ring ch rb))) = rb"
  "sent (send_window (task (set_send_ring ch rb))) = sent (send_window (task ch))"
  "outgoing (task (set_send_ring ch rb)) = outgoing (task ch)"
  "outgoing_open (task (set_send_ring ch rb)) = outgoing_open (task ch)"
  "settings (task (set_send_ring ch rb)) = settings (task ch)"
  "recv_window (task (set_send_ring ch rb)) = recv_window (task ch)"
  "unacked (task (set_send_ring ch rb)) = unacked (task ch)"
  "limiter (task (set_send_ring ch rb)) = limiter (task ch)"
  "remote_recv_available (task (set_send_ring ch rb)) = remote_recv_available (task ch)"
  "pool_capacity (task (set_send_ring ch rb)) = pool_capacity (task ch)"
  "set_send_ring (set_send_ring ch rb) rb' = set_send_ring ch rb'"
  by (simp_all add: set_send_ring_def)

definition write_room :: "'i reliable_channel \<Rightarrow> nat" where
  "write_room ch = (let rb = sw_ring (send_window (task ch)) in rb_capacity rb - rb_count rb)"

lemma write_ring_inv:
  assumes inv: "task_inv tm (stream_of 0 acc) U rs (task ch)" and U: "0 \<le> U"
    and len: "U + int (rb_count (sw_ring (send_window (task ch)))) = int (length acc)"
    and n: "n = min (length data) (write_room ch)"
  shows "\<exists>rb. write_ring ch data = Some (set_send_ring ch rb, n) \<and>
     task_inv tm (stream_of 0 (acc @ take n data)) U rs (task (set_send_ring ch rb)) \<and>
     U + int (rb_count rb) = int (length (acc @ take n data)) \<and>
     rb_capacity rb = rb_capacity (sw_ring (send_window (task ch)))"
proof -
  let ?w = "send_window (task ch)" and ?f = "stream_of 0 (acc @ take n data)"
  have n': "min (length data) (rb_capacity (sw_ring ?w) - rb_count (sw_ring ?w)) = n"
    using n by (simp add: write_room_def Let_def)
  have "stream_bytes ?f U (rb_count (sw_ring ?w)) = stream_bytes (stream_of 0 acc) U (rb_count (sw_ring ?w))"
    using U len by (intro stream_bytes_of_append) auto
  then have inv': "send_inv ?f U rs ?w" using task_invD(1) [OF inv] by (simp add: send_inv_def)
  have "take n data = stream_bytes ?f (U + int (rb_count (sw_ring ?w))) n"
    using U len n by (subst stream_bytes_of) auto
  from send_window_write [OF inv', of data, unfolded n', OF this] obtain rb where
    rb: "SendWindowWriter_write (sw_ring ?w) data = Some (rb, n)" "send_inv ?f U rs (?w\<lparr>sw_ring := rb\<rparr>)"
    "rb_count rb = rb_count (sw_ring ?w) + n" "rb_capacity rb = rb_capacity (sw_ring ?w)" by blast
  have "task_inv tm ?f U rs (task (set_send_ring ch rb))"
    using inv rb(2) by (simp add: task_inv_def max_payload_def instants_ok_def set_send_ring_def)
  moreover have "U + int (rb_count rb) = int (length (acc @ take n data))" using rb(3) len n by simp
  ultimately show ?thesis using rb(1,4) by (intro exI [of _ rb]) (simp add: write_ring_def set_send_ring_def)
qed

text \<open>A write through the poll appends as much as there is room for, and waits only when there is none.\<close>

lemma poll_write_inv:
  assumes run: "handle ch = Running" and inv: "task_inv tm (stream_of 0 acc) U rs (task ch)" and U: "0 \<le> U"
    and len: "U + int (rb_count (sw_ring (send_window (task ch)))) = int (length acc)"
    and n: "n = min (length data) (write_room ch)"
  shows "\<exists>tk. poll_write id ch data =
       Some (ch\<lparr>task := tk\<rparr>, if data \<noteq> [] \<and> n = 0 then Pending else Ready (Inr n)) \<and>
     task_inv tm (stream_of 0 (acc @ take n data)) U rs tk \<and>
     U + int (rb_count (sw_ring (send_window tk))) = int (length (acc @ take n data)) \<and>
     sent (send_window tk) = sent (send_window (task ch)) \<and> outgoing tk = outgoing (task ch) \<and>
     outgoing_open tk = outgoing_open (task ch) \<and> settings tk = settings (task ch) \<and>
     recv_window tk = recv_window (task ch) \<and> write_room (ch\<lparr>task := tk\<rparr>) = write_room ch - n"
proof (cases "data = []")
  case True
  then show ?thesis using run inv len n by (intro exI [of _ "task ch"]) (simp add: poll_write_def)
next
  case False
  obtain rb where w: "write_ring ch data = Some (set_send_ring ch rb, n)"
    "task_inv tm (stream_of 0 (acc @ take n data)) U rs (task (set_send_ring ch rb))"
    "U + int (rb_count rb) = int (length (acc @ take n data))"
    "rb_capacity rb = rb_capacity (sw_ring (send_window (task ch)))"
    using write_ring_inv [OF inv U len n] by blast
  have count: "rb_count rb' = rb_count (sw_ring (send_window (task ch))) + n"
    if "U + int (rb_count rb') = int (length (acc @ take n data))" for rb' using that len n by simp
  have put: "set_send_ring ch r = ch\<lparr>task := task (set_send_ring ch r)\<rparr>" for r by (simp add: set_send_ring_def)
  show ?thesis
  proof (cases "0 < n")
    case True
    then have "poll_write id ch data = Some (ch\<lparr>task := task (set_send_ring ch rb)\<rparr>, Ready (Inr n))"
      using run False w(1) put by (simp add: poll_write_def)
    then show ?thesis using w(2-4) True count [OF w(3)]
      by (intro exI [of _ "task (set_send_ring ch rb)"]) (simp add: write_room_def Let_def)
  next
    case n0: False
    let ?ch = "set_send_ring ch rb"
    have "rb_count rb = rb_count (sw_ring (send_window (task ch)))" using w(3) n0 len by simp
    then have "write_room ?ch = write_room ch" using w(4) by (simp add: write_room_def Let_def)
    then have n': "n = min (length data) (write_room ?ch)" using n by simp
    obtain rb2 where w2: "write_ring ?ch data = Some (set_send_ring ?ch rb2, n)"
      "task_inv tm (stream_of 0 (acc @ take n data)) U rs (task (set_send_ring ?ch rb2))"
      "U + int (rb_count rb2) = int (length (acc @ take n data))" "rb_capacity rb2 = rb_capacity rb"
      using write_ring_inv [OF _ U _ n', of tm acc rs] w(2,3) n0 by auto
    let ?tk = "wake_up Wake_send_ready (task (set_send_ring ch rb2))"
    have "poll_write id ch data = Some (ch\<lparr>task := ?tk\<rparr>, Pending)"
      using run False w(1) n0 w2(1) by (simp add: poll_write_def set_send_ring_def)
    moreover have "task_inv tm (stream_of 0 (acc @ take n data)) U rs ?tk"
      using w2(2) by (simp add: wake_up_def task_inv_def max_payload_def instants_ok_def)
    ultimately show ?thesis using w2(3,4) w(4) n0 False count [OF w2(3)]
      by (intro exI [of _ ?tk]) (simp add: wake_up_def write_room_def Let_def)
  qed
qed

definition readable :: "'i reliable_channel \<Rightarrow> nat" where
  "readable ch = rb_count (rw_ring (recv_window (task ch)))"

lemma read_ring_inv:
  assumes inv: "recv_inv f P qs (recv_window (task ch))" and n: "n = min (length buf) (readable ch)"
  shows "\<exists>rb. read_ring ch buf =
       Some (ch\<lparr>task := (task ch)\<lparr>recv_window := (recv_window (task ch))\<lparr>rw_ring := rb\<rparr>\<rparr>\<rparr>,
         stream_bytes f (P - int (rb_count (rw_ring (recv_window (task ch))))) n @ drop n buf, n) \<and>
     recv_inv f P qs ((recv_window (task ch))\<lparr>rw_ring := rb\<rparr>) \<and>
     rb_capacity rb = rb_capacity (rw_ring (recv_window (task ch))) \<and>
     P - int (rb_count rb) = P - int (rb_count (rw_ring (recv_window (task ch)))) + int n"
  using reader_step [OF inv, of buf] unfolding read_ring_def stream_bytes_def n readable_def by auto

text \<open>A read through the poll returns the next bytes of the stream.\<close>

lemma poll_read_inv:
  assumes run: "handle ch = Running" and inv: "recv_inv f P qs (recv_window (task ch))"
    and n: "n = min (length buf) (readable ch)"
  shows "\<exists>rb. poll_read id ch buf =
       Some (ch\<lparr>task := (task ch)\<lparr>recv_window := (recv_window (task ch))\<lparr>rw_ring := rb\<rparr>\<rparr>\<rparr>,
         stream_bytes f (P - int (rb_count (rw_ring (recv_window (task ch))))) n @ drop n buf,
         if buf \<noteq> [] \<and> n = 0 then Pending else Ready (Inr n)) \<and>
     recv_inv f P qs ((recv_window (task ch))\<lparr>rw_ring := rb\<rparr>) \<and>
     rb_capacity rb = rb_capacity (rw_ring (recv_window (task ch))) \<and>
     P - int (rb_count rb) = P - int (rb_count (rw_ring (recv_window (task ch)))) + int n"
proof (cases "buf = []")
  case True
  then show ?thesis using run inv n
    by (intro exI [of _ "rw_ring (recv_window (task ch))"]) (simp add: poll_read_def stream_bytes_def)
next
  case False
  define up where "up c rb = c\<lparr>task := (task c)\<lparr>recv_window := (recv_window (task c))\<lparr>rw_ring := rb\<rparr>\<rparr>\<rparr>"
    for c :: "'a reliable_channel" and rb
  let ?B = "P - int (rb_count (rw_ring (recv_window (task ch))))"
  from read_ring_inv [OF inv n] obtain rb where
    r1: "n \<le> length buf" "read_ring ch buf = Some (up ch rb, stream_bytes f ?B n @ drop n buf, n)"
    "recv_inv f P qs ((recv_window (task ch))\<lparr>rw_ring := rb\<rparr>)"
    "rb_capacity rb = rb_capacity (rw_ring (recv_window (task ch)))" "P - int (rb_count rb) = ?B + int n"
    using n unfolding up_def by auto
  show ?thesis
  proof (cases "0 < n")
    case True
    then have "poll_read id ch buf = Some (up ch rb, stream_bytes f ?B n @ drop n buf, Ready (Inr n))"
      using run False r1(2) by (simp add: poll_read_def)
    then show ?thesis using r1 True by (intro exI [of _ rb]) (simp add: up_def)
  next
    case n0: False
    have inv1: "recv_inv f P qs (recv_window (task (up ch rb)))" using r1(3) by (simp add: up_def)
    have B1: "P - int (rb_count (rw_ring (recv_window (task (up ch rb))))) = ?B" using r1(5) n0 by (simp add: up_def)
    have "readable (up ch rb) = readable ch" using r1(5) n0 by (simp add: readable_def up_def)
    then have n': "n = min (length buf) (readable (up ch rb))" using n by simp
    from read_ring_inv [OF inv1 n', unfolded B1] obtain rb2 where
      r2: "read_ring (up ch rb) buf = Some (up (up ch rb) rb2, stream_bytes f ?B n @ drop n buf, n)"
      "recv_inv f P qs ((recv_window (task (up ch rb)))\<lparr>rw_ring := rb2\<rparr>)"
      "rb_capacity rb2 = rb_capacity (rw_ring (recv_window (task (up ch rb))))" "P - int (rb_count rb2) = ?B + int n"
      unfolding up_def by blast
    have "up (up ch rb) rb2 = up ch rb2" by (simp add: up_def)
    then have "poll_read id ch buf = Some (up ch rb2, stream_bytes f ?B n @ drop n buf, Pending)"
      using run False r1(2) n0 r2(1) by (simp add: poll_read_def)
    then show ?thesis using r1(4) r2 n0 False by (intro exI [of _ rb2]) (simp add: up_def)
  qed
qed

subsection \<open>Steps of the network\<close>

lemma net_poll_write:
  assumes inv: "net_inv tmA tmB M N A B" and room: "length (accepted A) + length data \<le> M"
    and n_def: "n = min (length data) (write_room (chan A))"
  shows "\<exists>ch. poll_write id (chan A) data = Some (ch, if data \<noteq> [] \<and> n = 0 then Pending else Ready (Inr n)) \<and>
     write_room ch = write_room (chan A) - n \<and>
     net_inv tmA tmB M N (A\<lparr>chan := ch, accepted := accepted A @ take n data\<rparr>) B"
proof -
  from inv obtain U rs P qs U' rs' P' qs' where
    fl: "flow tmA A B U rs P qs" "flow tmB B A U' rs' P' qs'"
    and pk: "packets_ok A U P' qs'" "packets_ok B U' P qs"
    and M: "int M + int (rb_capacity (rw_ring (recv_window (task (chan B))))) < half_span"
    and N: "int N + int (rb_capacity (rw_ring (recv_window (task (chan A))))) < half_span" "length (accepted B) \<le> N"
    unfolding net_inv_def by blast
  note a = flowD [OF fl(1)] and b = flowD [OF fl(2)] and ab = flow_bounds [OF fl(1)]
  define new where "new = take n data"
  from poll_write_inv [OF a(1) a(4) a(5) a(6) n_def] obtain tk where
    w: "poll_write id (chan A) data =
       Some ((chan A)\<lparr>task := tk\<rparr>, if data \<noteq> [] \<and> n = 0 then Pending else Ready (Inr n))"
     "length new \<le> length data"
     "task_inv tmA (stream_of 0 (accepted A @ new)) U rs tk"
     "U + int (rb_count (sw_ring (send_window tk))) = int (length (accepted A @ new))"
     "sent (send_window tk) = sent (send_window (task (chan A)))" "outgoing tk = outgoing (task (chan A))"
     "outgoing_open tk = outgoing_open (task (chan A))" "settings tk = settings (task (chan A))"
     "recv_window tk = recv_window (task (chan A))" "write_room ((chan A)\<lparr>task := tk\<rparr>) = write_room (chan A) - n"
    by (auto simp: new_def)
  let ?A = "A\<lparr>chan := (chan A)\<lparr>task := tk\<rparr>, accepted := accepted A @ new\<rparr>"
  have "stream_of 0 (accepted A) x = stream_of 0 (accepted A @ new) x" if "x \<in> received P qs" for x
    using confined_received [OF a(8)] that ab(1) by (subst stream_of_append) auto
  from recv_inv_agree [OF a(7) this] have ri: "recv_inv (stream_of 0 (accepted A @ new)) P qs (recv_window (task (chan B)))" .
  have dl: "delivered B = take (length (delivered B)) (accepted A @ new)" using a(10) ab(3) by simp
  have st: "settled U rs (send_window tk) = settled U rs (send_window (task (chan A)))"
    using w(5) by (simp add: settled_def)
  have f1: "flow tmA ?A B U rs P qs"
    unfolding flow_def Let_def using a w(3-8) ri dl st by simp
  have f2: "flow tmB B ?A U' rs' P' qs'"
    unfolding flow_def Let_def using b w(9) by simp
  have p1: "packets_ok ?A U P' qs'"
    unfolding packets_ok_def using pk(1) w(5,6) arrives_grow [OF _ ab(1)] by (auto simp: packets_ok_def)
  have "net_inv tmA tmB M N ?A B"
    by (rule net_invI [OF f1 f2 p1 pk(2)]) (use M N w(2,9) room in simp_all)
  then show ?thesis using w(1,10) by (intro exI [of _ "(chan A)\<lparr>task := tk\<rparr>"]) (simp add: new_def)
qed

lemma net_poll_read:
  assumes inv: "net_inv tmA tmB M N A B" and n_def: "n = min (length buf) (readable (chan A))"
  shows "\<exists>ch. length (delivered A) + n \<le> length (accepted B) \<and> readable ch = readable (chan A) - n \<and>
     poll_read id (chan A) buf = Some (ch, take n (drop (length (delivered A)) (accepted B)) @ drop n buf,
       if buf \<noteq> [] \<and> n = 0 then Pending else Ready (Inr n)) \<and>
     net_inv tmA tmB M N
       (A\<lparr>chan := ch, delivered := delivered A @ take n (drop (length (delivered A)) (accepted B))\<rparr>) B"
proof -
  from inv obtain U rs P qs U' rs' P' qs' where
    fl: "flow tmA A B U rs P qs" "flow tmB B A U' rs' P' qs'"
    and pk: "packets_ok A U P' qs'" "packets_ok B U' P qs"
    and M: "int M + int (rb_capacity (rw_ring (recv_window (task (chan B))))) < half_span" "length (accepted A) \<le> M"
    and N: "int N + int (rb_capacity (rw_ring (recv_window (task (chan A))))) < half_span" "length (accepted B) \<le> N"
    unfolding net_inv_def by blast
  note a = flowD [OF fl(1)] and b = flowD [OF fl(2)] and bb = flow_bounds [OF fl(2)]
  let ?g = "stream_of 0 (accepted B)" and ?d = "delivered A" and ?w = "recv_window (task (chan A))"
  from poll_read_inv [OF a(1) b(7) n_def] obtain rb where
    w: "n \<le> length buf" "poll_read id (chan A) buf =
       Some ((chan A)\<lparr>task := (task (chan A))\<lparr>recv_window := ?w\<lparr>rw_ring := rb\<rparr>\<rparr>\<rparr>,
         stream_bytes ?g (int (length ?d)) n @ drop n buf, if buf \<noteq> [] \<and> n = 0 then Pending else Ready (Inr n))"
     "recv_inv ?g P' qs' (?w\<lparr>rw_ring := rb\<rparr>)" "rb_capacity rb = rb_capacity (rw_ring ?w)"
     "P' - int (rb_count rb) = int (length ?d) + int n"
    using n_def unfolding b(9) by auto
  let ?tk = "(task (chan A))\<lparr>recv_window := ?w\<lparr>rw_ring := rb\<rparr>\<rparr>" and ?new = "take n (drop (length ?d) (accepted B))"
  let ?A = "A\<lparr>chan := (chan A)\<lparr>task := ?tk\<rparr>, delivered := ?d @ ?new\<rparr>"
  have le: "length ?d + n \<le> length (accepted B)" using w(5) bb(1,2) by linarith
  then have new: "stream_bytes ?g (int (length ?d)) n = ?new" by (subst stream_bytes_of) auto
  then have dl: "?d @ ?new = take (length ?d + n) (accepted B)" using b(10) by (simp add: take_add)
  have "task_inv tmA (stream_of 0 (accepted A)) U rs ?tk"
    using task_invD(6) [OF a(4)] by (intro task_inv_cong [OF a(4)]) simp_all
  then have f1: "flow tmA ?A B U rs P qs" unfolding flow_def Let_def using a by simp
  have f2: "flow tmB B ?A U' rs' P' qs'"
    unfolding flow_def Let_def using b w(3,5) dl le by simp
  have p1: "packets_ok ?A U P' qs'" using pk(1) by (simp add: packets_ok_def)
  have "net_inv tmA tmB M N ?A B"
    by (rule net_invI [OF f1 f2 p1 pk(2)]) (use M N w(4) in simp_all)
  moreover have "readable ((chan A)\<lparr>task := ?tk\<rparr>) = readable (chan A) - n"
    using w(5) b(9) by (simp add: readable_def)
  ultimately show ?thesis using w(1,2) le unfolding new by (intro exI [of _ "(chan A)\<lparr>task := ?tk\<rparr>"]) simp
qed

lemma net_flush:
  assumes "net_inv tmA tmB M N A B"
  shows "\<exists>ch. ReliableChannel_flush (chan A) = (ch, Inr ()) \<and> net_inv tmA tmB M N (A\<lparr>chan := ch\<rparr>) B"
  using assms
  unfolding net_inv_def flow_def packets_ok_def Let_def ReliableChannel_flush_def wake_up_def task_inv_def
    max_payload_def instants_ok_def
  by auto

definition visits_entries :: "visit_order \<Rightarrow> bool" where
  "visits_entries visit \<longleftrightarrow> (\<forall>seed xs. mset (visit seed xs) = mset xs)"

lemma visits_entriesD: "visits_entries visit \<Longrightarrow> set (visit seed xs) = set xs"
  unfolding visits_entries_def by (metis mset_eq_setD)

definition write_length :: "net_event \<Rightarrow> nat" where
  "write_length ev = (case ev of App_write data \<Rightarrow> length data | _ \<Rightarrow> 0)"

lemma written_Cons [simp]: "written side (e # es) = (if fst e = side then write_length (snd e) else 0) + written side es"
  by (cases e; cases "snd e") (auto simp: write_length_def)

lemma net_channel_event:
  assumes inv: "net_inv tmA tmB M N A B" and mono: "monotonic_timer tmA" and vis: "visits_entries visit"
  shows "\<exists>ch. channel_event tmA visit (outgoing (task (chan B))) (chan A) ev = Some ch \<and>
     net_inv tmA tmB M N (A\<lparr>chan := ch\<rparr>) B"
proof -
  from inv obtain U rs P qs U' rs' P' qs' where
    fl: "flow tmA A B U rs P qs" "flow tmB B A U' rs' P' qs'"
    and pk: "packets_ok A U P' qs'" "packets_ok B U' P qs"
    and M: "int M + int (rb_capacity (rw_ring (recv_window (task (chan B))))) < half_span" "length (accepted A) \<le> M"
    and N: "int N + int (rb_capacity (rw_ring (recv_window (task (chan A))))) < half_span" "length (accepted B) \<le> N"
    unfolding net_inv_def by blast
  note round = net_round [OF fl pk mono M N]
  have keys: "set (visit seed (unacked_keys (chan A))) \<subseteq> fst ` set (unacked (task (chan A)))" for seed
    using visits_entriesD [OF vis] by simp
  show ?thesis
  proof (cases ev)
    case (Timer_fires seed)
    then show ?thesis using round [of "ResendTimer (visit seed (unacked_keys (chan A)))"] keys by (simp add: reason_ok_def)
  next
    case (Can_send seed)
    then show ?thesis using round [of "SendAvailable (visit seed (unacked_keys (chan A)))"] keys inv
      by (auto simp: reason_ok_def Let_def)
  next
    case (Packet_arrives i)
    show ?thesis
    proof (cases "i < length (outgoing (task (chan B)))")
      case True
      then have "arrives (stream_of 0 (accepted B)) (U' + int (sent (send_window (task (chan B)))))
          (received P qs) (outgoing (task (chan B)) ! i)"
        using pk(2) by (simp add: packets_ok_def)
      with True Packet_arrives show ?thesis
        using round [of "IncomingPacket (Some (outgoing (task (chan B)) ! i))"] by (simp add: reason_ok_def)
    next
      case False
      then show ?thesis using Packet_arrives inv by simp
    qed
  qed
qed

lemma endpoint_step_inv:
  assumes inv: "net_inv tmA tmB M N A B" and mono: "monotonic_timer tmA" and vis: "visits_entries visit"
    and room: "length (accepted A) + write_length ev \<le> M"
  shows "\<exists>A'. endpoint_step tmA visit (outgoing (task (chan B))) A ev = Some A' \<and> net_inv tmA tmB M N A' B \<and>
     length (accepted A') \<le> length (accepted A) + write_length ev"
proof (cases ev)
  case (App_write data)
  then have "length (accepted A) + length data \<le> M" using room by (simp add: write_length_def)
  from net_poll_write [OF inv this refl] obtain ch n where
    w: "n \<le> length data" "poll_write id (chan A) data = Some (ch, if data \<noteq> [] \<and> n = 0 then Pending else Ready (Inr n))"
    "net_inv tmA tmB M N (A\<lparr>chan := ch, accepted := accepted A @ take n data\<rparr>) B"
    by (metis min.cobounded1)
  then have "endpoint_step tmA visit (outgoing (task (chan B))) A ev =
      Some (A\<lparr>chan := ch, accepted := accepted A @ take n data\<rparr>)" using App_write by auto
  moreover have "write_length ev = length data" using App_write by (simp add: write_length_def)
  ultimately show ?thesis using w(1,3) by simp
next
  case (App_read k)
  define n where "n = min (length (replicate k (0 :: byte))) (readable (chan A))"
  from net_poll_read [OF inv n_def] obtain ch where
    r: "n \<le> k" "length (delivered A) + n \<le> length (accepted B)"
    "poll_read id (chan A) (replicate k 0) = Some (ch, take n (drop (length (delivered A)) (accepted B)) @ replicate (k - n) 0,
       if 0 < k \<and> n = 0 then Pending else Ready (Inr n))"
    "net_inv tmA tmB M N
       (A\<lparr>chan := ch, delivered := delivered A @ take n (drop (length (delivered A)) (accepted B))\<rparr>) B"
    using n_def by auto
  then have "endpoint_step tmA visit (outgoing (task (chan B))) A ev =
      Some (A\<lparr>chan := ch, delivered := delivered A @ take n (drop (length (delivered A)) (accepted B))\<rparr>)"
    using App_read by auto
  then show ?thesis using r by simp
next
  case (Round ev')
  then show ?thesis using net_channel_event [OF inv mono vis, of ev'] by auto
qed

lemma net_run_inv:
  assumes "net_inv tmA tmB M N A B" and "monotonic_timer tmA" and "monotonic_timer tmB" and "visits_entries visit"
    and "length (accepted A) + written True es \<le> M" and "length (accepted B) + written False es \<le> N"
  shows "\<exists>A' B'. net_run tmA tmB visit (A, B) es = Some (A', B') \<and> net_inv tmA tmB M N A' B'"
  using assms
proof (induction es arbitrary: A B)
  case (Cons e es)
  obtain side ev where e: "e = (side, ev)" by (cases e)
  show ?case
  proof (cases side)
    case True
    then obtain A' where "endpoint_step tmA visit (outgoing (task (chan B))) A ev = Some A'"
      "net_inv tmA tmB M N A' B" "length (accepted A') \<le> length (accepted A) + write_length ev"
      using endpoint_step_inv [OF Cons.prems(1,2,4), of ev] Cons.prems(5) e by auto
    then show ?thesis using Cons.IH [of A' B] Cons.prems e True by (simp add: net_step_def)
  next
    case False
    then obtain B' where "endpoint_step tmB visit (outgoing (task (chan A))) B ev = Some B'"
      "net_inv tmB tmA N M B' A" "length (accepted B') \<le> length (accepted B) + write_length ev"
      using endpoint_step_inv [OF Cons.prems(1) [unfolded net_inv_sym [of tmA]] Cons.prems(3,4), of ev]
        Cons.prems(6) e by auto
    then show ?thesis using Cons.IH [of A B'] Cons.prems e False
      by (simp add: net_step_def net_inv_sym [of tmA])
  qed
qed simp

text \<open>When the sender's buffer is empty and the receiver has nothing left to read, all of the stream was delivered.\<close>

lemma flow_complete:
  assumes fl: "flow tm A B U rs P qs" and "rb_count (sw_ring (send_window (task (chan A)))) = 0"
    and "readable (chan B) = 0"
  shows "delivered B = accepted A"
proof -
  note i = flowD [OF fl]
  let ?w = "send_window (task (chan A))"
  have U: "U = int (length (accepted A))" and P: "P = int (length (delivered B))"
    using i(6,9) assms(2,3) by (simp_all add: readable_def)
  have "{..<U} \<subseteq> settled U rs ?w"
    using send_range_bounds(1) [OF task_invD(1) [OF i(4)]] unfolding settled_def range_set_def by fastforce
  then have sub: "{..<U} \<subseteq> received P qs" using i(11) by blast
  have "P \<notin> received P qs" using i(7) by (auto simp: recv_inv_def clear_of_def received_def range_set_def)
  then have "U \<le> P" using sub by (meson lessThan_iff not_le subsetD)
  then show ?thesis using i(10) U P by simp
qed

subsection \<open>Start\<close>

definition endpoint_new :: "'i timer \<Rightarrow> nat \<Rightarrow> rel_settings \<Rightarrow> 'i endpoint option" where
  "endpoint_new tm cap st = do {
     ch \<leftarrow> ReliableChannel_new tm cap st;
     Some \<lparr>chan = ch, accepted = [], delivered = []\<rparr>
   }"

definition settings_ok :: "nat \<Rightarrow> rel_settings \<Rightarrow> bool" where
  "settings_ok cap st \<longleftrightarrow> 10 \<le> cap \<and> cap \<le> u32_max \<and> init_send st \<le> u32_max \<and> set_burst_bandwidth st \<le> u32_max"

lemma Task_new_inv:
  assumes "Task_new tm cap st = Some tk" and "settings_ok cap st"
  shows "task_inv tm f 0 [] tk" "recv_inv g 0 [] (recv_window tk)" "outgoing_open tk" "outgoing tk = []"
    "settings tk = st" "sent (send_window tk) = 0" "rb_count (sw_ring (send_window tk)) = 0"
    "rb_count (rw_ring (recv_window tk)) = 0" "rb_capacity (rw_ring (recv_window tk)) = recv_window_size st"
    "rb_capacity (sw_ring (send_window tk)) = send_window_size st"
proof -
  have z: "(0 :: stream_pos) = pos_of 0" by (simp add: pos_of_def)
  obtain sw rw where w: "SendWindow_new (send_window_size st) (pos_of 0) = Some sw"
    "RecvWindow_new (recv_window_size st) (pos_of 0) = Some rw"
    "tk = \<lparr>settings = st, pool_capacity = cap, outgoing = [], outgoing_open = True,
       send_window = sw, recv_window = rw, remote_recv_available = init_send st, unacked = [],
       rtt_estimate = as_secs_f64 (initial_rtt st),
       limiter = BandwidthLimiter_new (clock tm 0) (set_bandwidth st) (set_burst_bandwidth st),
       wakes = [], clock_reads = 1\<rparr>"
    using assms(1) unfolding Task_new_def z by (auto simp: option_bind_eq_Some)
  note s = send_inv_new(1) [OF w(1), of f] send_inv_new(2,3) [OF w(1)]
  note r = recv_inv_new(1) [OF w(2), of g] recv_inv_new(2,3) [OF w(2)]
  have "instants_ok tm tk" by (simp add: w(3) instants_ok_def BandwidthLimiter_new_def)
  moreover have "tracks [] (unacked tk)" by (simp add: w(3) tracks_def spans_def graph_def)
  ultimately show "task_inv tm f 0 [] tk"
    using assms(2) s(1) limiter_new_ok [of "set_burst_bandwidth st" cap "clock tm 0" "set_bandwidth st"]
    by (simp add: task_inv_def w(3) settings_ok_def)
  show "sent (send_window tk) = 0" using send_invD(7) [OF s(1)] by (simp add: w(3))
  show "recv_inv g 0 [] (recv_window tk)" using r(1) by (simp add: w(3))
  show "rb_count (sw_ring (send_window tk)) = 0" "rb_count (rw_ring (recv_window tk)) = 0"
    "rb_capacity (rw_ring (recv_window tk)) = recv_window_size st"
    "rb_capacity (sw_ring (send_window tk)) = send_window_size st" using s(2,3) r(2,3) by (simp_all add: w(3))
qed (use assms in \<open>auto simp: Task_new_def option_bind_eq_Some\<close>)

lemma endpoint_new_ok:
  assumes "endpoint_new tm cap st = Some A" and "settings_ok cap st"
  shows "Task_new tm cap st = Some (task (chan A))" "handle (chan A) = Running" "accepted A = []" "delivered A = []"
  using assms by (auto simp: endpoint_new_def ReliableChannel_new_def option_bind_eq_Some)

lemma flow_new:
  assumes A: "endpoint_new tmA capA stA = Some A" "settings_ok capA stA"
    and B: "endpoint_new tmB capB stB = Some B" "settings_ok capB stB"
  shows "flow tmA A B 0 [] 0 []"
proof -
  note a = endpoint_new_ok [OF A] and b = endpoint_new_ok [OF B]
  note ta = Task_new_inv [OF a(1) A(2)] and tb = Task_new_inv [OF b(1) B(2)]
  show ?thesis
    unfolding flow_def Let_def
    using a(2-4) b(2-4) ta tb A(2) by (simp add: settings_ok_def confined_def settled_def received_def)
qed

lemma net_inv_new:
  assumes A: "endpoint_new tmA capA stA = Some A" "settings_ok capA stA"
    and B: "endpoint_new tmB capB stB = Some B" "settings_ok capB stB"
    and "int M + int (recv_window_size stB) < half_span" "int N + int (recv_window_size stA) < half_span"
  shows "net_inv tmA tmB M N A B"
proof -
  note a = endpoint_new_ok [OF A] and b = endpoint_new_ok [OF B]
  note ta = Task_new_inv(4,9) [OF a(1) A(2)] and tb = Task_new_inv(4,9) [OF b(1) B(2)]
  have "packets_ok A 0 0 []" "packets_ok B 0 0 []" using ta(1) tb(1) by (simp_all add: packets_ok_def)
  then show ?thesis
    using net_invI [OF flow_new [OF A B] flow_new [OF B A]] assms(5,6) ta(2) tb(2) a(3) b(3) by simp
qed

subsection \<open>A concrete configuration for the witnesses\<close>

definition nano_timer :: "nat timer" where
  "nano_timer = \<lparr>clock = (\<lambda>n. n), duration_between = (\<lambda>a b. Some (b - a))\<rparr>"

definition small_settings :: rel_settings where
  "small_settings = \<lparr>set_bandwidth = 1000, set_burst_bandwidth = 1000, recv_window_size = 64,
     send_window_size = 64, init_send = 32, resend_time = 50, initial_rtt = 100, max_rtt = 2000,
     rtt_update_factor = 1 / 2, rtt_resend_factor = 2\<rparr>"

lemma nano_timer_monotonic: "monotonic_timer nano_timer"
  by (simp add: monotonic_timer_def nano_timer_def)

lemma small_settings_ok: "settings_ok 100 small_settings"
  by (simp add: settings_ok_def small_settings_def u32_max_def)

lemma small_task: "\<exists>tk. Task_new nano_timer 100 small_settings = Some tk"
  by (simp add: Task_new_def small_settings_def SendWindow_new_def RecvWindow_new_def RingBuffer_new_def
      u32_max_def isize_max_def)

lemma small_endpoint: "\<exists>A. endpoint_new nano_timer 100 small_settings = Some A"
  using small_task by (auto simp: endpoint_new_def ReliableChannel_new_def)

lemma small_channel: "\<exists>ch. ReliableChannel_new nano_timer 100 small_settings = Some ch"
  using small_task by (auto simp: ReliableChannel_new_def)

end
