(* ===== verification/Reliable_Properties.thy ===== *)
theory Reliable_Properties
  imports Reliable_Network "HOL-Library.Sublist"
begin

text \<open>
  The properties of the reliable channel: end to end over an adversarial network, and of each handler
  of its task.
\<close>

subsection \<open>Tasks for the witnesses\<close>

text \<open>A task with three bytes to send, and the same task once they were sent and the first acknowledged.\<close>

lemma loaded_task:
  "\<exists>tk. task_inv nano_timer (stream_of 0 [1, 2, 3]) 0 [] tk \<and> send_amount tk = 3 \<and> outgoing_open tk \<and>
     outgoing tk = [] \<and> sent (send_window tk) = 0"
proof -
  obtain tk where tk: "Task_new nano_timer 100 small_settings = Some tk" using small_task by blast
  note i = Task_new_inv [OF tk small_settings_ok]
  have f: "bytes_available (limiter tk)" "remote_recv_available tk = 32" "pool_capacity tk = 100"
    using tk by (auto simp: Task_new_def option_bind_eq_Some small_settings_def bytes_available_def
        BandwidthLimiter_new_def)
  define ch where "ch = \<lparr>task = tk, handle = Running\<rparr>"
  have ti: "task_inv nano_timer (stream_of 0 []) 0 [] (task ch)" using i(1) by (simp add: ch_def)
  have n: "3 = min (length [1, 2, 3 :: byte]) (write_room ch)"
    using i(7,10) by (simp add: write_room_def ch_def small_settings_def)
  from write_ring_inv [OF ti _ _ n] i(7) obtain rb where
    rb: "task_inv nano_timer (stream_of 0 [1, 2, 3]) 0 [] (task (set_send_ring ch rb))" "rb_count rb = 3"
    by (auto simp: ch_def)
  moreover have "send_amount (task (set_send_ring ch rb)) = 3"
    using f rb(2) i(6) by (simp add: send_amount_def set_send_ring_def ch_def max_payload_def i16_max_def)
  ultimately show ?thesis using i(3,4,6)
    by (intro exI [of _ "task (set_send_ring ch rb)"]) (simp add: ch_def)
qed

lemma partly_acked_task:
  "\<exists>tk u U. task_inv nano_timer (stream_of 0 [1, 2, 3]) U [(1, 3)] tk \<and> outgoing_open tk \<and>
     map_of (unacked tk) (pos_of 1) = Some u \<and> last_sent u = None"
proof -
  obtain tk where tk: "task_inv nano_timer (stream_of 0 [1, 2, 3]) 0 [] tk" "send_amount tk = 3"
    "outgoing_open tk" "sent (send_window tk) = 0" using loaded_task by blast
  have n: "3 = send_amount tk" and z: "0 = 0 + int (sent (send_window tk))" using tk by simp_all
  from Task_send_effect [OF tk(1) n _ z] tk(3) obtain tk' where
    t: "task_inv nano_timer (stream_of 0 [1, 2, 3]) 0 [(0, 3)] tk'" "outgoing_open tk'"
    by (auto simp: same_frame_def)
  have a: "acks [(0, 3)] 0 1 (pos_of 0) (pos_of 1)" by (simp add: acks_def)
  from ack_unacked_partial [OF t(1) a] obtain sw U' where
    "task_inv nano_timer (stream_of 0 [1, 2, 3]) U' [(1, 3)] (tk'\<lparr>send_window := sw,
       unacked := AList.update (pos_of 1)
         \<lparr>ur_start = pos_of 1, ur_end = pos_of 3, last_sent = None, retransmit = True\<rparr>
         (AList.delete (pos_of 0) (unacked tk'))\<rparr>)" by auto
  with t(2) show ?thesis
    by (intro exI [of _ "tk'\<lparr>send_window := sw, unacked := AList.update (pos_of 1)
         \<lparr>ur_start = pos_of 1, ur_end = pos_of 3, last_sent = None, retransmit = True\<rparr>
         (AList.delete (pos_of 0) (unacked tk'))\<rparr>"]
        exI [of _ "\<lparr>ur_start = pos_of 1, ur_end = pos_of 3, last_sent = None, retransmit = True\<rparr>"]
        exI [of _ U']) (simp add: update_conv)
qed

subsection \<open>End to end\<close>

text \<open>
  C1: reliable, ordered delivery. Two fresh channels run over a network that drops, duplicates, delays
  and reorders packets, under any interleaving of writes, reads, timers, sends and arrivals at both
  ends. No step of either end panics, neither end fails, and what each application has read is a
  prefix of what the other has had accepted. The bound is the one the code needs: a stream, with the
  receive window, that fits half the span of positions.
\<close>

theorem reliable_stream_delivery:
  assumes "endpoint_new tmA capA stA = Some A" and "settings_ok capA stA"
    and "endpoint_new tmB capB stB = Some B" and "settings_ok capB stB"
    and "monotonic_timer tmA" and "monotonic_timer tmB" and "visits_entries visit"
    and "int (written True es) + int (recv_window_size stB) < half_span"
    and "int (written False es) + int (recv_window_size stA) < half_span"
  shows "\<exists>A' B'. net_run tmA tmB visit (A, B) es = Some (A', B') \<and>
     prefix (delivered B') (accepted A') \<and> prefix (delivered A') (accepted B') \<and>
     handle (chan A') = Running \<and> handle (chan B') = Running"
proof -
  have empty: "accepted A = []" "accepted B = []" using endpoint_new_ok assms(1-4) by blast+
  have "net_inv tmA tmB (written True es) (written False es) A B"
    using net_inv_new [OF assms(1-4,8,9)] .
  from net_run_inv [OF this assms(5-7), of es] empty obtain A' B' where
    r: "net_run tmA tmB visit (A, B) es = Some (A', B')"
    "net_inv tmA tmB (written True es) (written False es) A' B'" by auto
  then obtain U rs P qs U' rs' P' qs' where "flow tmA A' B' U rs P qs" "flow tmB B' A' U' rs' P' qs'"
    unfolding net_inv_def by blast
  note a = flowD(1,10) [OF this(1)] and b = flowD(1,10) [OF this(2)]
  have "prefix (delivered B') (accepted A')" "prefix (delivered A') (accepted B')"
    using a(2) b(2) by (metis take_is_prefix)+
  with r(1) a(1) b(1) show ?thesis by blast
qed

theorem reliable_stream_delivery_witness:
  "\<exists>A B A' B'. endpoint_new nano_timer 100 small_settings = Some A \<and>
     endpoint_new nano_timer 100 small_settings = Some B \<and>
     net_run nano_timer nano_timer (\<lambda>_ ks. ks) (A, B)
       [(True, App_write [1, 2, 3]), (True, Round (Can_send 0)), (False, Round (Packet_arrives 0)), (False, App_read 3)] =
       Some (A', B') \<and> prefix (delivered B') (accepted A')"
proof -
  obtain A where A: "endpoint_new nano_timer 100 small_settings = Some A" using small_endpoint by blast
  have "visits_entries (\<lambda>_ ks. ks)" by (simp add: visits_entries_def)
  from reliable_stream_delivery [OF A small_settings_ok A small_settings_ok nano_timer_monotonic
      nano_timer_monotonic this,
      of "[(True, App_write [1, 2, 3]), (True, Round (Can_send 0)), (False, Round (Packet_arrives 0)), (False, App_read 3)]"] A
  show ?thesis by (auto simp: write_length_def small_settings_def)
qed

text \<open>
  C2: nothing is lost. After any such run there is a position such that every byte of the accepted
  stream before it has been stored by the receiver, and every byte from it on is still in the send
  buffer, available for sending again.
\<close>

theorem reliable_stream_retention:
  assumes "endpoint_new tmA capA stA = Some A" and "settings_ok capA stA"
    and "endpoint_new tmB capB stB = Some B" and "settings_ok capB stB"
    and "monotonic_timer tmA" and "monotonic_timer tmB" and "visits_entries visit"
    and "int (written True es) + int (recv_window_size stB) < half_span"
    and "int (written False es) + int (recv_window_size stA) < half_span"
  shows "\<exists>A' B' U P qs. net_run tmA tmB visit (A, B) es = Some (A', B') \<and>
     recv_inv (stream_of 0 (accepted A')) P qs (recv_window (task (chan B'))) \<and>
     {0..<int U} \<subseteq> received P qs \<and>
     (let ring = sw_ring (send_window (task (chan A'))) in
      take (rb_count ring) (rb_view ring) = map Some (drop U (accepted A')))"
proof -
  have empty: "accepted A = []" "accepted B = []" using endpoint_new_ok assms(1-4) by blast+
  have "net_inv tmA tmB (written True es) (written False es) A B"
    using net_inv_new [OF assms(1-4,8,9)] .
  from net_run_inv [OF this assms(5-7), of es] empty obtain A' B' where
    r: "net_run tmA tmB visit (A, B) es = Some (A', B')"
    "net_inv tmA tmB (written True es) (written False es) A' B'" by auto
  then obtain U rs P qs where fl: "flow tmA A' B' U rs P qs" unfolding net_inv_def by blast
  note f = flowD [OF fl]
  let ?w = "send_window (task (chan A'))"
  have si: "send_inv (stream_of 0 (accepted A')) U rs ?w" using task_invD(1) [OF f(4)] .
  have "{..<U} \<subseteq> settled U rs ?w"
    using send_range_bounds(1) [OF si] unfolding settled_def range_set_def by fastforce
  then have "{0..<int (nat U)} \<subseteq> received P qs" using f(5,11) by auto
  moreover have "stream_bytes (stream_of 0 (accepted A')) U (rb_count (sw_ring ?w)) = drop (nat U) (accepted A')"
    using f(5,6) by (subst stream_bytes_of) auto
  then have "take (rb_count (sw_ring ?w)) (rb_view (sw_ring ?w)) = map Some (drop (nat U) (accepted A'))"
    using send_invD(10) [OF si] by simp
  ultimately show ?thesis using r(1) f(7) unfolding Let_def by blast
qed

theorem reliable_stream_retention_witness:
  "\<exists>A B A' B' P qs U. endpoint_new nano_timer 100 small_settings = Some A \<and>
     endpoint_new nano_timer 100 small_settings = Some B \<and>
     net_run nano_timer nano_timer (\<lambda>_ ks. ks) (A, B)
       [(True, App_write [1, 2, 3]), (True, Round (Can_send 0)), (False, Round (Packet_arrives 0)), (True, Round (Packet_arrives 0))] =
       Some (A', B') \<and> recv_inv (stream_of 0 (accepted A')) P qs (recv_window (task (chan B'))) \<and>
     {0..<int U} \<subseteq> received P qs"
proof -
  obtain A where A: "endpoint_new nano_timer 100 small_settings = Some A" using small_endpoint by blast
  have "visits_entries (\<lambda>_ ks. ks)" by (simp add: visits_entries_def)
  from reliable_stream_retention [OF A small_settings_ok A small_settings_ok nano_timer_monotonic
      nano_timer_monotonic this,
      of "[(True, App_write [1, 2, 3]), (True, Round (Can_send 0)), (False, Round (Packet_arrives 0)), (True, Round (Packet_arrives 0))]"] A
  show ?thesis by (simp add: write_length_def small_settings_def Let_def) blast
qed


text \<open>
  C3: a quiet channel has delivered everything. After any such run, when the send buffer of one end is
  empty, so that no retransmission is outstanding, and the other end has nothing left to read, the
  other application has read all that was written.
\<close>

theorem reliable_stream_complete:
  assumes "endpoint_new tmA capA stA = Some A" and "settings_ok capA stA"
    and "endpoint_new tmB capB stB = Some B" and "settings_ok capB stB"
    and "monotonic_timer tmA" and "monotonic_timer tmB" and "visits_entries visit"
    and "int (written True es) + int (recv_window_size stB) < half_span"
    and "int (written False es) + int (recv_window_size stA) < half_span"
  shows "\<exists>A' B'. net_run tmA tmB visit (A, B) es = Some (A', B') \<and>
     (rb_count (sw_ring (send_window (task (chan A')))) = 0 \<and> rb_count (rw_ring (recv_window (task (chan B')))) = 0 \<longrightarrow>
        delivered B' = accepted A')"
proof -
  have empty: "accepted A = []" "accepted B = []" using endpoint_new_ok assms(1-4) by blast+
  have "net_inv tmA tmB (written True es) (written False es) A B"
    using net_inv_new [OF assms(1-4,8,9)] .
  from net_run_inv [OF this assms(5-7), of es] empty obtain A' B' where
    r: "net_run tmA tmB visit (A, B) es = Some (A', B')"
    "net_inv tmA tmB (written True es) (written False es) A' B'" by auto
  then obtain U rs P qs where "flow tmA A' B' U rs P qs" unfolding net_inv_def by blast
  from flow_complete [OF this] r(1) show ?thesis by (auto simp: readable_def)
qed

theorem reliable_stream_complete_witness:
  "\<exists>A B A' B'. endpoint_new nano_timer 100 small_settings = Some A \<and>
     endpoint_new nano_timer 100 small_settings = Some B \<and>
     net_run nano_timer nano_timer (\<lambda>_ ks. ks) (A, B)
       [(True, App_write [1, 2, 3]), (True, Round (Can_send 0)), (False, Round (Packet_arrives 0)),
        (True, Round (Packet_arrives 0)), (False, App_read 3)] = Some (A', B') \<and>
     (rb_count (sw_ring (send_window (task (chan A')))) = 0 \<and> rb_count (rw_ring (recv_window (task (chan B')))) = 0 \<longrightarrow>
        delivered B' = accepted A')"
proof -
  obtain A where A: "endpoint_new nano_timer 100 small_settings = Some A" using small_endpoint by blast
  have "visits_entries (\<lambda>_ ks. ks)" by (simp add: visits_entries_def)
  from reliable_stream_complete [OF A small_settings_ok A small_settings_ok nano_timer_monotonic
      nano_timer_monotonic this,
      of "[(True, App_write [1, 2, 3]), (True, Round (Can_send 0)), (False, Round (Packet_arrives 0)),
        (True, Round (Packet_arrives 0)), (False, App_read 3)]"] A
  show ?thesis by (simp add: write_length_def small_settings_def)
qed

subsection \<open>Handlers of the task\<close>

text \<open>
  C19: \<open>send\<close>. Without credit, without data, or without room at the remote it does nothing. Otherwise it
  emits exactly one packet, which carries the next bytes of the stream under their position, records
  the range in the window and in the hash map, charges the packet against the bandwidth, and lowers
  the believed room by the payload; the payload fits the packet and a signed 16 bit length.
\<close>

theorem Task_send_behaviour:
  assumes "task_inv tm f U rs tk" and "outgoing_open tk" and "n = send_amount tk"
    and "a = U + int (sent (send_window tk))"
  shows "if n = 0 then Task_send tm tk = Some (tk, Inr ())
     else \<exists>tk'. Task_send tm tk = Some (tk', Inr ()) \<and> task_inv tm f U (rs @ [(a, a + int n)]) tk' \<and>
       outgoing tk' = outgoing tk @ [data_packet (pos_of a) (stream_bytes f a n)] \<and>
       remote_recv_available tk' = remote_recv_available tk - n \<and>
       limiter tk' = take_bytes (limiter tk) (6 + n) \<and> n \<le> i16_max \<and> 6 + n \<le> pool_capacity tk"
proof (cases "n = 0")
  case True
  then show ?thesis using Task_send_idle [OF assms(1)] assms(3) by simp
next
  case False
  then have n: "0 < n" by simp
  from Task_send_effect [OF assms(1,3) n assms(4)] send_amount_bounds(3,4) [OF assms(1,3) n] assms(2) False
  show ?thesis by auto
qed

theorem Task_send_behaviour_witness:
  "\<exists>tk tk'. send_amount tk = 3 \<and> Task_send nano_timer tk = Some (tk', Inr ()) \<and>
     outgoing tk' = outgoing tk @ [data_packet (pos_of 0) [1, 2, 3]]"
proof -
  obtain tk where tk: "task_inv nano_timer (stream_of 0 [1, 2, 3]) 0 [] tk" "send_amount tk = 3"
    "outgoing_open tk" "sent (send_window tk) = 0" using loaded_task by blast
  have "stream_bytes (stream_of 0 [1, 2, 3]) 0 3 = [1, 2, 3 :: byte]" by (subst stream_bytes_of) auto
  with Task_send_behaviour [OF tk(1,3) refl refl] tk(2,4) show ?thesis by auto
qed

text \<open>
  C18: one pass of \<open>resend\<close> retransmits every range that lost its acknowledged front. If the pass visits
  every entry of the map and there is still credit at its end, each range without a time of sending
  was sent again, with the right bytes.
\<close>

theorem Task_resend_retransmits:
  assumes "task_inv tm f U rs tk" and "monotonic_timer tm" and "outgoing_open tk"
    and "mset ks = mset (map fst (unacked tk))"
    and "map_of (unacked tk) k = Some u" and "last_sent u = None"
  shows "\<exists>tk'. Task_resend tm tk ks = Some (tk', Inr ()) \<and> task_inv tm f U rs tk' \<and>
     (bytes_available (limiter tk') \<longrightarrow> (\<exists>r\<in>set rs. k = pos_of (fst r) \<and>
        data_packet k (stream_bytes f (fst r) (nat (snd r - fst r))) \<in> set (outgoing tk')))"
proof -
  have ks: "set ks = fst ` set (unacked tk)" using mset_eq_setD [OF assms(4)] by simp
  have "distinct (map fst (unacked tk))" using assms(1) by (simp add: task_inv_def tracks_def)
  then have d: "distinct ks" using mset_eq_imp_distinct_iff [OF assms(4)] by blast
  from Task_resend_inv [OF assms(1,2), of ks] ks assms(3) obtain tk' where
    t: "Task_resend tm tk ks = Some (tk', Inr ())" "task_inv tm f U rs tk'" by auto
  have "k \<in> set ks" using ks map_of_SomeD [OF assms(5)] by force
  with Task_resend_covers [OF assms(1-3) _ d t(1) _ _ assms(5,6)] ks have
    "bytes_available (limiter tk') \<Longrightarrow> resent f rs k (outgoing tk')" by simp
  with t show ?thesis unfolding resent_def by blast
qed

theorem Task_resend_retransmits_witness:
  "\<exists>tk tk'. Task_resend nano_timer tk (map fst (unacked tk)) = Some (tk', Inr ()) \<and>
     (bytes_available (limiter tk') \<longrightarrow> data_packet (pos_of 1) [2, 3] \<in> set (outgoing tk'))"
proof -
  obtain tk u U where tk: "task_inv nano_timer (stream_of 0 [1, 2, 3]) U [(1, 3)] tk" "outgoing_open tk"
    "map_of (unacked tk) (pos_of 1) = Some u" "last_sent u = None" using partly_acked_task by blast
  have "stream_bytes (stream_of 0 [1, 2, 3]) 1 2 = [2, 3 :: byte]" by (subst stream_bytes_of) auto
  with Task_resend_retransmits [OF tk(1) nano_timer_monotonic tk(2) refl tk(3,4)] show ?thesis by auto
qed

text \<open>
  C20: an acknowledgement never brings the task down. Any ten bytes with a negative length, except the
  one length whose negation overflows, are handled without a panic and without an error: the windows,
  the hash map and the clock stay consistent, data that is sent in response is stream data, and the
  number of bytes accepted from the application is preserved.
\<close>

theorem any_ack_is_safe:
  assumes "task_inv tm f U rs tk" and "monotonic_timer tm" and "outgoing_open tk"
    and "length packet = 10" and "read_i16 (take 2 packet) < 0" and "read_i16 (take 2 packet) \<noteq> - (2 ^ 15)"
  shows "\<exists>tk' U' rs' ps. Task_recv_packet tm tk packet = Some (tk', Inr ()) \<and> task_inv tm f U' rs' tk' \<and>
     U \<le> U' \<and> recv_window tk' = recv_window tk \<and> outgoing tk' = outgoing tk @ ps \<and>
     (\<forall>p\<in>set ps. data_of f U (U' + int (sent (send_window tk'))) p) \<and>
     U' + int (rb_count (sw_ring (send_window tk'))) = U + int (rb_count (sw_ring (send_window tk)))"
proof -
  have "length (take 2 packet) = 2" using assms(4) by simp
  then have l: "- (2 ^ 15) < read_i16 (take 2 packet)" using read_i16_bounds(1) assms(6) by fastforce
  have "Task_recv_packet tm tk packet = Task_recv_ack tm tk (read_i16 (take 2 packet)) packet"
    using assms(4,5) by (simp add: Task_recv_packet_def slice_def)
  with Task_recv_ack_inv [OF assms(1,2) l assms(5,4)] assms(3) show ?thesis
    by (fastforce simp: same_frame_def)
qed

theorem any_ack_is_safe_witness:
  "\<exists>tk tk'. Task_new nano_timer 100 small_settings = Some tk \<and>
     Task_recv_packet nano_timer tk [255, 255, 1, 2, 3, 4, 255, 255, 255, 127] = Some (tk', Inr ()) \<and>
     recv_window tk' = recv_window tk"
proof -
  obtain tk where tk: "Task_new nano_timer 100 small_settings = Some tk" using small_task by blast
  note i = Task_new_inv [OF tk small_settings_ok]
  have "read_i16 (take 2 [255, 255, 1, 2, 3, 4, 255, 255, 255, 127]) = - 1"
    by (simp add: read_i16_def Let_def)
  with any_ack_is_safe [OF i(1) nano_timer_monotonic i(3), of "[255, 255, 1, 2, 3, 4, 255, 255, 255, 127]"] tk
  show ?thesis by auto
qed

text \<open>
  C21: the exception. An acknowledgement whose length is the least 16 bit integer overflows when it is
  negated, and the task panics, whatever its state.
\<close>

theorem least_ack_length_panics:
  "Task_recv_packet tm tk ([0, 128] @ read_back) = None \<longleftrightarrow> length read_back = 8"
proof -
  have r: "read_i16 [0, 128] = - (2 ^ 15)" by (simp add: read_i16_def)
  have "Task_recv_packet tm tk ([0, 128] @ read_back) =
      Task_recv_ack tm tk (- (2 ^ 15)) ([0, 128] @ read_back)"
    using r by (simp add: Task_recv_packet_def slice_def)
  moreover have "Task_recv_ack tm tk (- (2 ^ 15)) ([0, 128] @ read_back) =
      (if length read_back = 8 then None else Some (tk, Inl ProtocolError))"
    by (auto simp: Task_recv_ack_def i16_neg_def slice_def)
  ultimately show ?thesis by simp
qed

text \<open>
  C22: malformed packets are protocol errors. A packet is rejected, and the task left as it was,
  exactly when it is too short for a length, has a negative length and not ten bytes, or has a length
  that is not the number of bytes after the header; and such a packet never panics.
\<close>

theorem malformed_packets_are_errors:
  fixes packet :: "byte list"
  assumes "length packet < 2 \<or>
     (let n = read_i16 (take 2 packet) in
      n < 0 \<and> length packet \<noteq> 10 \<or> 0 \<le> n \<and> (length packet < 6 \<or> n \<noteq> int (length packet) - 6))"
  shows "Task_recv_packet tm tk packet = Some (tk, Inl ProtocolError)"
proof (cases "length packet < 2")
  case False
  let ?n = "read_i16 (take 2 packet)"
  have s: "slice packet 0 2 = Some (take 2 packet)" using False by (simp add: slice_def)
  show ?thesis
  proof (cases "?n < 0")
    case True
    then have "length packet \<noteq> 10" using assms False by (simp add: Let_def)
    then show ?thesis using True False s by (simp add: Task_recv_packet_def Task_recv_ack_def)
  next
    case nonneg: False
    then have c: "length packet < 6 \<or> ?n \<noteq> int (length packet) - 6" using assms False by (simp add: Let_def)
    show ?thesis
    proof (cases "length packet < 6")
      case True
      then show ?thesis using nonneg False s by (simp add: Task_recv_packet_def Task_recv_data_def)
    next
      case long: False
      then have "nat ?n \<noteq> length packet - 6" using c nonneg by linarith
      moreover have "slice packet 2 6 = Some (take 4 (drop 2 packet))" using long by (simp add: slice_def)
      ultimately show ?thesis using long nonneg False s
        by (simp add: Task_recv_packet_def Task_recv_data_def Let_def)
    qed
  qed
qed (simp add: Task_recv_packet_def)

theorem malformed_packets_are_errors_witness:
  "\<exists>tk. Task_new nano_timer 100 small_settings = Some tk \<and>
     Task_recv_packet nano_timer tk [3, 0, 0, 0, 0, 0, 1, 2] = Some (tk, Inl ProtocolError)"
  using small_task malformed_packets_are_errors [of "[3, 0, 0, 0, 0, 0, 1, 2]" nano_timer]
  by (auto simp: read_i16_def Let_def)



subsection \<open>Liveness\<close>

lemma round_settings:
  assumes "task_inv tm f U rs tk" and "monotonic_timer tm"
  shows "\<exists>tk'. Task_update_bandwidth tm tk = Some tk' \<and> task_inv tm f U rs tk' \<and>
     (bytes_available (limiter tk) \<longrightarrow> bytes_available (limiter tk')) \<and>
     tk' = tk\<lparr>limiter := limiter tk', clock_reads := clock_reads tk'\<rparr>"
proof -
  from bandwidth_update_inv [OF assms] obtain tk' where
    t: "Task_update_bandwidth tm tk = Some tk'" "task_inv tm f U rs tk'"
    "tk' = tk\<lparr>limiter := limiter tk', clock_reads := clock_reads tk'\<rparr>" by blast
  have "update_available (duration_between tm) (limiter tk) (clock tm (clock_reads tk)) = Some (limiter tk')"
    using t(1) by (auto simp: Task_update_bandwidth_def timer_now_def option_bind_eq_Some)
  from update_available_credit(2) [OF task_invD(8) [OF assms(1)] this] t show ?thesis
    by (auto simp: bytes_available_def)
qed

lemma idle_round_sends:
  assumes inv: "task_inv tm f U rs tk" and mono: "monotonic_timer tm" and op: "outgoing_open tk"
    and ready: "0 < send_amount tk"
  shows "\<exists>tk' p. main_loop_round tm tk (SendAvailable []) = Some (tk', Inr ()) \<and>
     outgoing tk' = outgoing tk @ [data_packet (pos_of (U + int (sent (send_window tk)))) p] \<and>
     p = stream_bytes f (U + int (sent (send_window tk))) (send_amount tk)"
proof -
  from round_settings [OF inv mono] obtain t1 where
    t1: "Task_update_bandwidth tm tk = Some t1" "task_inv tm f U rs t1"
    "bytes_available (limiter tk) \<longrightarrow> bytes_available (limiter t1)"
    "t1 = tk\<lparr>limiter := limiter t1, clock_reads := clock_reads t1\<rparr>" by blast
  from round_settings [OF t1(2) mono] obtain t2 where
    t2: "Task_update_bandwidth tm t1 = Some t2" "task_inv tm f U rs t2"
    "bytes_available (limiter t1) \<longrightarrow> bytes_available (limiter t2)"
    "t2 = t1\<lparr>limiter := limiter t2, clock_reads := clock_reads t2\<rparr>" by blast
  have same1: "outgoing t1 = outgoing tk" "outgoing_open t1 = outgoing_open tk"
    "send_window t1 = send_window tk" "remote_recv_available t1 = remote_recv_available tk"
    "pool_capacity t1 = pool_capacity tk" by (subst t1(4), simp)+
  have same: "outgoing t2 = outgoing tk" "outgoing_open t2 = outgoing_open tk"
    "send_window t2 = send_window tk" "remote_recv_available t2 = remote_recv_available tk"
    "pool_capacity t2 = pool_capacity tk" by (subst t2(4), simp add: same1)+
  have credit: "bytes_available (limiter tk)" using ready by (simp add: send_amount_def split: if_splits)
  then have am: "send_amount tk = send_amount t2"
    using t1(3) t2(3) same by (simp add: send_amount_def max_payload_def)
  from Task_send_effect [OF t2(2) am ready refl] same op obtain tk' where
    "Task_send tm t2 = Some (tk', Inr ())"
    "outgoing tk' = outgoing tk @ [data_packet (pos_of (U + int (sent (send_window tk))))
       (stream_bytes f (U + int (sent (send_window tk))) (send_amount tk))]" by auto
  then show ?thesis using t1(1) t2(1) by (auto simp: main_loop_round_def and_then_def)
qed

text \<open>
  C17: the connection does not stall. After every round of the main loop there is a range whose
  retransmission will draw an acknowledgement, or the task believes that it may send: then, if there
  is data and credit, the branch of \<open>select!\<close> that sends is enabled, and its round puts the next bytes
  of the stream on the wire.
\<close>

theorem main_loop_does_not_stall:
  assumes "task_inv tm f U rs tk" and "monotonic_timer tm" and "outgoing_open tk"
    and "recv_inv g P qs (recv_window tk)" and "confined 0 u P qs"
    and "u + int (rb_capacity (rw_ring (recv_window tk))) < half_span"
    and "A \<subseteq> {..<half_span}" and "0 \<le> U" and "U + int (rb_count (sw_ring (send_window tk))) \<le> half_span"
    and "reason_ok g u A tk reason" and "0 < init_send (settings tk)" and "init_send (settings tk) \<le> u32_max"
  shows "\<exists>tk' a. main_loop_round tm tk reason = Some (tk', Inr ()) \<and>
     (unacked tk' \<noteq> [] \<or> 0 < remote_recv_available tk') \<and>
     (remote_recv_available tk' \<noteq> 0 \<and> bytes_available (limiter tk') \<and>
      sent (send_window tk') < rb_count (sw_ring (send_window tk')) \<longrightarrow>
        wake_enabled tk' (SendAvailable []) \<and>
        (\<exists>tk'' n. main_loop_round tm tk' (SendAvailable []) = Some (tk'', Inr ()) \<and> 0 < n \<and>
           outgoing tk'' = outgoing tk' @ [data_packet (pos_of a) (stream_bytes f a n)]))"
proof -
  from main_loop_round_inv [OF assms(1-10,12)] obtain tk' U' rs' P' qs' where
    r: "main_loop_round tm tk reason = Some (tk', Inr ())" "task_inv tm f U' rs' tk'"
    "progress f U P qs tk U' P' qs' tk'" by blast
  have op: "outgoing_open tk'" and st: "settings tk' = settings tk" using r(3) assms(3) by (simp_all add: progress_def)
  have "\<exists>t. tk' = Task_unstall t"
    using r(1) by (auto simp: main_loop_round_def and_then_def option_bind_eq_Some split: if_splits sum.splits)
      (metis (full_types) old.unit.exhaust sumE)
  then obtain t where t: "tk' = Task_unstall t" ..
  then have "settings t = settings tk" using st by simp
  then have st: "unacked tk' \<noteq> [] \<or> 0 < remote_recv_available tk'"
    using assms(11) unfolding t by (simp add: Task_unstall_def)
  have go: "wake_enabled tk' (SendAvailable []) \<and>
      (\<exists>tk'' n. main_loop_round tm tk' (SendAvailable []) = Some (tk'', Inr ()) \<and> 0 < n \<and>
         outgoing tk'' = outgoing tk' @
           [data_packet (pos_of (U' + int (sent (send_window tk')))) (stream_bytes f (U' + int (sent (send_window tk'))) n)])"
    if "remote_recv_available tk' \<noteq> 0 \<and> bytes_available (limiter tk') \<and>
      sent (send_window tk') < rb_count (sw_ring (send_window tk'))"
  proof -
    have "0 < send_amount tk'" using that task_invD(4) [OF r(2)]
      by (simp add: send_amount_def max_payload_def i16_max_def)
    with idle_round_sends [OF r(2) assms(2) op this] that send_available_ok [OF task_invD(1) [OF r(2)]]
    show ?thesis by (auto simp: wake_enabled_def)
  qed
  show ?thesis using r(1) st go by blast
qed

theorem main_loop_does_not_stall_witness:
  "\<exists>tk tk'. Task_new nano_timer 100 small_settings = Some tk \<and>
     main_loop_round nano_timer tk (ResendTimer []) = Some (tk', Inr ()) \<and>
     (unacked tk' \<noteq> [] \<or> 0 < remote_recv_available tk')"
proof -
  obtain tk where tk: "Task_new nano_timer 100 small_settings = Some tk" using small_task by blast
  note i = Task_new_inv [OF tk small_settings_ok]
  from main_loop_does_not_stall [OF i(1) nano_timer_monotonic i(3) i(2),
      where u = 0 and A = "{}" and reason = "ResendTimer []"] i(5-9)
  have "\<exists>tk'. main_loop_round nano_timer tk (ResendTimer []) = Some (tk', Inr ()) \<and>
     (unacked tk' \<noteq> [] \<or> 0 < remote_recv_available tk')"
    by (auto simp: confined_def small_settings_def reason_ok_def u32_max_def)
  with tk show ?thesis by blast
qed

subsection \<open>Bandwidth\<close>

text \<open>
  C24: the limiter. The credit never exceeds the burst and, when bytes are taken only while there is
  credit, the debt never exceeds the longest packet; time only adds credit, and there is a delay
  exactly when there is no credit. This holds for the rounded arithmetic of \<open>f64\<close>.
\<close>

theorem limiter_bounds:
  assumes "limiter_ok m l" and "m \<le> u32_max" and "n \<le> m" and "bandwidth l \<noteq> 0"
    and "elapsed (last_calculation l) now = Some d"
  shows "\<exists>l' delay. update_available elapsed l now = Some l' \<and> limiter_ok m l' \<and>
     bytes_credit l \<le> bytes_credit l' \<and> bytes_credit l' \<le> of_nat (burst_bandwidth l) \<and> last_calculation l' = now \<and>
     delay_until_available l' = Some delay \<and> (delay = None \<longleftrightarrow> bytes_available l') \<and>
     (bytes_available l' \<longrightarrow> limiter_ok m (take_bytes l' n) \<and> - of_nat m \<le> bytes_credit (take_bytes l' n) \<and>
        bytes_credit (take_bytes l' n) \<le> bytes_credit l')"
proof -
  obtain l' where u: "update_available elapsed l now = Some l'" using assms(5) by (simp add: update_available_def)
  note c = update_available_credit [OF assms(1) u]
  have "bytes_credit l' \<le> of_nat (burst_bandwidth l)" using c(1,5) by (simp add: limiter_ok_def)
  moreover have "limiter_ok m (take_bytes l' n) \<and> - of_nat m \<le> bytes_credit (take_bytes l' n)" if "bytes_available l'"
    using take_bytes_debt [OF c(1) that assms(3)] assms(2,3) by (simp add: limiter_ok_def)
  moreover have "bytes_credit (take_bytes l' n) \<le> bytes_credit l'"
    using f64_round_mono [of "bytes_credit l' - of_nat n" "bytes_credit l'"] c(1)
    by (simp add: take_bytes_def limiter_ok_def)
  moreover obtain delay where "delay_until_available l' = Some delay" "delay = None \<longleftrightarrow> bytes_available l'"
    using delay_returns [OF c(1) assms(2)] c(4) assms(4) by auto
  ultimately show ?thesis using u c(1-3) by blast
qed

theorem limiter_bounds_witness:
  "\<exists>l'. update_available (\<lambda>a b. Some (b - a)) (BandwidthLimiter_new (0 :: nat) 1000 500) 7 = Some l' \<and>
     limiter_ok 100 l' \<and> bytes_credit l' \<le> 500"
  using limiter_bounds [OF limiter_new_ok [of 500 100 0 1000], of 60 "\<lambda>a b. Some (b - a)" 7]
  by (auto simp: u32_max_def BandwidthLimiter_new_def)

subsection \<open>The application's handle\<close>

text \<open>
  C25: a fatal error is reported once. When the task has ended with an error, the first poll or flush
  returns that error; from then on every operation reports \<open>Shutdown\<close> and changes nothing.
\<close>

theorem error_reported_once:
  assumes "handle ch = Returned e"
  shows "poll_write env ch data = Some (ch\<lparr>handle := Terminated\<rparr>, Ready (Inl e)) \<and>
     poll_read env ch buf = Some (ch\<lparr>handle := Terminated\<rparr>, buf, Ready (Inl e)) \<and>
     ReliableChannel_flush ch = (ch\<lparr>handle := Terminated\<rparr>, Inl e) \<and>
     (let dead = ch\<lparr>handle := Terminated\<rparr> in
      poll_write env' dead data' = Some (dead, Ready (Inl Shutdown)) \<and>
      poll_read env' dead buf' = Some (dead, buf', Ready (Inl Shutdown)) \<and>
      ReliableChannel_flush dead = (dead, Inl Shutdown) \<and> try_write dead data' = Some (dead, Inl Shutdown) \<and>
      try_read dead buf' = Some (dead, buf', Inl Shutdown) \<and> channel_round tm dead reason = Some dead)"
  using assms by (simp add: poll_write_def poll_read_def ReliableChannel_flush_def try_write_def try_read_def
      channel_round_def Let_def)

theorem error_reported_once_witness:
  "\<exists>tk. let ch = \<lparr>task = tk, handle = Returned ProtocolError\<rparr> in
     Task_new nano_timer 100 small_settings = Some tk \<and>
     poll_write id ch [1] = Some (ch\<lparr>handle := Terminated\<rparr>, Ready (Inl ProtocolError))"
proof -
  obtain tk where tk: "Task_new nano_timer 100 small_settings = Some tk" using small_task by blast
  from error_reported_once [of "\<lparr>task = tk, handle = Returned ProtocolError\<rparr>" ProtocolError id "[1]"] tk
  show ?thesis by (auto simp: Let_def)
qed

end
