(* ===== verification/Spsc.thy ===== *)
theory Spsc
  imports Turbulence_Prelude
begin

text \<open>
  The bounded single-producer single-consumer channel (\<open>spsc.rs\<close>).

  It wraps a \<open>crossbeam\<close> bounded channel and two \<open>AtomicWaker\<close>s of \<open>futures\<close>, which are code of other
  packages: the record \<open>spsc_lib\<close> carries their operations, and every definition takes it as its first
  argument. The locale \<open>spsc_laws\<close> states the documented behaviour of those operations: a bounded first
  in first out queue with the two kinds of disconnection, and a cell that holds the last registered
  waker until it is woken. The sender and the receiver share one record.

  A poll looks at the channel twice, and the other side may act before and after the waker is
  registered in between; those actions are the arguments \<open>env1\<close> and \<open>env2\<close> of the polls.
\<close>

datatype 'a try_send_error = Full 'a | Disconnected_send 'a
datatype try_recv_error = Empty | Disconnected_recv

record ('q, 'w, 'a, 'k) spsc_lib =
  cb_bounded :: "nat \<Rightarrow> 'q"
  cb_try_send :: "'q \<Rightarrow> 'a \<Rightarrow> 'q \<times> ('a try_send_error + unit)"
  cb_try_recv :: "'q \<Rightarrow> 'q \<times> (try_recv_error + 'a)"
  cb_drop_sender :: "'q \<Rightarrow> 'q"
  cb_drop_receiver :: "'q \<Rightarrow> 'q"
  aw_new :: 'w
  aw_register :: "'w \<Rightarrow> 'k \<Rightarrow> 'w"
  aw_wake :: "'w \<Rightarrow> 'w"

record ('q, 'w, 'a) spsc =
  sp_channel :: 'q
  sp_send_ready :: 'w
  sp_recv_ready :: 'w
  sp_slot :: "'a option"

datatype spsc_error = Spsc_disconnected

definition spsc_channel :: "('q, 'w, 'a, 'k) spsc_lib \<Rightarrow> nat \<Rightarrow> ('q, 'w, 'a) spsc" where
  "spsc_channel L capacity =
     \<lparr>sp_channel = cb_bounded L capacity, sp_send_ready = aw_new L, sp_recv_ready = aw_new L, sp_slot = None\<rparr>"

subsection \<open>The receiver\<close>

definition Receiver_try_recv ::
  "('q, 'w, 'a, 'k) spsc_lib \<Rightarrow> ('q, 'w, 'a) spsc \<Rightarrow> ('q, 'w, 'a) spsc \<times> (try_recv_error + 'a)" where
  "Receiver_try_recv L st =
     (let (q, r) = cb_try_recv L (sp_channel st); st = st\<lparr>sp_channel := q\<rparr>
      in case r of
           Inl e \<Rightarrow> (st, Inl e)
         | Inr t \<Rightarrow> (st\<lparr>sp_send_ready := aw_wake L (sp_send_ready st)\<rparr>, Inr t))"

definition Receiver_poll_next ::
  "('q, 'w, 'a, 'k) spsc_lib \<Rightarrow> (('q, 'w, 'a) spsc \<Rightarrow> ('q, 'w, 'a) spsc) \<Rightarrow>
   (('q, 'w, 'a) spsc \<Rightarrow> ('q, 'w, 'a) spsc) \<Rightarrow> 'k \<Rightarrow> ('q, 'w, 'a) spsc \<Rightarrow>
   ('q, 'w, 'a) spsc \<times> 'a option poll" where
  "Receiver_poll_next L env1 env2 cx st =
     (case Receiver_try_recv L st of
        (st, Inr r) \<Rightarrow> (st, Ready (Some r))
      | (st, Inl Disconnected_recv) \<Rightarrow> (st, Ready None)
      | (st, Inl Empty) \<Rightarrow>
          (let st = env1 st;
               st = st\<lparr>sp_recv_ready := aw_register L (sp_recv_ready st) cx\<rparr>;
               st = env2 st
           in case Receiver_try_recv L st of
                (st, Inr r) \<Rightarrow> (st, Ready (Some r))
              | (st, Inl Disconnected_recv) \<Rightarrow> (st, Ready None)
              | (st, Inl Empty) \<Rightarrow> (st, Pending)))"

text \<open>\<open>Drop for Receiver\<close>, and the drop of its fields, which the language runs after it.\<close>

definition Receiver_drop :: "('q, 'w, 'a, 'k) spsc_lib \<Rightarrow> ('q, 'w, 'a) spsc \<Rightarrow> ('q, 'w, 'a) spsc" where
  "Receiver_drop L st = st\<lparr>sp_send_ready := aw_wake L (sp_send_ready st)\<rparr>"

definition Receiver_drop_fields :: "('q, 'w, 'a, 'k) spsc_lib \<Rightarrow> ('q, 'w, 'a) spsc \<Rightarrow> ('q, 'w, 'a) spsc" where
  "Receiver_drop_fields L st = st\<lparr>sp_channel := cb_drop_receiver L (sp_channel st)\<rparr>"

subsection \<open>The sender\<close>

text \<open>The last two lines of \<open>Sender::try_send\<close>, with the slot already empty.\<close>

definition Sender_push ::
  "('q, 'w, 'a, 'k) spsc_lib \<Rightarrow> ('q, 'w, 'a) spsc \<Rightarrow> 'a \<Rightarrow> ('q, 'w, 'a) spsc \<times> ('a try_send_error + unit)" where
  "Sender_push L st t =
     (let (q, r) = cb_try_send L (sp_channel st) t; st = st\<lparr>sp_channel := q\<rparr>
      in case r of
           Inl e \<Rightarrow> (st, Inl e)
         | Inr _ \<Rightarrow> (st\<lparr>sp_recv_ready := aw_wake L (sp_recv_ready st)\<rparr>, Inr ()))"

definition Sender_try_send ::
  "('q, 'w, 'a, 'k) spsc_lib \<Rightarrow> ('q, 'w, 'a) spsc \<Rightarrow> 'a \<Rightarrow> ('q, 'w, 'a) spsc \<times> ('a try_send_error + unit)" where
  "Sender_try_send L st t =
     (case sp_slot st of
        None \<Rightarrow> Sender_push L st t
      | Some prev \<Rightarrow>
          (case Sender_push L (st\<lparr>sp_slot := None\<rparr>) prev of
             (st, Inl (Full inner)) \<Rightarrow> (st\<lparr>sp_slot := Some inner\<rparr>, Inl (Full t))
           | (st, Inl (Disconnected_send inner)) \<Rightarrow> (st\<lparr>sp_slot := Some inner\<rparr>, Inl (Disconnected_send t))
           | (st, Inr _) \<Rightarrow> Sender_push L st t))"

definition Sender_poll_ready ::
  "('q, 'w, 'a, 'k) spsc_lib \<Rightarrow> (('q, 'w, 'a) spsc \<Rightarrow> ('q, 'w, 'a) spsc) \<Rightarrow>
   (('q, 'w, 'a) spsc \<Rightarrow> ('q, 'w, 'a) spsc) \<Rightarrow> 'k \<Rightarrow> ('q, 'w, 'a) spsc \<Rightarrow>
   ('q, 'w, 'a) spsc \<times> (spsc_error + unit) poll" where
  "Sender_poll_ready L env1 env2 cx st =
     (case sp_slot st of
        None \<Rightarrow> (st, Ready (Inr ()))
      | Some t \<Rightarrow>
          (case Sender_try_send L (st\<lparr>sp_slot := None\<rparr>) t of
             (st, Inr _) \<Rightarrow> (st, Ready (Inr ()))
           | (st, Inl (Disconnected_send _)) \<Rightarrow> (st, Ready (Inl Spsc_disconnected))
           | (st, Inl (Full t)) \<Rightarrow>
               (let st = env1 st;
                    st = st\<lparr>sp_send_ready := aw_register L (sp_send_ready st) cx\<rparr>;
                    st = env2 st
                in case Sender_try_send L st t of
                     (st, Inr _) \<Rightarrow> (st, Ready (Inr ()))
                   | (st, Inl (Disconnected_send _)) \<Rightarrow> (st, Ready (Inl Spsc_disconnected))
                   | (st, Inl (Full t)) \<Rightarrow> (st\<lparr>sp_slot := Some t\<rparr>, Pending))))"

definition Sender_start_send :: "('q, 'w, 'a) spsc \<Rightarrow> 'a \<Rightarrow> ('q, 'w, 'a) spsc option" where
  "Sender_start_send st item = (if sp_slot st \<noteq> None then None else Some (st\<lparr>sp_slot := Some item\<rparr>))"

definition Sender_poll_flush ::
  "('q, 'w, 'a, 'k) spsc_lib \<Rightarrow> (('q, 'w, 'a) spsc \<Rightarrow> ('q, 'w, 'a) spsc) \<Rightarrow>
   (('q, 'w, 'a) spsc \<Rightarrow> ('q, 'w, 'a) spsc) \<Rightarrow> 'k \<Rightarrow> ('q, 'w, 'a) spsc \<Rightarrow>
   ('q, 'w, 'a) spsc \<times> (spsc_error + unit) poll" where
  "Sender_poll_flush = Sender_poll_ready"

definition Sender_drop :: "('q, 'w, 'a, 'k) spsc_lib \<Rightarrow> ('q, 'w, 'a) spsc \<Rightarrow> ('q, 'w, 'a) spsc" where
  "Sender_drop L st = st\<lparr>sp_recv_ready := aw_wake L (sp_recv_ready st)\<rparr>"

definition Sender_drop_fields :: "('q, 'w, 'a, 'k) spsc_lib \<Rightarrow> ('q, 'w, 'a) spsc \<Rightarrow> ('q, 'w, 'a) spsc" where
  "Sender_drop_fields L st = st\<lparr>sp_channel := cb_drop_sender L (sp_channel st), sp_slot := None\<rparr>"

subsection \<open>Runs\<close>

text \<open>
  The actions of each side, as an application can order them. A run keeps the items that the sender
  took and those that the receiver got.
\<close>

datatype ('a, 'k) sender_event = Send_try 'a | Send_poll 'k | Send_start 'a | Send_drop | Send_drop_fields
datatype 'k receiver_event = Recv_try | Recv_poll 'k

fun sender_step ::
  "('q, 'w, 'a, 'k) spsc_lib \<Rightarrow> ('q, 'w, 'a) spsc \<Rightarrow> ('a, 'k) sender_event \<Rightarrow>
   (('q, 'w, 'a) spsc \<times> 'a list) option" where
  "sender_step L st (Send_try a) =
     (case Sender_try_send L st a of (st, r) \<Rightarrow> Some (st, case r of Inr _ \<Rightarrow> [a] | Inl _ \<Rightarrow> []))"
| "sender_step L st (Send_poll cx) = Some (fst (Sender_poll_ready L id id cx st), [])"
| "sender_step L st (Send_start a) = map_option (\<lambda>st. (st, [a])) (Sender_start_send st a)"
| "sender_step L st Send_drop = Some (Sender_drop L st, [])"
| "sender_step L st Send_drop_fields = Some (Sender_drop_fields L st, [])"

fun receiver_step ::
  "('q, 'w, 'a, 'k) spsc_lib \<Rightarrow> ('q, 'w, 'a) spsc \<Rightarrow> 'k receiver_event \<Rightarrow> ('q, 'w, 'a) spsc \<times> 'a list" where
  "receiver_step L st Recv_try =
     (case Receiver_try_recv L st of (st, r) \<Rightarrow> (st, case r of Inr t \<Rightarrow> [t] | Inl _ \<Rightarrow> []))"
| "receiver_step L st (Recv_poll cx) =
     (case Receiver_poll_next L id id cx st of (st, r) \<Rightarrow> (st, case r of Ready (Some t) \<Rightarrow> [t] | _ \<Rightarrow> []))"

fun sender_run ::
  "('q, 'w, 'a, 'k) spsc_lib \<Rightarrow> ('q, 'w, 'a) spsc \<Rightarrow> ('a, 'k) sender_event list \<Rightarrow> ('q, 'w, 'a) spsc option" where
  "sender_run L st [] = Some st"
| "sender_run L st (e # es) = do { (st, _) \<leftarrow> sender_step L st e; sender_run L st es }"

fun receiver_run ::
  "('q, 'w, 'a, 'k) spsc_lib \<Rightarrow> ('q, 'w, 'a) spsc \<Rightarrow> 'k receiver_event list \<Rightarrow> ('q, 'w, 'a) spsc" where
  "receiver_run L st [] = st"
| "receiver_run L st (e # es) = receiver_run L (fst (receiver_step L st e)) es"

fun spsc_run ::
  "('q, 'w, 'a, 'k) spsc_lib \<Rightarrow> ('q, 'w, 'a) spsc \<times> 'a list \<times> 'a list \<Rightarrow>
   (('a, 'k) sender_event + 'k receiver_event) list \<Rightarrow> (('q, 'w, 'a) spsc \<times> 'a list \<times> 'a list) option" where
  "spsc_run L s [] = Some s"
| "spsc_run L (st, acc, got) (Inl e # es) =
     do { (st, new) \<leftarrow> sender_step L st e; spsc_run L (st, acc @ new, got) es }"
| "spsc_run L (st, acc, got) (Inr e # es) =
     (case receiver_step L st e of (st, new) \<Rightarrow> spsc_run L (st, acc, got @ new) es)"

text \<open>What is between the two ends: the queue, and the item in the slot of the sender.\<close>

definition spsc_contents :: "('q \<Rightarrow> 'a list) \<Rightarrow> ('q, 'w, 'a) spsc \<Rightarrow> 'a list" where
  "spsc_contents items st = items (sp_channel st) @ (case sp_slot st of None \<Rightarrow> [] | Some t \<Rightarrow> [t])"

text \<open>
  A task that waits for an item: it is registered and there is none, or it has been woken since the log
  of wake-ups had length \<open>n\<close>. The same for a task that waits for room.
\<close>

definition recv_parked ::
  "('q \<Rightarrow> 'a list) \<Rightarrow> ('w \<Rightarrow> 'k option) \<Rightarrow> ('w \<Rightarrow> 'k list) \<Rightarrow> 'k \<Rightarrow> nat \<Rightarrow> ('q, 'w, 'a) spsc \<Rightarrow> bool" where
  "recv_parked items waiting woken k n st \<longleftrightarrow> n \<le> length (woken (sp_recv_ready st)) \<and>
     (waiting (sp_recv_ready st) = Some k \<and> items (sp_channel st) = [] \<or>
      k \<in> set (drop n (woken (sp_recv_ready st))))"

definition send_parked ::
  "('q \<Rightarrow> 'a list) \<Rightarrow> ('q \<Rightarrow> nat) \<Rightarrow> ('w \<Rightarrow> 'k option) \<Rightarrow> ('w \<Rightarrow> 'k list) \<Rightarrow> 'k \<Rightarrow> nat \<Rightarrow>
   ('q, 'w, 'a) spsc \<Rightarrow> bool" where
  "send_parked items room waiting woken k n st \<longleftrightarrow> n \<le> length (woken (sp_send_ready st)) \<and>
     (waiting (sp_send_ready st) = Some k \<and> room (sp_channel st) \<le> length (items (sp_channel st)) \<or>
      k \<in> set (drop n (woken (sp_send_ready st))))"

subsection \<open>What the packages promise\<close>

locale spsc_laws =
  fixes L :: "('q, 'w, 'a, 'k) spsc_lib"
    and items :: "'q \<Rightarrow> 'a list"
    and room :: "'q \<Rightarrow> nat"
    and tx_gone :: "'q \<Rightarrow> bool"
    and rx_gone :: "'q \<Rightarrow> bool"
    and waiting :: "'w \<Rightarrow> 'k option"
    and woken :: "'w \<Rightarrow> 'k list"
  assumes bounded: "items (cb_bounded L n) = []" "room (cb_bounded L n) = n"
      "\<not> tx_gone (cb_bounded L n)" "\<not> rx_gone (cb_bounded L n)"
    and send_gone: "rx_gone q \<Longrightarrow> cb_try_send L q t = (q, Inl (Disconnected_send t))"
    and send_full: "\<not> rx_gone q \<Longrightarrow> room q \<le> length (items q) \<Longrightarrow> cb_try_send L q t = (q, Inl (Full t))"
    and send_ok: "\<not> rx_gone q \<Longrightarrow> length (items q) < room q \<Longrightarrow>
      \<exists>q'. cb_try_send L q t = (q', Inr ()) \<and> items q' = items q @ [t] \<and> room q' = room q \<and>
        tx_gone q' = tx_gone q \<and> \<not> rx_gone q'"
    and recv_item: "items q = t # ts \<Longrightarrow>
      \<exists>q'. cb_try_recv L q = (q', Inr t) \<and> items q' = ts \<and> room q' = room q \<and>
        tx_gone q' = tx_gone q \<and> rx_gone q' = rx_gone q"
    and recv_empty: "items q = [] \<Longrightarrow> cb_try_recv L q = (q, Inl (if tx_gone q then Disconnected_recv else Empty))"
    and drop_sender: "items (cb_drop_sender L q) = items q" "tx_gone (cb_drop_sender L q)"
      "rx_gone (cb_drop_sender L q) = rx_gone q" "room (cb_drop_sender L q) = room q"
    and drop_receiver: "rx_gone (cb_drop_receiver L q)" "tx_gone (cb_drop_receiver L q) = tx_gone q"
    and new_waker: "waiting (aw_new L) = None" "woken (aw_new L) = []"
    and register: "waiting (aw_register L w k) = Some k" "woken (aw_register L w k) = woken w"
    and wake: "waiting (aw_wake L w) = None"
      "woken (aw_wake L w) = woken w @ (case waiting w of None \<Rightarrow> [] | Some k \<Rightarrow> [k])"
begin

lemma push_gone: "rx_gone (sp_channel st) \<Longrightarrow> Sender_push L st t = (st, Inl (Disconnected_send t))"
  by (simp add: Sender_push_def send_gone)

lemma push_full:
  "\<not> rx_gone (sp_channel st) \<Longrightarrow> room (sp_channel st) \<le> length (items (sp_channel st)) \<Longrightarrow>
   Sender_push L st t = (st, Inl (Full t))"
  by (simp add: Sender_push_def send_full)

lemma push_ok:
  assumes "\<not> rx_gone (sp_channel st)" and "length (items (sp_channel st)) < room (sp_channel st)"
  shows "\<exists>q. Sender_push L st t = (st\<lparr>sp_channel := q, sp_recv_ready := aw_wake L (sp_recv_ready st)\<rparr>, Inr ()) \<and>
     items q = items (sp_channel st) @ [t] \<and> room q = room (sp_channel st) \<and> \<not> rx_gone q \<and>
     tx_gone q = tx_gone (sp_channel st)"
  using send_ok [OF assms, of t] by (auto simp: Sender_push_def)

text \<open>The three outcomes of a push, for case analysis.\<close>

lemma push_cases:
  obtains (gone) "rx_gone (sp_channel st)" "Sender_push L st t = (st, Inl (Disconnected_send t))"
  | (full) "\<not> rx_gone (sp_channel st)" "room (sp_channel st) \<le> length (items (sp_channel st))"
      "Sender_push L st t = (st, Inl (Full t))"
  | (ok) q where "\<not> rx_gone (sp_channel st)" "length (items (sp_channel st)) < room (sp_channel st)"
      "Sender_push L st t = (st\<lparr>sp_channel := q, sp_recv_ready := aw_wake L (sp_recv_ready st)\<rparr>, Inr ())"
      "items q = items (sp_channel st) @ [t]" "room q = room (sp_channel st)" "\<not> rx_gone q"
      "tx_gone q = tx_gone (sp_channel st)"
  using push_gone push_full push_ok [of st t] by (metis not_le)

lemma try_recv_cases:
  obtains (item) t q where "items (sp_channel st) = t # items q" "room q = room (sp_channel st)"
      "rx_gone q = rx_gone (sp_channel st)" "tx_gone q = tx_gone (sp_channel st)"
      "Receiver_try_recv L st = (st\<lparr>sp_channel := q, sp_send_ready := aw_wake L (sp_send_ready st)\<rparr>, Inr t)"
  | (empty) "items (sp_channel st) = []"
      "Receiver_try_recv L st = (st, Inl (if tx_gone (sp_channel st) then Disconnected_recv else Empty))"
proof (cases "items (sp_channel st)")
  case Nil
  then show ?thesis by (intro empty) (simp_all add: Receiver_try_recv_def recv_empty)
next
  case (Cons t ts)
  with recv_item [OF Cons] show ?thesis by (auto intro!: item simp: Receiver_try_recv_def)
qed

end

subsection \<open>The channel as a queue\<close>

context spsc_laws
begin

lemma wake_set: "waiting w = Some k \<Longrightarrow> n \<le> length (woken w) \<Longrightarrow> k \<in> set (drop n (woken (aw_wake L w)))"
  by (simp add: wake)

lemma wake_keeps: "k \<in> set (drop n (woken w)) \<Longrightarrow> k \<in> set (drop n (woken (aw_wake L w)))"
  by (simp add: wake)

lemma wake_longer: "n \<le> length (woken w) \<Longrightarrow> n \<le> length (woken (aw_wake L w))"
  by (simp add: wake)

lemma push_parked:
  "recv_parked items waiting woken k n st \<Longrightarrow> recv_parked items waiting woken k n (fst (Sender_push L st t))"
  by (cases rule: push_cases [of st t])
    (auto simp: recv_parked_def intro: wake_set wake_keeps wake_longer)

lemma push_grows:
  "\<exists>new. items (sp_channel (fst (Sender_push L st t))) = items (sp_channel st) @ new \<and>
     rx_gone (sp_channel (fst (Sender_push L st t))) = rx_gone (sp_channel st)"
  by (cases rule: push_cases [of st t]) auto

lemma push_frame:
  "sp_slot (fst (Sender_push L st t)) = sp_slot st" "sp_send_ready (fst (Sender_push L st t)) = sp_send_ready st"
  by (cases rule: push_cases [of st t]; simp)+

lemma recv_parked_slot [simp]:
  "recv_parked items waiting woken k n (st\<lparr>sp_slot := s\<rparr>) = recv_parked items waiting woken k n st"
  "recv_parked items waiting woken k n (st\<lparr>sp_send_ready := w\<rparr>) = recv_parked items waiting woken k n st"
  by (simp_all add: recv_parked_def)

text \<open>\<open>try_send\<close> is at most two pushes, of the slot and of the item.\<close>

lemma try_send_cases:
  fixes st t
  defines "r \<equiv> Sender_try_send L st t"
  obtains (one) "sp_slot st = None" "r = Sender_push L st t"
  | (stuck) x e where "sp_slot st = Some x" "Sender_push L (st\<lparr>sp_slot := None\<rparr>) x = (st\<lparr>sp_slot := None\<rparr>, Inl e)"
      "r = (st, Inl (case e of Full _ \<Rightarrow> Full t | Disconnected_send _ \<Rightarrow> Disconnected_send t))"
  | (two) x st1 where "sp_slot st = Some x" "Sender_push L (st\<lparr>sp_slot := None\<rparr>) x = (st1, Inr ())"
      "r = Sender_push L st1 t"
proof (cases "sp_slot st")
  case None
  then show ?thesis using one by (simp add: r_def Sender_try_send_def)
next
  case (Some x)
  have id: "st\<lparr>sp_slot := Some x\<rparr> = st" using Some by (cases st) simp
  show ?thesis
    by (cases rule: push_cases [of "st\<lparr>sp_slot := None\<rparr>" x])
      (use Some id stuck [of x] two [of x] in \<open>auto simp: r_def Sender_try_send_def\<close>)
qed

text \<open>Nothing is lost, reordered or duplicated: a \<open>try_send\<close> appends the item or gives it back.\<close>

lemma try_send_contents:
  "case Sender_try_send L st t of
     (st', Inr _) \<Rightarrow> spsc_contents items st' = spsc_contents items st @ [t] \<and> sp_slot st' = None
   | (st', Inl e) \<Rightarrow> spsc_contents items st' = spsc_contents items st \<and>
       e = (if rx_gone (sp_channel st) then Disconnected_send t else Full t)"
proof (cases rule: try_send_cases [of st t])
  case one
  then show ?thesis by (cases rule: push_cases [of st t]) (auto simp: spsc_contents_def)
next
  case (stuck x e)
  then show ?thesis by (cases rule: push_cases [of "st\<lparr>sp_slot := None\<rparr>" x]) auto
next
  case (two x st1)
  from two(2) have "spsc_contents items st1 = spsc_contents items st" "sp_slot st1 = None"
    "rx_gone (sp_channel st1) = rx_gone (sp_channel st)"
    by (cases rule: push_cases [of "st\<lparr>sp_slot := None\<rparr>" x]; use two(1) in \<open>auto simp: spsc_contents_def\<close>)+
  then show ?thesis using two(3)
    by (cases rule: push_cases [of st1 t]) (auto simp: spsc_contents_def)
qed

lemma try_send_parked:
  assumes "recv_parked items waiting woken k n st"
  shows "recv_parked items waiting woken k n (fst (Sender_try_send L st t))"
proof (cases rule: try_send_cases [of st t])
  case one
  then show ?thesis using push_parked [OF assms] by simp
next
  case (stuck x e)
  then show ?thesis using assms by simp
next
  case (two x st1)
  have "recv_parked items waiting woken k n (st\<lparr>sp_slot := None\<rparr>)" using assms by simp
  from push_parked [OF this, of x] two(2) have "recv_parked items waiting woken k n st1" by simp
  from push_parked [OF this] two(3) show ?thesis by simp
qed

lemma try_send_grows:
  "\<exists>new. items (sp_channel (fst (Sender_try_send L st t))) = items (sp_channel st) @ new \<and>
     rx_gone (sp_channel (fst (Sender_try_send L st t))) = rx_gone (sp_channel st)"
proof (cases rule: try_send_cases [of st t])
  case one
  then show ?thesis using push_grows by simp
next
  case (stuck x e)
  then show ?thesis by simp
next
  case (two x st1)
  then show ?thesis using push_grows [of "st\<lparr>sp_slot := None\<rparr>" x] push_grows [of st1 t] by auto
qed

lemma try_send_frame: "sp_send_ready (fst (Sender_try_send L st t)) = sp_send_ready st"
proof (cases rule: try_send_cases [of st t])
  case (two x st1)
  then show ?thesis using push_frame(2) [of "st\<lparr>sp_slot := None\<rparr>" x] push_frame(2) [of st1 t] by simp
qed (simp_all add: push_frame)

text \<open>A poll of the sender, when the other side does nothing during it.\<close>

lemma poll_ready_quiet:
  fixes cx :: 'k
  shows "Sender_poll_ready L id id cx st =
     (case sp_slot st of
        None \<Rightarrow> (st, Ready (Inr ()))
      | Some t \<Rightarrow>
          (case Sender_push L (st\<lparr>sp_slot := None\<rparr>) t of
             (st1, Inr _) \<Rightarrow> (st1, Ready (Inr ()))
           | (st1, Inl (Disconnected_send _)) \<Rightarrow> (st\<lparr>sp_slot := None\<rparr>, Ready (Inl Spsc_disconnected))
           | (st1, Inl (Full _)) \<Rightarrow> (st\<lparr>sp_send_ready := aw_register L (sp_send_ready st) cx\<rparr>, Pending)))"
proof (cases "sp_slot st")
  case (Some t)
  have id: "st\<lparr>sp_slot := Some t\<rparr> = st" using Some by (cases st) simp
  let ?st = "st\<lparr>sp_slot := None, sp_send_ready := aw_register L (sp_send_ready st) cx\<rparr>"
  show ?thesis
  proof (cases rule: push_cases [of "st\<lparr>sp_slot := None\<rparr>" t])
    case full
    then have "Sender_push L ?st t = (?st, Inl (Full t))" by (intro push_full) simp_all
    moreover have "?st\<lparr>sp_slot := Some t\<rparr> = st\<lparr>sp_send_ready := aw_register L (sp_send_ready st) cx\<rparr>"
      using Some by (cases st) simp
    ultimately show ?thesis using full Some by (simp add: Sender_poll_ready_def Sender_try_send_def Let_def)
  qed (use Some in \<open>simp_all add: Sender_poll_ready_def Sender_try_send_def\<close>)
qed (simp add: Sender_poll_ready_def)

lemma poll_ready_contents:
  fixes cx :: 'k
  assumes "Sender_poll_ready L id id cx st = (st', r)" and "\<not> rx_gone (sp_channel st)"
  shows "spsc_contents items st' = spsc_contents items st" and "\<not> rx_gone (sp_channel st')"
    and "r = Ready (Inr ()) \<longleftrightarrow> sp_slot st' = None"
proof -
  have "spsc_contents items st' = spsc_contents items st \<and> \<not> rx_gone (sp_channel st') \<and>
      (r = Ready (Inr ()) \<longleftrightarrow> sp_slot st' = None)"
  proof (cases "sp_slot st")
    case (Some t)
    then show ?thesis using assms
      by (cases rule: push_cases [of "st\<lparr>sp_slot := None\<rparr>" t]) (auto simp: poll_ready_quiet spsc_contents_def)
  qed (use assms in \<open>auto simp: poll_ready_quiet\<close>)
  then show "spsc_contents items st' = spsc_contents items st" "\<not> rx_gone (sp_channel st')"
    "r = Ready (Inr ()) \<longleftrightarrow> sp_slot st' = None" by blast+
qed

lemma poll_ready_live:
  fixes cx :: 'k
  assumes "Sender_poll_ready L id id cx st = (st', r)" and "\<not> rx_gone (sp_channel st)"
  shows "r = Pending \<or> r = Ready (Inr ())"
proof (cases "sp_slot st")
  case (Some t)
  then show ?thesis using assms
    by (cases rule: push_cases [of "st\<lparr>sp_slot := None\<rparr>" t]) (auto simp: poll_ready_quiet)
qed (use assms in \<open>auto simp: poll_ready_quiet\<close>)

lemma poll_next_quiet:
  fixes cx :: 'k
  shows "Receiver_poll_next L id id cx st =
     (case items (sp_channel st) of
        t # _ \<Rightarrow> (fst (Receiver_try_recv L st), Ready (Some t))
      | [] \<Rightarrow> if tx_gone (sp_channel st) then (st, Ready None)
              else (st\<lparr>sp_recv_ready := aw_register L (sp_recv_ready st) cx\<rparr>, Pending))"
proof (cases rule: try_recv_cases [of st])
  case (item t q)
  then show ?thesis by (simp add: Receiver_poll_next_def)
next
  case empty
  let ?st = "st\<lparr>sp_recv_ready := aw_register L (sp_recv_ready st) cx\<rparr>"
  have "Receiver_try_recv L ?st = (?st, Inl (if tx_gone (sp_channel st) then Disconnected_recv else Empty))"
    by (cases rule: try_recv_cases [of ?st]) (use empty in auto)
  with empty show ?thesis by (simp add: Receiver_poll_next_def Let_def)
qed

lemma poll_ready_parked:
  fixes cx :: 'k
  assumes "recv_parked items waiting woken k n st"
  shows "recv_parked items waiting woken k n (fst (Sender_poll_ready L id id cx st))"
proof (cases "sp_slot st")
  case (Some t)
  have "recv_parked items waiting woken k n (st\<lparr>sp_slot := None\<rparr>)" using assms by simp
  from push_parked [OF this, of t] Some assms show ?thesis
    by (cases rule: push_cases [of "st\<lparr>sp_slot := None\<rparr>" t]) (auto simp: poll_ready_quiet)
qed (use assms in \<open>simp add: poll_ready_quiet\<close>)

lemma poll_ready_grows:
  fixes cx :: 'k
  shows "\<exists>new. items (sp_channel (fst (Sender_poll_ready L id id cx st))) = items (sp_channel st) @ new"
proof (cases "sp_slot st")
  case (Some t)
  then show ?thesis
    by (cases rule: push_cases [of "st\<lparr>sp_slot := None\<rparr>" t]) (auto simp: poll_ready_quiet)
qed (simp add: poll_ready_quiet)

text \<open>What any action of the sender does to the receiver's side.\<close>

lemma sender_step_parked:
  assumes "sender_step L st e = Some (st', new)" and "recv_parked items waiting woken k n st"
  shows "recv_parked items waiting woken k n st'"
proof (cases e)
  case (Send_try a)
  then show ?thesis using assms try_send_parked [OF assms(2), of a] by (auto split: prod.splits)
next
  case (Send_poll cx)
  then show ?thesis using assms poll_ready_parked [OF assms(2), of cx] by auto
next
  case (Send_start a)
  then show ?thesis using assms by (auto simp: Sender_start_send_def split: if_splits)
next
  case Send_drop
  then show ?thesis using assms
    by (auto simp: Sender_drop_def recv_parked_def intro: wake_set wake_keeps wake_longer)
next
  case Send_drop_fields
  then show ?thesis using assms by (auto simp: Sender_drop_fields_def recv_parked_def drop_sender)
qed

lemma sender_step_grows:
  assumes "sender_step L st e = Some (st', new)"
  shows "\<exists>added. items (sp_channel st') = items (sp_channel st) @ added"
proof (cases e)
  case (Send_try a)
  then show ?thesis using assms try_send_grows [of st a] by (auto split: prod.splits)
next
  case (Send_poll cx)
  then show ?thesis using assms poll_ready_grows [of cx st] by auto
qed (use assms in \<open>auto simp: Sender_start_send_def Sender_drop_def Sender_drop_fields_def drop_sender split: if_splits\<close>)

lemma sender_run_parked:
  "sender_run L st es = Some st' \<Longrightarrow> recv_parked items waiting woken k n st \<Longrightarrow> recv_parked items waiting woken k n st'"
  by (induction es arbitrary: st) (auto simp: option_bind_eq_Some dest: sender_step_parked)

lemma sender_run_grows:
  "sender_run L st es = Some st' \<Longrightarrow> \<exists>added. items (sp_channel st') = items (sp_channel st) @ added"
  by (induction es arbitrary: st) (fastforce simp: option_bind_eq_Some dest: sender_step_grows)+

text \<open>A receiver that is told to wait is registered, and the next item will wake it.\<close>

lemma poll_next_parks:
  fixes cx :: 'k
  assumes "Receiver_poll_next L env1 env2 cx st = (st', Pending)"
    and "\<And>s. \<exists>es. sender_run L s es = Some (env1 s)" and "\<And>s. \<exists>es. sender_run L s es = Some (env2 s)"
    and "n \<le> length (woken (sp_recv_ready (env1 st)))"
  shows "recv_parked items waiting woken cx n st'" and "items (sp_channel st') = []"
proof -
  have e: "Receiver_try_recv L st = (st, Inl Empty)"
    using assms(1) by (cases rule: try_recv_cases [of st]) (auto simp: Receiver_poll_next_def split: if_splits)
  define s1 where "s1 = (env1 st)\<lparr>sp_recv_ready := aw_register L (sp_recv_ready (env1 st)) cx\<rparr>"
  have r: "Receiver_try_recv L (env2 s1) = (st', Inl Empty)"
    using assms(1) e by (auto simp: Receiver_poll_next_def Let_def s1_def split: prod.splits sum.splits try_recv_error.splits)
  have st': "env2 s1 = st'" "items (sp_channel st') = []"
    using r by (cases rule: try_recv_cases [of "env2 s1"]; auto split: if_splits)+
  obtain es where es: "sender_run L s1 es = Some st'" using assms(3) [of s1] st'(1) by auto
  have "items (sp_channel s1) = []" using sender_run_grows [OF es] st'(2) by auto
  then have "recv_parked items waiting woken cx n s1" using assms(4) by (simp add: recv_parked_def s1_def register)
  from sender_run_parked [OF es this] show "recv_parked items waiting woken cx n st'" .
  show "items (sp_channel st') = []" by (rule st'(2))
qed

text \<open>The same for the actions of the receiver and a sender that waits for room.\<close>

lemma try_recv_parked:
  "send_parked items room waiting woken k n st \<Longrightarrow>
   send_parked items room waiting woken k n (fst (Receiver_try_recv L st))"
  by (cases rule: try_recv_cases [of st])
    (auto simp: send_parked_def intro: wake_set wake_keeps wake_longer)

lemma receiver_step_parked:
  assumes "send_parked items room waiting woken k n st"
  shows "send_parked items room waiting woken k n (fst (receiver_step L st e))"
proof (cases e)
  case Recv_try
  then show ?thesis using try_recv_parked [OF assms] by (auto split: prod.splits)
next
  case (Recv_poll cx)
  then show ?thesis using assms try_recv_parked [OF assms]
    by (auto simp: poll_next_quiet send_parked_def split: list.splits prod.splits)
qed

lemma receiver_run_parked:
  "send_parked items room waiting woken k n st \<Longrightarrow> send_parked items room waiting woken k n (receiver_run L st es)"
  by (induction es arbitrary: st) (auto intro: receiver_step_parked)

lemma receiver_step_shrinks:
  "(\<exists>gone. items (sp_channel st) = gone @ items (sp_channel (fst (receiver_step L st e)))) \<and>
   room (sp_channel (fst (receiver_step L st e))) = room (sp_channel st) \<and>
   sp_slot (fst (receiver_step L st e)) = sp_slot st"
  by (cases e; cases rule: try_recv_cases [of st]) (auto simp: poll_next_quiet)

lemma receiver_run_shrinks:
  "(\<exists>gone. items (sp_channel st) = gone @ items (sp_channel (receiver_run L st es))) \<and>
   room (sp_channel (receiver_run L st es)) = room (sp_channel st) \<and> sp_slot (receiver_run L st es) = sp_slot st"
proof (induction es arbitrary: st)
  case (Cons e es)
  then show ?case
    using receiver_step_shrinks [of st e] Cons [of "fst (receiver_step L st e)"] by (metis append_assoc receiver_run.simps(2))
qed simp

lemma poll_ready_parks:
  fixes cx :: 'k
  assumes "Sender_poll_ready L env1 env2 cx st = (st', Pending)"
    and "\<And>s. \<exists>es. receiver_run L s es = env1 s" and "\<And>s. \<exists>es. receiver_run L s es = env2 s"
    and "n \<le> length (woken (sp_send_ready (env1 (st\<lparr>sp_slot := None\<rparr>))))"
  shows "send_parked items room waiting woken cx n st'" and "sp_slot st' = sp_slot st"
    and "room (sp_channel st') \<le> length (items (sp_channel st'))"
proof -
  obtain t where t: "sp_slot st = Some t" using assms(1) by (auto simp: Sender_poll_ready_def split: option.splits)
  let ?s0 = "st\<lparr>sp_slot := None\<rparr>"
  have p0: "Sender_push L ?s0 t = (?s0, Inl (Full t))"
    using assms(1) t by (cases rule: push_cases [of ?s0 t]) (auto simp: Sender_poll_ready_def Sender_try_send_def)
  define s1 where "s1 = (env1 ?s0)\<lparr>sp_send_ready := aw_register L (sp_send_ready (env1 ?s0)) cx\<rparr>"
  obtain es0 where "receiver_run L ?s0 es0 = env1 ?s0" using assms(2) by blast
  then have slot1: "sp_slot s1 = None" using receiver_run_shrinks [of ?s0 es0] by (simp add: s1_def)
  obtain es where es: "receiver_run L s1 es = env2 s1" using assms(3) by blast
  have shrink: "\<exists>gone. items (sp_channel s1) = gone @ items (sp_channel (env2 s1))"
    "room (sp_channel (env2 s1)) = room (sp_channel s1)" "sp_slot (env2 s1) = None"
    using receiver_run_shrinks [of s1 es] es slot1 by auto
  have s2: "Sender_push L (env2 s1) t = (env2 s1, Inl (Full t))" "st' = (env2 s1)\<lparr>sp_slot := Some t\<rparr>"
    "room (sp_channel (env2 s1)) \<le> length (items (sp_channel (env2 s1)))"
    using assms(1) t p0 shrink(3)
    by (cases rule: push_cases [of "env2 s1" t]; auto simp: Sender_poll_ready_def Sender_try_send_def Let_def s1_def)+
  have "room (sp_channel s1) \<le> length (items (sp_channel s1))" using shrink(1,2) s2(3) by auto
  then have "send_parked items room waiting woken cx n s1" using assms(4) by (simp add: send_parked_def s1_def register)
  from receiver_run_parked [OF this, of es] es show "send_parked items room waiting woken cx n st'"
    using s2(2) by (simp add: send_parked_def)
  show "sp_slot st' = sp_slot st" using s2(2) t by simp
  show "room (sp_channel st') \<le> length (items (sp_channel st'))" using s2(2,3) by simp
qed

lemma poll_ready_slot:
  fixes cx :: 'k
  shows "snd (Sender_poll_ready L id id cx st) = Ready (Inr ()) \<Longrightarrow> sp_slot (fst (Sender_poll_ready L id id cx st)) = None"
proof (cases "sp_slot st")
  case (Some t)
  then show "snd (Sender_poll_ready L id id cx st) = Ready (Inr ()) \<Longrightarrow> ?thesis"
    by (cases rule: push_cases [of "st\<lparr>sp_slot := None\<rparr>" t]) (auto simp: poll_ready_quiet)
qed (simp add: poll_ready_quiet)

text \<open>A whole run is a queue, while the receiver is there.\<close>

lemma sender_step_contents:
  assumes "sender_step L st e = Some (st', new)" and "\<not> rx_gone (sp_channel st)"
    and "e \<noteq> Send_drop_fields"
  shows "spsc_contents items st' = spsc_contents items st @ new \<and> \<not> rx_gone (sp_channel st')"
proof (cases e)
  case (Send_try a)
  then show ?thesis using assms try_send_contents [of st a] try_send_grows [of st a]
    by (auto split: prod.splits sum.splits)
next
  case (Send_poll cx)
  then show ?thesis using assms poll_ready_contents [of cx st] by (cases "Sender_poll_ready L id id cx st") auto
qed (use assms in \<open>auto simp: Sender_start_send_def Sender_drop_def spsc_contents_def split: if_splits\<close>)

lemma receiver_step_contents:
  assumes "receiver_step L st e = (st', new)"
  shows "spsc_contents items st = new @ spsc_contents items st' \<and> rx_gone (sp_channel st') = rx_gone (sp_channel st)"
  using assms
  by (cases e; cases rule: try_recv_cases [of st])
    (auto simp: poll_next_quiet spsc_contents_def split: if_splits)

lemma spsc_run_contents:
  assumes "spsc_run L (st, acc, got) es = Some (st', acc', got')" and "\<not> rx_gone (sp_channel st)"
    and "Inl Send_drop_fields \<notin> set es" and "acc = got @ spsc_contents items st"
  shows "acc' = got' @ spsc_contents items st'"
  using assms
proof (induction es arbitrary: st acc got)
  case (Cons e es)
  show ?case
  proof (cases e)
    case (Inl a)
    then obtain st1 new where s: "sender_step L st a = Some (st1, new)"
      "spsc_run L (st1, acc @ new, got) es = Some (st', acc', got')"
      using Cons.prems(1) by (auto simp: option_bind_eq_Some)
    have "a \<noteq> Send_drop_fields" using Cons.prems(3) Inl by auto
    from sender_step_contents [OF s(1) Cons.prems(2) this] Cons.IH [OF s(2)] Cons.prems(3,4) show ?thesis by simp
  next
    case (Inr a)
    obtain st1 new where s: "receiver_step L st a = (st1, new)" by force
    from receiver_step_contents [OF s] Cons.IH [of st1 acc "got @ new"] Cons.prems s Inr show ?thesis by simp
  qed
qed simp

end

subsection \<open>The documented queue and waker\<close>

text \<open>
  The documentation of the two packages as executable operations: a list with a bound and two flags,
  and a cell with the registered waker and the log of those that were woken.
\<close>

record 'a fifo =
  fq_items :: "'a list"
  fq_room :: nat
  fq_tx_gone :: bool
  fq_rx_gone :: bool

definition fifo_lib :: "('a fifo, 'k option \<times> 'k list, 'a, 'k) spsc_lib" where
  "fifo_lib = \<lparr>
     cb_bounded = (\<lambda>n. \<lparr>fq_items = [], fq_room = n, fq_tx_gone = False, fq_rx_gone = False\<rparr>),
     cb_try_send = (\<lambda>q t. if fq_rx_gone q then (q, Inl (Disconnected_send t))
       else if fq_room q \<le> length (fq_items q) then (q, Inl (Full t))
       else (q\<lparr>fq_items := fq_items q @ [t]\<rparr>, Inr ())),
     cb_try_recv = (\<lambda>q. case fq_items q of
         [] \<Rightarrow> (q, Inl (if fq_tx_gone q then Disconnected_recv else Empty))
       | t # ts \<Rightarrow> (q\<lparr>fq_items := ts\<rparr>, Inr t)),
     cb_drop_sender = fq_tx_gone_update (\<lambda>_. True),
     cb_drop_receiver = fq_rx_gone_update (\<lambda>_. True),
     aw_new = (None, []),
     aw_register = (\<lambda>w k. (Some k, snd w)),
     aw_wake = (\<lambda>w. (None, snd w @ (case fst w of None \<Rightarrow> [] | Some k \<Rightarrow> [k])))\<rparr>"

interpretation fifo: spsc_laws fifo_lib fq_items fq_room fq_tx_gone fq_rx_gone fst snd
  by unfold_locales (auto simp: fifo_lib_def)

subsection \<open>Properties\<close>



text \<open>
  C30: no wake-up is lost. When \<open>poll_next\<close> answers \<open>Pending\<close>, whatever the sender did while it ran, the
  task is registered, and as soon as the actions of the sender put an item into the queue it has been
  woken. When \<open>poll_ready\<close> answers \<open>Pending\<close>, the item is back in the slot, and as soon as the receiver
  made room the task has been woken.
\<close>

theorem spsc_no_lost_wakeup:
  assumes "spsc_laws L items room tx_gone rx_gone waiting woken"
    and "\<And>s. \<exists>es. sender_run L s es = Some (tx1 s)" and "\<And>s. \<exists>es. sender_run L s es = Some (tx2 s)"
    and "\<And>s. \<exists>es. receiver_run L s es = rx1 s" and "\<And>s. \<exists>es. receiver_run L s es = rx2 s"
    and "Receiver_poll_next L tx1 tx2 cx st = (st', Pending)" and "sender_run L st' es = Some st''"
    and "Sender_poll_ready L rx1 rx2 cx' w = (w', Pending)"
  shows "(items (sp_channel st'') \<noteq> [] \<longrightarrow>
        cx \<in> set (drop (length (woken (sp_recv_ready (tx1 st)))) (woken (sp_recv_ready st'')))) \<and>
     sp_slot w' = sp_slot w \<and>
     (let w'' = receiver_run L w' es' in length (items (sp_channel w'')) < room (sp_channel w'') \<longrightarrow>
        cx' \<in> set (drop (length (woken (sp_send_ready (rx1 (w\<lparr>sp_slot := None\<rparr>))))) (woken (sp_send_ready w''))))"
proof -
  note park = spsc_laws.poll_next_parks(1) [OF assms(1,6) assms(2,3) order_refl]
  have "recv_parked items waiting woken cx (length (woken (sp_recv_ready (tx1 st)))) st''"
    by (rule spsc_laws.sender_run_parked [OF assms(1,7) park])
  moreover note wpark = spsc_laws.poll_ready_parks [OF assms(1,8) assms(4,5) order_refl]
  have "send_parked items room waiting woken cx' (length (woken (sp_send_ready (rx1 (w\<lparr>sp_slot := None\<rparr>)))))
      (receiver_run L w' es')"
    by (rule spsc_laws.receiver_run_parked [OF assms(1) wpark(1)])
  ultimately show ?thesis using wpark(2) by (auto simp: recv_parked_def send_parked_def Let_def)
qed

theorem spsc_no_lost_wakeup_witness:
  "\<exists>st' st''. Receiver_poll_next fifo_lib id id (7 :: nat) (spsc_channel fifo_lib 1) = (st', Pending) \<and>
     sender_run fifo_lib st' [Send_try CHR ''a''] = Some st'' \<and> 7 \<in> set (snd (sp_recv_ready st''))"
proof -
  have s: "\<exists>es. sender_run fifo_lib s es = Some (id s)" for s :: "('b fifo, 'k option \<times> 'k list, 'b) spsc"
    by (rule exI [of _ "[]"]) simp
  have r: "\<exists>es. receiver_run fifo_lib s es = id s" for s :: "('b fifo, 'k option \<times> 'k list, 'b) spsc"
    by (rule exI [of _ "[]"]) simp
  let ?st = "spsc_channel fifo_lib 1 :: (char fifo, nat option \<times> nat list, char) spsc"
  let ?w = "?st\<lparr>sp_channel := \<lparr>fq_items = ''b'', fq_room = 1, fq_tx_gone = False, fq_rx_gone = False\<rparr>, sp_slot := Some CHR ''c''\<rparr>"
  obtain st' st'' where a: "Receiver_poll_next fifo_lib id id 7 ?st = (st', Pending)"
    "sender_run fifo_lib st' [Send_try CHR ''a''] = Some st''" "fq_items (sp_channel st'') \<noteq> []"
    by (simp add: fifo_lib_def spsc_channel_def Sender_try_send_def Sender_push_def Receiver_try_recv_def Receiver_poll_next_def)
  obtain w' where b: "Sender_poll_ready fifo_lib id id 9 ?w = (w', Pending)"
    by (simp add: fifo_lib_def spsc_channel_def Sender_poll_ready_def Sender_try_send_def Sender_push_def)
  from spsc_no_lost_wakeup [OF fifo.spsc_laws_axioms s s r r a(1,2) b] a show ?thesis
    by (auto dest: in_set_dropD)
qed

text \<open>
  C39: the disconnection of the sender is not announced. \<open>Drop for Sender\<close> wakes the receiver before the
  inner channel is dropped. A receiver that polls in between is told to wait, and when the drop is
  complete nobody has woken it, although its next poll would end the stream.
\<close>

theorem sender_drop_loses_wakeup:
  assumes "spsc_laws L items room tx_gone rx_gone waiting woken"
    and "items (sp_channel st) = []" and "\<not> tx_gone (sp_channel st)"
  shows "\<exists>st1 st2. Receiver_poll_next L id id cx (Sender_drop L st) = (st1, Pending) \<and>
     st2 = Sender_drop_fields L st1 \<and> waiting (sp_recv_ready st2) = Some cx \<and>
     woken (sp_recv_ready st2) = woken (sp_recv_ready (Sender_drop L st)) \<and>
     Receiver_poll_next L id id cx st2 = (st2, Ready None)"
  using assms(2,3) spsc_laws.poll_next_quiet [OF assms(1)] spsc_laws.register [OF assms(1)]
    spsc_laws.drop_sender [OF assms(1)]
  by (simp add: Sender_drop_def Sender_drop_fields_def)

theorem sender_drop_loses_wakeup_witness:
  "\<exists>st1. Receiver_poll_next fifo_lib id id True
       (Sender_drop fifo_lib (spsc_channel fifo_lib 4 :: (nat fifo, bool option \<times> bool list, nat) spsc)) = (st1, Pending) \<and>
     fst (sp_recv_ready (Sender_drop_fields fifo_lib st1)) = Some True"
  using sender_drop_loses_wakeup [OF fifo.spsc_laws_axioms, of "spsc_channel fifo_lib 4" True]
  by (auto simp: spsc_channel_def fifo.bounded)

end
