(* ===== verification/Unreliable_Channel.thy ===== *)
theory Unreliable_Channel
  imports Spsc Packet Bandwidth_Limiter
begin

text \<open>
  The unreliable channel (\<open>unreliable_channel.rs\<close>).

  Messages are coalesced into packets: each is preceded by its length in two bytes. The channel is a
  record with the two \<open>spsc\<close> channels it owns an end of, the packet it is filling, and the packet it is
  reading with the position in it. The bytes of a packet stand for the packet, as in the theory of
  packets. What a poll depends on beyond the state is an argument: the packages under \<open>spsc\<close>, the timer,
  whether the sleep that is being polled is over, and the waker of the context. A poll is one step; that
  the other end of an \<open>spsc\<close> channel may act during it is the concern of that theory.
\<close>

datatype uc_send_error = Send_disconnected | TooBig
datatype uc_recv_error = Recv_disconnected | BadFormat

record uc_settings =
  uc_bandwidth :: nat
  uc_burst_bandwidth :: nat

record ('q, 'w, 'i) unreliable_channel =
  uc_capacity :: nat
  uc_limiter :: "'i bandwidth_limiter"
  uc_sender :: "('q, 'w, byte list) spsc"
  uc_receiver :: "('q, 'w, byte list) spsc"
  uc_out_packet :: "byte list"
  uc_in_packet :: "(byte list \<times> nat) option"
  uc_delay :: "real option"
  uc_clock_reads :: nat

type_synonym ('q, 'w, 'k) packet_lib = "('q, 'w, byte list, 'k) spsc_lib"

definition UnreliableChannel_new ::
  "'i timer \<Rightarrow> nat \<Rightarrow> uc_settings \<Rightarrow> ('q, 'w, byte list) spsc \<Rightarrow> ('q, 'w, byte list) spsc \<Rightarrow>
   ('q, 'w, 'i) unreliable_channel" where
  "UnreliableChannel_new tm cap st sender receiver =
     \<lparr>uc_capacity = cap,
      uc_limiter = BandwidthLimiter_new (clock tm 0) (uc_bandwidth st) (uc_burst_bandwidth st),
      uc_sender = sender, uc_receiver = receiver, uc_out_packet = [], uc_in_packet = None,
      uc_delay = None, uc_clock_reads = 1\<rparr>"

text \<open>\<open>capacity().min(MAX_PACKET_LEN as usize) as u16 - 2\<close>\<close>

definition max_message_len :: "('q, 'w, 'i) unreliable_channel \<Rightarrow> nat option" where
  "max_message_len uc = usize_sub (min (uc_capacity uc) MAX_PACKET_LEN) 2"

subsection \<open>Writing a message into the packet\<close>

record start_send =
  ss_packet :: "byte list"
  ss_start :: nat
  ss_capacity :: nat

definition StartSend_new :: "byte list \<Rightarrow> nat \<Rightarrow> start_send option" where
  "StartSend_new packet cap = do {
     n \<leftarrow> usize_add (length packet) 2;
     assert_that (n \<le> cap);
     resized \<leftarrow> packet_resize cap packet cap 0;
     Some \<lparr>ss_packet = resized, ss_start = length packet, ss_capacity = cap\<rparr>
   }"

text \<open>\<open>send.buffer()[0..msg.len()].copy_from_slice(msg)\<close>\<close>

definition StartSend_fill :: "start_send \<Rightarrow> byte list \<Rightarrow> start_send option" where
  "StartSend_fill ss msg = do {
     n \<leftarrow> usize_add (ss_start ss) 2;
     buffer \<leftarrow> slice (ss_packet ss) n (length (ss_packet ss));
     filled \<leftarrow> copy_at buffer 0 msg;
     packet \<leftarrow> copy_at (ss_packet ss) n filled;
     Some (ss\<lparr>ss_packet := packet\<rparr>)
   }"

definition StartSend_finish :: "start_send \<Rightarrow> nat \<Rightarrow> byte list option" where
  "StartSend_finish ss msg_len = do {
     n \<leftarrow> usize_sub (ss_capacity ss) (ss_start ss);
     room \<leftarrow> usize_sub n 2;
     assert_that (msg_len < room);
     assert_that (msg_len \<le> u16_max);
     header_end \<leftarrow> usize_add (ss_start ss) 2;
     _ \<leftarrow> slice (ss_packet ss) (ss_start ss) header_end;
     packet \<leftarrow> copy_at (ss_packet ss) (ss_start ss) (write_u16 msg_len);
     n \<leftarrow> usize_add (ss_start ss) msg_len;
     end_pos \<leftarrow> usize_add n 2;
     packet_truncate (ss_capacity ss) packet end_pos
   }"

subsection \<open>Sending\<close>

definition uc_update_delay :: "'i timer \<Rightarrow> ('q, 'w, 'i) unreliable_channel \<Rightarrow> ('q, 'w, 'i) unreliable_channel option" where
  "uc_update_delay tm uc =
     (if uc_delay uc = None then do {
        l \<leftarrow> update_available (duration_between tm) (uc_limiter uc) (clock tm (uc_clock_reads uc));
        delay \<leftarrow> delay_until_available l;
        Some (uc\<lparr>uc_limiter := l, uc_clock_reads := Suc (uc_clock_reads uc), uc_delay := delay\<rparr>)
      } else Some uc)"

definition uc_poll_flush ::
  "('q, 'w, 'k) packet_lib \<Rightarrow> 'i timer \<Rightarrow> bool \<Rightarrow> 'k \<Rightarrow> ('q, 'w, 'i) unreliable_channel \<Rightarrow>
   (('q, 'w, 'i) unreliable_channel \<times> (uc_send_error + unit) poll) option" where
  "uc_poll_flush L tm slept cx uc =
     (if uc_out_packet uc = [] then Some (uc, Ready (Inr ()))
      else do {
        uc \<leftarrow> uc_update_delay tm uc;
        if uc_delay uc \<noteq> None \<and> \<not> slept then Some (uc, Pending)
        else do {
          let uc = uc\<lparr>uc_delay := None\<rparr>;
          (case Sender_poll_ready L id id cx (uc_sender uc) of
             (s, Pending) \<Rightarrow> Some (uc\<lparr>uc_sender := s\<rparr>, Pending)
           | (s, Ready (Inl _)) \<Rightarrow> Some (uc\<lparr>uc_sender := s\<rparr>, Ready (Inl Send_disconnected))
           | (s, Ready (Inr _)) \<Rightarrow> do {
               let out_packet = uc_out_packet uc;
               let uc = uc\<lparr>uc_out_packet := [], uc_limiter := take_bytes (uc_limiter uc) (as_u32 (length out_packet))\<rparr>;
               s \<leftarrow> Sender_start_send s out_packet;
               (case Sender_poll_flush L id id cx s of
                  (s, Pending) \<Rightarrow> Some (uc\<lparr>uc_sender := s\<rparr>, Pending)
                | (s, Ready (Inl _)) \<Rightarrow> Some (uc\<lparr>uc_sender := s\<rparr>, Ready (Inl Send_disconnected))
                | (s, Ready (Inr _)) \<Rightarrow> Some (uc\<lparr>uc_sender := s\<rparr>, Ready (Inr ())))
             })
        }
      })"

definition uc_poll_send_ready ::
  "('q, 'w, 'k) packet_lib \<Rightarrow> 'i timer \<Rightarrow> bool \<Rightarrow> 'k \<Rightarrow> nat \<Rightarrow> ('q, 'w, 'i) unreliable_channel \<Rightarrow>
   (('q, 'w, 'i) unreliable_channel \<times> (uc_send_error + unit) poll) option" where
  "uc_poll_send_ready L tm slept cx msg_len uc =
     (if u16_max < msg_len then Some (uc, Ready (Inl TooBig))
      else do {
        room \<leftarrow> usize_sub (uc_capacity uc) (length (uc_out_packet uc));
        if room < msg_len + 2 then do {
          (uc, r) \<leftarrow> uc_poll_flush L tm slept cx uc;
          (case r of
             Ready (Inr _) \<Rightarrow>
               (if uc_capacity uc < msg_len + 2 then Some (uc, Ready (Inl TooBig)) else Some (uc, Ready (Inr ())))
           | _ \<Rightarrow> Some (uc, r))
        } else Some (uc, Ready (Inr ()))
      })"

definition uc_poll_send ::
  "('q, 'w, 'k) packet_lib \<Rightarrow> 'i timer \<Rightarrow> bool \<Rightarrow> 'k \<Rightarrow> byte list \<Rightarrow> ('q, 'w, 'i) unreliable_channel \<Rightarrow>
   (('q, 'w, 'i) unreliable_channel \<times> (uc_send_error + unit) poll) option" where
  "uc_poll_send L tm slept cx msg uc = do {
     (uc, r) \<leftarrow> uc_poll_send_ready L tm slept cx (length msg) uc;
     (case r of
        Ready (Inr _) \<Rightarrow> do {
          ss \<leftarrow> StartSend_new (uc_out_packet uc) (uc_capacity uc);
          ss \<leftarrow> StartSend_fill ss msg;
          packet \<leftarrow> StartSend_finish ss (length msg);
          Some (uc\<lparr>uc_out_packet := packet\<rparr>, Ready (Inr ()))
        }
      | _ \<Rightarrow> Some (uc, r))
   }"

text \<open>\<open>try_send\<close> and \<open>try_flush\<close> poll with a waker that does nothing.\<close>

definition uc_try_send ::
  "('q, 'w, 'k) packet_lib \<Rightarrow> 'i timer \<Rightarrow> bool \<Rightarrow> 'k \<Rightarrow> byte list \<Rightarrow> ('q, 'w, 'i) unreliable_channel \<Rightarrow>
   (('q, 'w, 'i) unreliable_channel \<times> (uc_send_error + bool)) option" where
  "uc_try_send L tm slept noop msg uc = map_option (apsnd try_result) (uc_poll_send L tm slept noop msg uc)"

definition uc_try_flush ::
  "('q, 'w, 'k) packet_lib \<Rightarrow> 'i timer \<Rightarrow> bool \<Rightarrow> 'k \<Rightarrow> ('q, 'w, 'i) unreliable_channel \<Rightarrow>
   (('q, 'w, 'i) unreliable_channel \<times> (uc_send_error + bool)) option" where
  "uc_try_flush L tm slept noop uc = map_option (apsnd try_result) (uc_poll_flush L tm slept noop uc)"

subsection \<open>Receiving\<close>

definition uc_poll_recv_ready ::
  "('q, 'w, 'k) packet_lib \<Rightarrow> 'k \<Rightarrow> ('q, 'w, 'i) unreliable_channel \<Rightarrow>
   ('q, 'w, 'i) unreliable_channel \<times> (uc_recv_error + unit) poll" where
  "uc_poll_recv_ready L cx uc =
     (let uc = (case uc_in_packet uc of
          Some (packet, in_pos) \<Rightarrow> if in_pos = length packet then uc\<lparr>uc_in_packet := None\<rparr> else uc
        | None \<Rightarrow> uc)
      in if uc_in_packet uc = None then
           (case Receiver_poll_next L id id cx (uc_receiver uc) of
              (r, Pending) \<Rightarrow> (uc\<lparr>uc_receiver := r\<rparr>, Pending)
            | (r, Ready None) \<Rightarrow> (uc\<lparr>uc_receiver := r\<rparr>, Ready (Inl Recv_disconnected))
            | (r, Ready (Some packet)) \<Rightarrow>
                (uc\<lparr>uc_receiver := r, uc_in_packet := Some (packet, 0)\<rparr>, Ready (Inr ())))
         else (uc, Ready (Inr ())))"

definition uc_recv_next ::
  "('q, 'w, 'i) unreliable_channel \<Rightarrow> (('q, 'w, 'i) unreliable_channel \<times> (uc_recv_error + byte list)) option" where
  "uc_recv_next uc = do {
     (packet, in_pos) \<leftarrow> uc_in_packet uc;
     assert_that (in_pos \<noteq> length packet);
     body \<leftarrow> usize_add in_pos 2;
     if length packet < body then Some (uc\<lparr>uc_in_packet := Some (packet, length packet)\<rparr>, Inl BadFormat)
     else do {
       header \<leftarrow> slice packet in_pos body;
       let len = read_u16 header;
       end_pos \<leftarrow> usize_add body len;
       if length packet < end_pos then Some (uc\<lparr>uc_in_packet := Some (packet, length packet)\<rparr>, Inl BadFormat)
       else do {
         msg \<leftarrow> slice packet body end_pos;
         Some (uc\<lparr>uc_in_packet := Some (packet, end_pos)\<rparr>, Inr msg)
       }
     }
   }"

definition uc_poll_recv ::
  "('q, 'w, 'k) packet_lib \<Rightarrow> 'k \<Rightarrow> ('q, 'w, 'i) unreliable_channel \<Rightarrow>
   (('q, 'w, 'i) unreliable_channel \<times> (uc_recv_error + byte list) poll) option" where
  "uc_poll_recv L cx uc =
     (case uc_poll_recv_ready L cx uc of
        (uc, Pending) \<Rightarrow> Some (uc, Pending)
      | (uc, Ready (Inl e)) \<Rightarrow> Some (uc, Ready (Inl e))
      | (uc, Ready (Inr _)) \<Rightarrow> map_option (apsnd Ready) (uc_recv_next uc))"

definition uc_try_recv ::
  "('q, 'w, 'k) packet_lib \<Rightarrow> 'k \<Rightarrow> ('q, 'w, 'i) unreliable_channel \<Rightarrow>
   (('q, 'w, 'i) unreliable_channel \<times> (uc_recv_error + byte list option)) option" where
  "uc_try_recv L noop uc = do {
     (uc, r) \<leftarrow> uc_poll_recv L noop uc;
     Some (uc, case r of Pending \<Rightarrow> Inr None | Ready (Inr msg) \<Rightarrow> Inr (Some msg) | Ready (Inl e) \<Rightarrow> Inl e)
   }"

subsection \<open>The format of packets\<close>

lemma start_send_frame:
  assumes "length p + length m + 2 \<le> cap" and "cap \<le> usize_max" and "length m \<le> u16_max"
  shows "(do { ss \<leftarrow> StartSend_new p cap; ss \<leftarrow> StartSend_fill ss m; StartSend_finish ss (length m) }) =
     (if length p + length m + 2 < cap then Some (p @ frame m) else None)"
proof -
  let ?n = "length p" and ?k = "cap - (length p + length m + 2)"
  have new: "StartSend_new p cap = Some \<lparr>ss_packet = p @ replicate (cap - ?n) 0, ss_start = ?n, ss_capacity = cap\<rparr>"
    using assms by (simp add: StartSend_new_def checked_simps vec_resize_append)
  let ?ss = "\<lparr>ss_packet = p @ replicate 2 0 @ m @ replicate ?k 0, ss_start = ?n, ss_capacity = cap\<rparr>"
  have "replicate (cap - ?n) (0 :: byte) = replicate 2 0 @ replicate (length m) 0 @ replicate ?k 0"
    unfolding replicate_add [symmetric] using assms(1) by (intro arg_cong2 [where f = replicate]) auto
  with assms have fill: "StartSend_fill \<lparr>ss_packet = p @ replicate (cap - ?n) 0, ss_start = ?n, ss_capacity = cap\<rparr> m = Some ?ss"
    by (simp add: StartSend_fill_def checked_simps del: replicate_Suc)
  have "StartSend_finish ?ss (length m) = (if ?n + length m + 2 < cap then Some (p @ frame m) else None)"
  proof (cases "?n + length m + 2 < cap")
    case True
    then have "cap - ?n - 2 > length m" by simp
    with True assms show ?thesis
      by (simp add: StartSend_finish_def checked_simps frame_def del: replicate_Suc)
  next
    case False
    then have "\<not> length m < cap - ?n - 2" by simp
    then show ?thesis using False assms by (simp add: StartSend_finish_def checked_simps)
  qed
  with new fill show ?thesis by simp
qed

subsection \<open>What sending does\<close>

text \<open>A message goes into the packet, or the packet is flushed and the message starts the next one.\<close>

lemma uc_update_delay_shape:
  assumes "uc_update_delay tm uc = Some uc'"
  obtains l n d where "uc' = uc\<lparr>uc_limiter := l, uc_clock_reads := n, uc_delay := d\<rparr>"
proof (cases "uc_delay uc = None")
  case True
  then show ?thesis using assms that by (auto simp: uc_update_delay_def option_bind_eq_Some)
next
  case False
  then have "uc' = uc\<lparr>uc_limiter := uc_limiter uc, uc_clock_reads := uc_clock_reads uc, uc_delay := uc_delay uc\<rparr>"
    using assms unfolding uc_update_delay_def if_not_P [OF False] by simp
  then show ?thesis by (rule that)
qed

text \<open>
  How a flush ends: nothing to do; still waiting for bandwidth or for room; disconnected; or the packet
  was handed to the sender, which is then flushed itself.
\<close>

lemma uc_poll_flush_cases:
  assumes "uc_poll_flush L tm slept cx uc = Some (uc', r)"
  obtains (idle) "uc_out_packet uc = []" "uc' = uc" "r = Ready (Inr ())"
  | (delay) l n d where "uc_out_packet uc \<noteq> []" "uc' = uc\<lparr>uc_limiter := l, uc_clock_reads := n, uc_delay := d\<rparr>"
      "r = Pending"
  | (busy) l n s where "uc_out_packet uc \<noteq> []" "Sender_poll_ready L id id cx (uc_sender uc) = (s, Pending)"
      "uc' = uc\<lparr>uc_limiter := l, uc_clock_reads := n, uc_delay := None, uc_sender := s\<rparr>" "r = Pending"
  | (gone) l n s e where "uc_out_packet uc \<noteq> []" "Sender_poll_ready L id id cx (uc_sender uc) = (s, Ready (Inl e))"
      "uc' = uc\<lparr>uc_limiter := l, uc_clock_reads := n, uc_delay := None, uc_sender := s\<rparr>"
      "r = Ready (Inl Send_disconnected)"
  | (sent) l n s0 s1 s q where "uc_out_packet uc \<noteq> []"
      "Sender_poll_ready L id id cx (uc_sender uc) = (s0, Ready (Inr ()))"
      "Sender_start_send s0 (uc_out_packet uc) = Some s1" "Sender_poll_flush L id id cx s1 = (s, q)"
      "uc' = uc\<lparr>uc_limiter := l, uc_clock_reads := n, uc_delay := None, uc_out_packet := [], uc_sender := s\<rparr>"
      "r = (case q of Pending \<Rightarrow> Pending | Ready (Inl _) \<Rightarrow> Ready (Inl Send_disconnected) | Ready (Inr _) \<Rightarrow> Ready (Inr ()))"
proof (cases "uc_out_packet uc = []")
  case True
  then have "uc' = uc" "r = Ready (Inr ())" using assms by (simp_all add: uc_poll_flush_def)
  with True show ?thesis by (rule idle)
next
  case ne: False
  have "uc_update_delay tm uc \<noteq> None"
  proof
    assume "uc_update_delay tm uc = None"
    then show False using assms ne by (simp add: uc_poll_flush_def)
  qed
  then obtain uc1 where u: "uc_update_delay tm uc = Some uc1" by blast
  then obtain l n d where uc1: "uc1 = uc\<lparr>uc_limiter := l, uc_clock_reads := n, uc_delay := d\<rparr>"
    by (rule uc_update_delay_shape)
  show ?thesis
  proof (cases "d \<noteq> None \<and> \<not> slept")
    case True
    then have "uc' = uc1" "r = Pending" using assms ne u uc1 by (simp_all add: uc_poll_flush_def)
    then show ?thesis using delay [OF ne] uc1 by blast
  next
    case False
    then have c: "\<not> (uc_delay uc1 \<noteq> None \<and> \<not> slept)" using uc1 by simp
    let ?uc = "uc\<lparr>uc_limiter := l, uc_clock_reads := n, uc_delay := None\<rparr>"
    have u1: "uc1\<lparr>uc_delay := None\<rparr> = ?uc" using uc1 by simp
    note step = assms [unfolded uc_poll_flush_def if_not_P [OF ne] u bind.bind_lunit if_not_P [OF c] Let_def u1]
    obtain s0 q0 where p: "Sender_poll_ready L id id cx (uc_sender uc) = (s0, q0)" by force
    consider "q0 = Pending" | e where "q0 = Ready (Inl e)" | "q0 = Ready (Inr ())"
      by (cases q0) (metis (full_types) old.unit.exhaust sumE)+
    then show ?thesis
    proof cases
      case 1
      then have "uc' = ?uc\<lparr>uc_sender := s0\<rparr>" "r = Pending" using step p by simp_all
      then show ?thesis using busy [OF ne p [unfolded 1], where l = l and n = n] by simp
    next
      case 2
      then have "uc' = ?uc\<lparr>uc_sender := s0\<rparr>" "r = Ready (Inl Send_disconnected)" using step p by simp_all
      then show ?thesis using gone [OF ne p [unfolded 2], where l = l and n = n] by simp
    next
      case 3
      let ?l = "take_bytes l (as_u32 (length (uc_out_packet uc)))"
      obtain s1 where s1: "Sender_start_send s0 (uc_out_packet uc) = Some s1"
        using step p 3 by (cases "Sender_start_send s0 (uc_out_packet uc)") auto
      obtain s q where f: "Sender_poll_flush L id id cx s1 = (s, q)" by force
      have "uc' = ?uc\<lparr>uc_limiter := ?l, uc_out_packet := [], uc_sender := s\<rparr>"
        "r = (case q of Pending \<Rightarrow> Pending | Ready (Inl _) \<Rightarrow> Ready (Inl Send_disconnected) | Ready (Inr _) \<Rightarrow> Ready (Inr ()))"
        using step p s1 f 3 by (auto split: poll.splits sum.splits)
      then show ?thesis using sent [OF ne p [unfolded 3] s1 f, where l = ?l and n = n] by simp
    qed
  qed
qed

lemma uc_poll_flush_frame:
  assumes "uc_poll_flush L tm slept cx uc = Some (uc', r)"
  shows "uc_capacity uc' = uc_capacity uc" "uc_in_packet uc' = uc_in_packet uc" "uc_receiver uc' = uc_receiver uc"
    "r = Ready (Inr ()) \<Longrightarrow> uc_out_packet uc' = []"
    "uc_out_packet uc' = [] \<or> uc_out_packet uc' = uc_out_packet uc"
  using assms by (cases rule: uc_poll_flush_cases; simp)+

lemma uc_poll_send_eq:
  fixes uc :: "('q, 'w, 'i) unreliable_channel"
  assumes "length (uc_out_packet uc) \<le> uc_capacity uc" and "uc_capacity uc \<le> usize_max"
  shows "uc_poll_send L tm slept cx m uc =
     (if u16_max < length m then Some (uc, Ready (Inl TooBig))
      else if length (uc_out_packet uc) + length m + 2 \<le> uc_capacity uc
      then if length (uc_out_packet uc) + length m + 2 < uc_capacity uc
        then Some (uc\<lparr>uc_out_packet := uc_out_packet uc @ frame m\<rparr>, Ready (Inr ())) else None
      else do {
        (uc, r) \<leftarrow> uc_poll_flush L tm slept cx uc;
        (if r = Ready (Inr ()) then
           if uc_capacity uc < length m + 2 then Some (uc, Ready (Inl TooBig))
           else if length m + 2 < uc_capacity uc then Some (uc\<lparr>uc_out_packet := frame m\<rparr>, Ready (Inr ()))
           else None
         else Some (uc, r))
      })"
proof -
  have put: "(do { ss \<leftarrow> StartSend_new (uc_out_packet v) (uc_capacity v); ss \<leftarrow> StartSend_fill ss m;
         packet \<leftarrow> StartSend_finish ss (length m); Some (v\<lparr>uc_out_packet := packet\<rparr>, Ready (Inr ()))}) =
      (if length (uc_out_packet v) + length m + 2 < uc_capacity v
       then Some (v\<lparr>uc_out_packet := uc_out_packet v @ frame m\<rparr>, Ready (Inr ())) else None)"
    if "length (uc_out_packet v) + length m + 2 \<le> uc_capacity v" "uc_capacity v \<le> usize_max" "length m \<le> u16_max"
    for v :: "('q, 'w, 'i) unreliable_channel"
    using start_send_frame [OF that] by (auto simp: option_bind_eq_Some split: bind_splits if_splits)
  consider "u16_max < length m" | (room) "length m \<le> u16_max" "length (uc_out_packet uc) + length m + 2 \<le> uc_capacity uc"
    | (flush) "length m \<le> u16_max" "\<not> length (uc_out_packet uc) + length m + 2 \<le> uc_capacity uc" by linarith
  then show ?thesis
  proof cases
    case room
    then have "\<not> uc_capacity uc - length (uc_out_packet uc) < length m + 2" by simp
    then have "uc_poll_send_ready L tm slept cx (length m) uc = Some (uc, Ready (Inr ()))"
      using assms room by (simp add: uc_poll_send_ready_def checked_simps)
    with room put [OF room(2) assms(2) room(1)] show ?thesis by (simp add: uc_poll_send_def)
  next
    case flush
    then have full: "uc_capacity uc - length (uc_out_packet uc) < length m + 2" by simp
    show ?thesis
    proof (cases "uc_poll_flush L tm slept cx uc")
      case None
      then show ?thesis using flush full assms by (simp add: uc_poll_send_def uc_poll_send_ready_def checked_simps)
    next
      case (Some x)
      obtain v r where x: "x = (v, r)" by force
      note f = uc_poll_flush_frame [OF Some [unfolded x]]
      have "uc_capacity v \<le> usize_max" using f(1) assms(2) by simp
      with put [of v] flush full assms Some x f(1,4) show ?thesis
        by (auto simp: uc_poll_send_def uc_poll_send_ready_def checked_simps split: poll.splits sum.splits)
    qed
  qed (simp add: uc_poll_send_def uc_poll_send_ready_def)
qed

subsection \<open>Runs of the sending side\<close>

text \<open>
  The application sends and flushes, and the other end of the outgoing channel takes packets. A run
  keeps the messages whose send returned success, and the packets that were taken.
\<close>

datatype uc_event = Uc_send bool "byte list" | Uc_flush bool | Uc_take

type_synonym ('q, 'w, 'i) uc_run_state = "('q, 'w, 'i) unreliable_channel \<times> byte list list \<times> byte list list"

fun uc_send_step ::
  "('q, 'w, 'k) packet_lib \<Rightarrow> 'i timer \<Rightarrow> 'k \<Rightarrow> ('q, 'w, 'i) uc_run_state \<Rightarrow> uc_event \<Rightarrow>
   ('q, 'w, 'i) uc_run_state option" where
  "uc_send_step L tm cx (uc, acc, wire) (Uc_send slept m) = do {
     (uc, r) \<leftarrow> uc_poll_send L tm slept cx m uc;
     Some (uc, if r = Ready (Inr ()) then acc @ [m] else acc, wire)
   }"
| "uc_send_step L tm cx (uc, acc, wire) (Uc_flush slept) = do {
     (uc, r) \<leftarrow> uc_poll_flush L tm slept cx uc;
     Some (uc, acc, wire)
   }"
| "uc_send_step L tm cx (uc, acc, wire) Uc_take =
     (case receiver_step L (uc_sender uc) Recv_try of
        (s, new) \<Rightarrow> Some (uc\<lparr>uc_sender := s\<rparr>, acc, wire @ new))"

fun uc_send_run ::
  "('q, 'w, 'k) packet_lib \<Rightarrow> 'i timer \<Rightarrow> 'k \<Rightarrow> ('q, 'w, 'i) uc_run_state \<Rightarrow> uc_event list \<Rightarrow>
   ('q, 'w, 'i) uc_run_state option" where
  "uc_send_run L tm cx s [] = Some s"
| "uc_send_run L tm cx s (e # es) = do { s \<leftarrow> uc_send_step L tm cx s e; uc_send_run L tm cx s es }"

text \<open>
  The packets so far, taken and not yet taken, hold a list of messages each, and the packet that is
  being filled holds the last ones.
\<close>

definition packed :: "('q \<Rightarrow> byte list list) \<Rightarrow> ('q \<Rightarrow> bool) \<Rightarrow> nat \<Rightarrow> ('q, 'w, 'i) uc_run_state \<Rightarrow> bool" where
  "packed items rx_gone cap s \<longleftrightarrow> (case s of (uc, acc, wire) \<Rightarrow>
     \<not> rx_gone (sp_channel (uc_sender uc)) \<and> uc_capacity uc = cap \<and> cap \<le> usize_max \<and>
     (\<forall>m\<in>set acc. length m \<le> u16_max) \<and>
     (\<exists>groups g. wire @ spsc_contents items (uc_sender uc) = map frames groups \<and> uc_out_packet uc = frames g \<and>
        concat groups @ g = acc \<and> (\<forall>h\<in>set groups. h \<noteq> [] \<and> length (frames h) \<le> cap) \<and> length (frames g) \<le> cap))"

lemma packedI:
  assumes "\<not> rx_gone (sp_channel (uc_sender uc))" "uc_capacity uc = cap" "cap \<le> usize_max"
    "\<forall>m\<in>set acc. length m \<le> u16_max"
    "wire @ spsc_contents items (uc_sender uc) = map frames groups" "uc_out_packet uc = frames g"
    "concat groups @ g = acc" "\<forall>h\<in>set groups. h \<noteq> [] \<and> length (frames h) \<le> cap" "length (frames g) \<le> cap"
  shows "packed items rx_gone cap (uc, acc, wire)"
  using assms unfolding packed_def by blast

text \<open>A flush moves the packet that is being filled into the channel, or leaves it where it is.\<close>

lemma uc_flush_contents:
  assumes laws: "spsc_laws L items room tx_gone rx_gone waiting woken"
    and f: "uc_poll_flush L tm slept cx uc = Some (uc', r)" and live: "\<not> rx_gone (sp_channel (uc_sender uc))"
  shows "\<not> rx_gone (sp_channel (uc_sender uc')) \<and>
     (uc_out_packet uc' = uc_out_packet uc \<and> spsc_contents items (uc_sender uc') = spsc_contents items (uc_sender uc) \<or>
      uc_out_packet uc \<noteq> [] \<and> uc_out_packet uc' = [] \<and>
      spsc_contents items (uc_sender uc') = spsc_contents items (uc_sender uc) @ [uc_out_packet uc])"
  using f
proof (cases rule: uc_poll_flush_cases)
  case (busy l n s)
  then show ?thesis using spsc_laws.poll_ready_contents [OF laws busy(2) live] by simp
next
  case (gone l n s e)
  then show ?thesis using spsc_laws.poll_ready_contents [OF laws gone(2) live] by simp
next
  case (sent l n s0 s1 s q)
  note a = spsc_laws.poll_ready_contents [OF laws sent(2) live]
  have s0: "sp_slot s0 = None" using a(3) by simp
  have c: "s1 = s0\<lparr>sp_slot := Some (uc_out_packet uc)\<rparr>" using sent(3) s0 by (simp add: Sender_start_send_def)
  then have "\<not> rx_gone (sp_channel s1)" "spsc_contents items s1 = spsc_contents items s0 @ [uc_out_packet uc]"
    using a(2) s0 by (simp_all add: spsc_contents_def)
  with spsc_laws.poll_ready_contents [OF laws sent(4) [unfolded Sender_poll_flush_def]] a(1) sent(1,5)
  show ?thesis by simp
qed (use live in simp_all)

lemma uc_flush_packed:
  assumes laws: "spsc_laws L items room tx_gone rx_gone waiting woken"
    and "packed items rx_gone cap (uc, acc, wire)" and f: "uc_poll_flush L tm slept cx uc = Some (uc', r)"
  shows "packed items rx_gone cap (uc', acc, wire)"
proof -
  from assms(2) obtain groups g where p: "\<not> rx_gone (sp_channel (uc_sender uc))" "uc_capacity uc = cap" "cap \<le> usize_max"
    "\<forall>m\<in>set acc. length m \<le> u16_max" "wire @ spsc_contents items (uc_sender uc) = map frames groups"
    "uc_out_packet uc = frames g" "concat groups @ g = acc"
    "\<forall>h\<in>set groups. h \<noteq> [] \<and> length (frames h) \<le> cap" "length (frames g) \<le> cap" by (auto simp: packed_def)
  have cap: "uc_capacity uc' = cap" using uc_poll_flush_frame(1) [OF f] p(2) by simp
  from uc_flush_contents [OF laws f p(1)] show ?thesis
  proof (elim conjE disjE)
    assume "\<not> rx_gone (sp_channel (uc_sender uc'))" "uc_out_packet uc' = uc_out_packet uc"
      "spsc_contents items (uc_sender uc') = spsc_contents items (uc_sender uc)"
    then show ?thesis using p cap by (intro packedI [where groups = groups and g = g]) auto
  next
    assume "\<not> rx_gone (sp_channel (uc_sender uc'))" "uc_out_packet uc \<noteq> []" "uc_out_packet uc' = []"
      "spsc_contents items (uc_sender uc') = spsc_contents items (uc_sender uc) @ [uc_out_packet uc]"
    then show ?thesis using p cap by (intro packedI [where groups = "groups @ [g]" and g = "[]"]) auto
  qed
qed

lemma uc_append_packed:
  assumes "packed items rx_gone cap (uc, acc, wire)" and "length m \<le> u16_max"
    and "length (uc_out_packet uc) + length m + 2 \<le> cap"
  shows "packed items rx_gone cap (uc\<lparr>uc_out_packet := uc_out_packet uc @ frame m\<rparr>, acc @ [m], wire)"
proof -
  from assms(1) obtain groups g where "\<not> rx_gone (sp_channel (uc_sender uc))" "uc_capacity uc = cap" "cap \<le> usize_max"
    "\<forall>m\<in>set acc. length m \<le> u16_max" "wire @ spsc_contents items (uc_sender uc) = map frames groups"
    "uc_out_packet uc = frames g" "concat groups @ g = acc"
    "\<forall>h\<in>set groups. h \<noteq> [] \<and> length (frames h) \<le> cap" by (auto simp: packed_def)
  then show ?thesis using assms(2,3) by (intro packedI [where groups = groups and g = "g @ [m]"]) auto
qed

lemma uc_send_packed:
  assumes laws: "spsc_laws L items room tx_gone rx_gone waiting woken"
    and p: "packed items rx_gone cap (uc, acc, wire)" and f: "uc_poll_send L tm slept cx m uc = Some (uc', r)"
  shows "packed items rx_gone cap (uc', if r = Ready (Inr ()) then acc @ [m] else acc, wire)"
proof -
  have c: "uc_capacity uc = cap" "cap \<le> usize_max" "length (uc_out_packet uc) \<le> uc_capacity uc"
    using p by (auto simp: packed_def)
  then have "uc_capacity uc \<le> usize_max" by simp
  note f = f [unfolded uc_poll_send_eq [OF c(3) this]]
  show ?thesis
  proof (cases "u16_max < length m \<or> length (uc_out_packet uc) + length m + 2 \<le> uc_capacity uc")
    case True
    then show ?thesis using f p c uc_append_packed [OF p, of m] by (auto split: if_splits)
  next
    case False
    then obtain v q where v: "uc_poll_flush L tm slept cx uc = Some (v, q)"
      "(if q = Ready (Inr ()) then if uc_capacity v < length m + 2 then Some (v, Ready (Inl TooBig))
           else if length m + 2 < uc_capacity v then Some (v\<lparr>uc_out_packet := frame m\<rparr>, Ready (Inr ())) else None
        else Some (v, q)) = Some (uc', r)"
      using f by (auto simp: option_bind_eq_Some)
    note pv = uc_flush_packed [OF laws p v(1)] and fr = uc_poll_flush_frame [OF v(1)]
    show ?thesis
      using v(2) pv fr(1,4) c False uc_append_packed [OF pv, of m] by (auto split: if_splits)
  qed
qed

lemma uc_run_packed:
  assumes laws: "spsc_laws L items room tx_gone rx_gone waiting woken"
  shows "uc_send_run L tm cx s es = Some s' \<Longrightarrow> packed items rx_gone cap s \<Longrightarrow> packed items rx_gone cap s'"
proof (induction es arbitrary: s)
  case (Cons e es)
  obtain uc acc wire where s: "s = (uc, acc, wire)" by (metis prod_cases3)
  from Cons.prems(1) obtain s1 where s1: "uc_send_step L tm cx s e = Some s1" "uc_send_run L tm cx s1 es = Some s'"
    by (auto simp: option_bind_eq_Some)
  have "packed items rx_gone cap s1"
  proof (cases e)
    case (Uc_send slept m)
    then show ?thesis using s1(1) Cons.prems(2) s uc_send_packed [OF laws, of cap uc acc wire tm slept cx m]
      by (auto simp: option_bind_eq_Some)
  next
    case (Uc_flush slept)
    then show ?thesis using s1(1) Cons.prems(2) s uc_flush_packed [OF laws, of cap uc acc wire tm slept cx]
      by (auto simp: option_bind_eq_Some)
  next
    case Uc_take
    obtain v new where v: "receiver_step L (uc_sender uc) Recv_try = (v, new)" by force
    with spsc_laws.receiver_step_contents [OF laws v] Uc_take s1(1) Cons.prems(2) s show ?thesis
      by (auto simp: packed_def)
  qed
  with Cons.IH [OF s1(2)] show ?case by blast
qed simp

subsection \<open>Reading packets\<close>

lemma uc_recv_next_frame:
  assumes "uc_in_packet uc = Some (p, pos)" and "drop pos p = frame m @ rest" and "length p \<le> usize_max"
    and "length m \<le> u16_max"
  shows "uc_recv_next uc = Some (uc\<lparr>uc_in_packet := Some (p, pos + 2 + length m)\<rparr>, Inr m)"
    and "drop (pos + 2 + length m) p = rest" and "pos + 2 + length m \<le> length p"
proof -
  have len: "length p - pos = 2 + length m + length rest" using arg_cong [OF assms(2), of length] by simp
  then have b: "pos + 2 + length m \<le> length p" "pos + 2 \<le> length p" "pos \<noteq> length p" by simp_all
  have head: "take 2 (drop pos p) = write_u16 (length m)" using assms(2) by (simp add: frame_def)
  have "drop 2 (drop pos p) = m @ rest" using assms(2) by (simp add: frame_def)
  then have body: "drop (pos + 2) p = m @ rest" by (simp add: add.commute)
  have "drop (length m) (drop (pos + 2) p) = rest" using body by simp
  then show "drop (pos + 2 + length m) p = rest" by (simp add: add.commute add.left_commute)
  show "pos + 2 + length m \<le> length p" by (rule b(1))
  show "uc_recv_next uc = Some (uc\<lparr>uc_in_packet := Some (p, pos + 2 + length m)\<rparr>, Inr m)"
    unfolding uc_recv_next_def
    using assms(1,3,4) b head body by (simp add: checked_simps Let_def del: add_2_eq_Suc')
qed

text \<open>The messages that are still to be read, from the current packet and from those in the channel.\<close>

definition inbox :: "('q \<Rightarrow> byte list list) \<Rightarrow> ('q, 'w, 'i) unreliable_channel \<Rightarrow> byte list list \<Rightarrow> bool" where
  "inbox items uc ms \<longleftrightarrow> (\<exists>g groups. ms = g @ concat groups \<and> items (sp_channel (uc_receiver uc)) = map frames groups \<and>
     (\<forall>h\<in>set groups. h \<noteq> [] \<and> length (frames h) \<le> usize_max) \<and> (\<forall>m\<in>set ms. length m \<le> u16_max) \<and>
     (case uc_in_packet uc of
        None \<Rightarrow> g = []
      | Some (p, pos) \<Rightarrow> drop pos p = frames g \<and> pos \<le> length p \<and> length p \<le> usize_max))"

fun uc_recv_many ::
  "('q, 'w, 'k) packet_lib \<Rightarrow> 'k \<Rightarrow> ('q, 'w, 'i) unreliable_channel \<Rightarrow> nat \<Rightarrow>
   (('q, 'w, 'i) unreliable_channel \<times> (uc_recv_error + byte list) poll list) option" where
  "uc_recv_many L cx uc 0 = Some (uc, [])"
| "uc_recv_many L cx uc (Suc n) = do {
     (uc, r) \<leftarrow> uc_poll_recv L cx uc;
     (uc, rs) \<leftarrow> uc_recv_many L cx uc n;
     Some (uc, r # rs)
   }"

lemma uc_recv_current:
  assumes "uc_in_packet uc = Some (p, pos)" "drop pos p = frames (m # g)" "length p \<le> usize_max"
    "items (sp_channel (uc_receiver uc)) = map frames groups"
    "\<forall>h\<in>set groups. h \<noteq> [] \<and> length (frames h) \<le> usize_max"
    "\<forall>m\<in>set (m # g @ concat groups). length m \<le> u16_max"
  shows "\<exists>uc'. uc_recv_next uc = Some (uc', Inr m) \<and> inbox items uc' (g @ concat groups)"
proof -
  have "drop pos p = frame m @ frames g" using assms(2) by simp
  from uc_recv_next_frame [OF assms(1) this assms(3)] assms(4-6) show ?thesis
    using assms(3) by (auto simp: inbox_def intro!: exI [of _ g] exI [of _ groups])
qed

lemma uc_poll_recv_inbox:
  assumes laws: "spsc_laws L items room tx_gone rx_gone waiting woken" and i: "inbox items uc (m # ms)"
  shows "\<exists>uc'. uc_poll_recv L cx uc = Some (uc', Ready (Inr m)) \<and> inbox items uc' ms"
proof -
  from i obtain g groups where b: "m # ms = g @ concat groups"
    "items (sp_channel (uc_receiver uc)) = map frames groups"
    "\<forall>h\<in>set groups. h \<noteq> [] \<and> length (frames h) \<le> usize_max" "\<forall>m\<in>set (m # ms). length m \<le> u16_max"
    "case uc_in_packet uc of None \<Rightarrow> g = []
      | Some (p, pos) \<Rightarrow> drop pos p = frames g \<and> pos \<le> length p \<and> length p \<le> usize_max"
    unfolding inbox_def by blast
  show ?thesis
  proof (cases g)
    case (Cons m' g')
    then obtain p pos where p: "uc_in_packet uc = Some (p, pos)" "drop pos p = frames (m # g')" "length p \<le> usize_max"
      using b(1,5) by (auto split: option.splits)
    have "pos \<noteq> length p" using arg_cong [OF p(2), of length] by auto
    then have "uc_poll_recv_ready L cx uc = (uc, Ready (Inr ()))" using p(1) by (simp add: uc_poll_recv_ready_def)
    moreover have "ms = g' @ concat groups" using b(1) Cons by simp
    ultimately show ?thesis using uc_recv_current [where items = items, OF p b(2,3)] b(4) by (auto simp: uc_poll_recv_def)
  next
    case Nil
    then obtain h hs where h: "groups = h # hs" using b(1) by (cases groups) auto
    then obtain g' where g': "h = m # g'" "ms = g' @ concat hs" using b(1,3) Nil by (cases h) auto
    define v where "v = uc\<lparr>uc_in_packet := None\<rparr>"
    have st: "(case uc_in_packet uc of Some (packet, in_pos) \<Rightarrow> if in_pos = length packet then v else uc | None \<Rightarrow> uc) = v"
      using b(5) Nil by (cases uc) (auto simp: v_def split: option.splits)
    obtain r where r: "Receiver_poll_next L id id cx (uc_receiver uc) = (r, Ready (Some (frames h)))"
      "items (sp_channel r) = map frames hs"
      using spsc_laws.poll_next_quiet [OF laws, of cx "uc_receiver uc"] b(2) h
      by (cases rule: spsc_laws.try_recv_cases [OF laws, of "uc_receiver uc"]) auto
    define w where "w = v\<lparr>uc_receiver := r, uc_in_packet := Some (frames h, 0)\<rparr>"
    have "uc_poll_recv_ready L cx uc = (w, Ready (Inr ()))"
      unfolding uc_poll_recv_ready_def st [unfolded v_def] using r(1) by (simp add: w_def v_def)
    moreover have "\<exists>uc'. uc_recv_next w = Some (uc', Inr m) \<and> inbox items uc' (g' @ concat hs)"
      using uc_recv_current [of w "frames h" 0 m g' items hs] b(3,4) h g' r(2) by (simp add: w_def)
    ultimately show ?thesis using g'(2) by (auto simp: uc_poll_recv_def)
  qed
qed

lemma uc_recv_many_inbox:
  assumes laws: "spsc_laws L items room tx_gone rx_gone waiting woken"
  shows "inbox items uc ms \<Longrightarrow>
     \<exists>uc'. uc_recv_many L cx uc (length ms) = Some (uc', map (\<lambda>m. Ready (Inr m)) ms) \<and> inbox items uc' []"
proof (induction ms arbitrary: uc)
  case (Cons m ms)
  from uc_poll_recv_inbox [OF laws Cons.prems] obtain v where
    "uc_poll_recv L cx uc = Some (v, Ready (Inr m))" "inbox items v ms" by blast
  with Cons.IH [of v] show ?case by auto
qed simp

text \<open>On any packet with at least a byte left, reading makes progress and does not panic.\<close>

lemma uc_recv_next_progress:
  assumes "uc_in_packet uc = Some (p, pos)" and "pos < length p" and "length p \<le> isize_max"
  shows "\<exists>pos' r. uc_recv_next uc = Some (uc\<lparr>uc_in_packet := Some (p, pos')\<rparr>, r) \<and> pos < pos' \<and> pos' \<le> length p \<and>
     (case r of Inl e \<Rightarrow> e = BadFormat \<and> pos' = length p
      | Inr m \<Rightarrow> take (pos' - pos) (drop pos p) = take 2 (drop pos p) @ m \<and> length m = read_u16 (take 2 (drop pos p)))"
proof (cases "pos + 2 \<le> length p")
  case False
  then show ?thesis using assms
    by (intro exI [of _ "length p"] exI [of _ "Inl BadFormat"])
      (simp add: uc_recv_next_def checked_simps isize_max_def usize_max_def)
next
  case True
  let ?n = "read_u16 (take 2 (drop pos p))"
  have n: "?n \<le> u16_max" using True by (intro read_u16_bound) simp
  have a: "usize_add pos 2 = Some (pos + 2)" "usize_add (pos + 2) ?n = Some (pos + 2 + ?n)"
    "slice p pos (pos + 2) = Some (take 2 (drop pos p))" "pos \<noteq> length p"
    using assms n True by (simp_all add: checked_simps isize_max_def usize_max_def u16_max_def)
  show ?thesis
  proof (cases "pos + 2 + ?n \<le> length p")
    case ok: True
    let ?m = "take ?n (drop (pos + 2) p)"
    have "uc_recv_next uc = Some (uc\<lparr>uc_in_packet := Some (p, pos + 2 + ?n)\<rparr>, Inr ?m)"
      unfolding uc_recv_next_def using assms(1) True ok a by (simp add: checked_simps Let_def)
    moreover have "take (2 + ?n) (drop pos p) = take 2 (drop pos p) @ ?m"
      by (subst take_add) (simp add: add.commute)
    ultimately show ?thesis using ok
      by (intro exI [of _ "pos + 2 + ?n"] exI [of _ "Inr ?m"]) (simp add: add.commute)
  next
    case False
    then show ?thesis using assms True a
      by (intro exI [of _ "length p"] exI [of _ "Inl BadFormat"]) (simp add: uc_recv_next_def Let_def)
  qed
qed

lemma choose_preimages: "set xs \<subseteq> f ` A \<Longrightarrow> \<exists>ys. xs = map f ys \<and> set ys \<subseteq> A"
proof (induction xs)
  case (Cons x xs)
  then obtain ys a where "xs = map f ys" "set ys \<subseteq> A" "x = f a" "a \<in> A" by auto
  then show ?case by (intro exI [of _ "a # ys"]) simp
qed simp

end
