(* ===== verification/Unreliable_Properties.thy ===== *)
theory Unreliable_Properties
  imports Unreliable_Channel
begin

text \<open>
  The properties of the unreliable channel, over any implementation of the packages under \<open>spsc\<close> that
  satisfies their documentation.
\<close>

subsection \<open>Properties\<close>

text \<open>
  C36: a poll of \<open>send\<close>, on every branch. A message that does not fit a length of 16 bits, or the capacity
  of a packet, is refused. One that leaves at least a byte of the packet free is appended with its
  header. One that fills a packet to its last byte panics, although it is within the documented
  maximum: \<open>StartSend::finish\<close> compares with \<open><\<close>. Otherwise the packet is flushed first, and if the flush
  does not complete the message is not taken.
\<close>

theorem uc_poll_send_behaviour:
  assumes "length (uc_out_packet uc) \<le> uc_capacity uc" and "uc_capacity uc \<le> usize_max"
    and "n = length (uc_out_packet uc) + length m + 2"
  shows "uc_poll_send L tm slept cx m uc =
     (if u16_max < length m then Some (uc, Ready (Inl TooBig))
      else if n < uc_capacity uc
      then Some (uc\<lparr>uc_out_packet := uc_out_packet uc @ write_u16 (length m) @ m\<rparr>, Ready (Inr ()))
      else if n = uc_capacity uc then None
      else do {
        (uc, r) \<leftarrow> uc_poll_flush L tm slept cx uc;
        (if r = Ready (Inr ()) then
           if uc_capacity uc < length m + 2 then Some (uc, Ready (Inl TooBig))
           else if length m + 2 = uc_capacity uc then None
           else Some (uc\<lparr>uc_out_packet := write_u16 (length m) @ m\<rparr>, Ready (Inr ()))
         else Some (uc, r))
      })"
  unfolding uc_poll_send_eq [OF assms(1,2)] assms(3) by (auto simp: frame_def intro!: Option.bind_cong)

theorem uc_poll_send_behaviour_witness:
  "uc_poll_send fifo_lib \<lparr>clock = id, duration_between = \<lambda>a b. Some (b - a)\<rparr> True () [7]
     (UnreliableChannel_new \<lparr>clock = id, duration_between = \<lambda>a b. Some (b - a)\<rparr> 3
       \<lparr>uc_bandwidth = 10, uc_burst_bandwidth = 10\<rparr> (spsc_channel fifo_lib 1) (spsc_channel fifo_lib 1)) = None"
  by (subst uc_poll_send_behaviour [OF _ _ refl]) (simp_all add: UnreliableChannel_new_def usize_max_def u16_max_def)

text \<open>
  C35: messages arrive whole. Take any run of sends and flushes, with the other end taking packets in
  between; the packets hold, in order, exactly the messages whose send succeeded, and none is longer
  than the capacity. Deliver any of them to a channel, dropped, repeated or reordered at will: its
  polls return exactly the messages of the delivered packets, in order.
\<close>

theorem unreliable_messages_arrive:
  assumes laws: "spsc_laws L items room tx_gone rx_gone waiting woken" and cap: "cap \<le> usize_max"
    and run: "uc_send_run L tm cx (UnreliableChannel_new tm cap st (spsc_channel L n) rx, [], []) es =
       Some (uc, acc, wire)"
    and recv: "uc_in_packet peer = None" "items (sp_channel (uc_receiver peer)) = packets" "set packets \<subseteq> set wire"
  shows "\<exists>groups g ms peer'. wire @ items (sp_channel (uc_sender uc)) @
         (case sp_slot (uc_sender uc) of None \<Rightarrow> [] | Some t \<Rightarrow> [t]) = map frames groups \<and>
     uc_out_packet uc = frames g \<and> acc = concat groups @ g \<and> (\<forall>p\<in>set wire. p \<noteq> [] \<and> length p \<le> cap) \<and>
     packets = map frames ms \<and> set ms \<subseteq> set groups \<and>
     uc_recv_many L cx' peer (length (concat ms)) = Some (peer', map (\<lambda>m. Ready (Inr m)) (concat ms))"
proof -
  have "packed items rx_gone cap (UnreliableChannel_new tm cap st (spsc_channel L n) rx, [], [])"
    using spsc_laws.bounded [OF laws] cap
    by (intro packedI [where groups = "[]" and g = "[]"])
      (simp_all add: UnreliableChannel_new_def spsc_channel_def spsc_contents_def)
  from uc_run_packed [OF laws run this] obtain groups g where p: "\<forall>m\<in>set acc. length m \<le> u16_max"
    "wire @ spsc_contents items (uc_sender uc) = map frames groups" "uc_out_packet uc = frames g"
    "concat groups @ g = acc" "\<forall>h\<in>set groups. h \<noteq> [] \<and> length (frames h) \<le> cap" by (auto simp: packed_def)
  have w: "set wire \<subseteq> frames ` set groups" using arg_cong [OF p(2), of set] by auto
  then obtain ms where ms: "packets = map frames ms" "set ms \<subseteq> set groups"
    using choose_preimages recv(3) by (metis subset_trans)
  have "\<forall>m\<in>set (concat ms). length m \<le> u16_max" using ms(2) p(1,4) by fastforce
  moreover have "\<forall>h\<in>set ms. h \<noteq> [] \<and> length (frames h) \<le> usize_max" using ms(2) p(5) cap by fastforce
  ultimately have "inbox items peer (concat ms)"
    using recv(1,2) ms(1) unfolding inbox_def by (intro exI [of _ "[]"] exI [of _ ms]) simp
  from uc_recv_many_inbox [OF laws this, of cx'] obtain peer' where
    "uc_recv_many L cx' peer (length (concat ms)) = Some (peer', map (\<lambda>m. Ready (Inr m)) (concat ms))" by blast
  moreover have "\<forall>p\<in>frames ` set groups. p \<noteq> [] \<and> length p \<le> cap" using p(5) by auto
  then have "\<forall>p\<in>set wire. p \<noteq> [] \<and> length p \<le> cap" using w by blast
  ultimately show ?thesis using p(2-4) ms unfolding spsc_contents_def by blast
qed

text \<open>Two channels joined by the documented queue, for the witnesses.\<close>

definition step_timer :: "nat timer" where
  "step_timer = \<lparr>clock = id, duration_between = (\<lambda>a b. Some (b - a))\<rparr>"

definition small_uc :: "nat \<Rightarrow> (byte list fifo, unit option \<times> unit list, nat) unreliable_channel" where
  "small_uc cap = UnreliableChannel_new step_timer cap \<lparr>uc_bandwidth = 1000, uc_burst_bandwidth = 1000\<rparr>
     (spsc_channel fifo_lib 2) (spsc_channel fifo_lib 2)"

lemma small_flush:
  assumes "uc_delay uc = None" and "uc_limiter uc = \<lparr>bandwidth = 1000, burst_bandwidth = 1000, bytes_credit = 1000, last_calculation = 0\<rparr>"
  shows "\<exists>l. uc_update_delay step_timer uc = Some (uc\<lparr>uc_limiter := l, uc_clock_reads := Suc (uc_clock_reads uc)\<rparr>)"
proof -
  have ok: "limiter_ok 0 (uc_limiter uc)" using f64_round_u32 [of 1000] by (simp add: assms(2) limiter_ok_def u32_max_def)
  obtain l where l: "update_available (duration_between step_timer) (uc_limiter uc) (clock step_timer (uc_clock_reads uc)) = Some l"
    by (simp add: update_available_def step_timer_def)
  note c = update_available_credit [OF ok l]
  have "0 \<le> bytes_credit l" using c(2) by (simp add: assms(2))
  then have "delay_until_available l = Some None" by (simp add: delay_until_available_def)
  then have "uc_update_delay step_timer uc = Some (uc\<lparr>uc_limiter := l, uc_clock_reads := Suc (uc_clock_reads uc), uc_delay := None\<rparr>)"
    using l assms(1) by (simp add: uc_update_delay_def)
  then show ?thesis using assms(1) by (cases uc) auto
qed

lemma small_run:
  "\<exists>uc. uc_send_run fifo_lib step_timer () (small_uc 10, [], []) [Uc_send True [1, 2], Uc_send True [3], Uc_flush True, Uc_take] =
     Some (uc, [[1, 2], [3]], [frames [[1, 2], [3]]])"
proof -
  let ?u = "(small_uc 10)\<lparr>uc_out_packet := frames [[1, 2], [3]]\<rparr>"
  have s1: "uc_poll_send fifo_lib step_timer True () [1, 2] (small_uc 10) =
      Some ((small_uc 10)\<lparr>uc_out_packet := frames [[1, 2]]\<rparr>, Ready (Inr ()))"
    by (subst uc_poll_send_eq) (simp_all add: small_uc_def UnreliableChannel_new_def usize_max_def u16_max_def)
  have s2: "uc_poll_send fifo_lib step_timer True () [3] ((small_uc 10)\<lparr>uc_out_packet := frames [[1, 2]]\<rparr>) =
      Some (?u, Ready (Inr ()))"
    by (subst uc_poll_send_eq) (simp_all add: small_uc_def UnreliableChannel_new_def usize_max_def u16_max_def)
  obtain l where l: "uc_update_delay step_timer ?u = Some (?u\<lparr>uc_limiter := l, uc_clock_reads := Suc (uc_clock_reads ?u)\<rparr>)"
    using small_flush [of ?u] by (auto simp: small_uc_def UnreliableChannel_new_def BandwidthLimiter_new_def step_timer_def)
  have "frames [[1, 2], [3]] \<noteq> []" by (simp only: frames_empty) simp
  then obtain uc where f: "uc_poll_flush fifo_lib step_timer True () ?u = Some (uc, Ready (Inr ()))"
    "fq_items (sp_channel (uc_sender uc)) = [frames [[1, 2], [3]]]"
    using l by (simp add: uc_poll_flush_def small_uc_def UnreliableChannel_new_def spsc_channel_def fifo_lib_def
        Sender_poll_ready_def Sender_start_send_def Sender_poll_flush_def Sender_try_send_def Sender_push_def
        Let_def del: frames_simps)
  then obtain v where "receiver_step fifo_lib (uc_sender uc) Recv_try = (v, [frames [[1, 2], [3]]])"
    by (cases rule: fifo.try_recv_cases [of "uc_sender uc"]) (auto simp del: frames_simps)
  with s1 s2 f(1) show ?thesis by (simp del: frames_simps receiver_step.simps)
qed

theorem unreliable_messages_arrive_witness:
  "\<exists>uc peer'. uc_send_run fifo_lib step_timer () (small_uc 10, [], [])
       [Uc_send True [1, 2], Uc_send True [3], Uc_flush True, Uc_take] = Some (uc, [[1, 2], [3]], [frames [[1, 2], [3]]]) \<and>
     (\<exists>ms. [frames [[1, 2], [3]], frames [[1, 2], [3]]] = map frames ms \<and>
        uc_recv_many fifo_lib () ((small_uc 10)\<lparr>uc_receiver := (spsc_channel fifo_lib 2)\<lparr>sp_channel :=
            \<lparr>fq_items = [frames [[1, 2], [3]], frames [[1, 2], [3]]], fq_room = 2, fq_tx_gone = False, fq_rx_gone = False\<rparr>\<rparr>\<rparr>)
          (length (concat ms)) = Some (peer', map (\<lambda>m. Ready (Inr m)) (concat ms)))"
proof -
  let ?ps = "[frames [[1, 2], [3]], frames [[1, 2], [3]]]"
  let ?peer = "(small_uc 10)\<lparr>uc_receiver := (spsc_channel fifo_lib 2)\<lparr>sp_channel :=
            \<lparr>fq_items = ?ps, fq_room = 2, fq_tx_gone = False, fq_rx_gone = False\<rparr>\<rparr>\<rparr>"
  obtain uc where r: "uc_send_run fifo_lib step_timer () (small_uc 10, [], [])
      [Uc_send True [1, 2], Uc_send True [3], Uc_flush True, Uc_take] = Some (uc, [[1, 2], [3]], [frames [[1, 2], [3]]])"
    using small_run by blast
  have cap: "10 \<le> usize_max" by (simp add: usize_max_def)
  have peer: "uc_in_packet ?peer = None" "fq_items (sp_channel (uc_receiver ?peer)) = ?ps"
    "set ?ps \<subseteq> set [frames [[1, 2], [3]]]"
    by (simp_all add: small_uc_def UnreliableChannel_new_def del: frames_simps)
  obtain ms peer' where "?ps = map frames ms" "uc_recv_many fifo_lib () ?peer (length (concat ms)) =
      Some (peer', map (\<lambda>m. Ready (Inr m)) (concat ms))"
    using unreliable_messages_arrive [OF fifo.spsc_laws_axioms cap r [unfolded small_uc_def] peer, of "()"]
    by (elim exE conjE) (rule that)
  with r show ?thesis by (intro exI conjI)
qed

text \<open>
  C37: packets from the network cannot bring the receiver down. On any packet with a byte left to read,
  \<open>recv_next\<close> returns a message that is in the packet under its header, or drops the rest of the packet
  as badly formatted; it always moves forward. A packet without any byte makes it panic.
\<close>

theorem uc_recv_any_packet:
  assumes "uc_in_packet uc = Some (p, pos)" and "pos \<le> length p" and "length p \<le> isize_max"
  shows "if pos < length p
     then \<exists>pos' r. uc_recv_next uc = Some (uc\<lparr>uc_in_packet := Some (p, pos')\<rparr>, r) \<and> pos < pos' \<and> pos' \<le> length p \<and>
       (case r of Inl e \<Rightarrow> e = BadFormat \<and> pos' = length p
        | Inr m \<Rightarrow> take (pos' - pos) (drop pos p) = take 2 (drop pos p) @ m \<and> length m = read_u16 (take 2 (drop pos p)))
     else uc_recv_next uc = None"
  using uc_recv_next_progress [OF assms(1) _ assms(3)] assms(1,2) by (simp add: uc_recv_next_def)

theorem uc_recv_any_packet_witness:
  "\<exists>pos' r. uc_recv_next ((small_uc 10)\<lparr>uc_in_packet := Some ([9, 0, 1], 0)\<rparr>) =
     Some ((small_uc 10)\<lparr>uc_in_packet := Some ([9, 0, 1], pos')\<rparr>, r) \<and> 0 < pos' \<and> pos' \<le> 3"
  using uc_recv_any_packet [of "(small_uc 10)\<lparr>uc_in_packet := Some ([9, 0, 1], 0)\<rparr>" "[9, 0, 1]" 0]
  by (auto simp: isize_max_def)

text \<open>
  C38: a flush can return before the packet is out. When the packet was handed to the sender while the
  queue was full, the first poll answers \<open>Pending\<close>; the next one finds an empty packet and answers that
  the flush is complete, with the packet still in the slot of the sender.
\<close>

theorem uc_flush_returns_early:
  assumes "spsc_laws L items room tx_gone rx_gone waiting woken"
    and "uc_poll_flush L tm slept cx uc = Some (uc', Pending)" and "uc_out_packet uc' = []"
    and "\<not> rx_gone (sp_channel (uc_sender uc))"
  shows "uc_poll_flush L tm slept' cx uc' = Some (uc', Ready (Inr ())) \<and> sp_slot (uc_sender uc') = Some (uc_out_packet uc)"
proof -
  from assms(2) show ?thesis
  proof (cases rule: uc_poll_flush_cases)
    case (sent l n s0 s1 s q)
    have q: "q = Pending" using sent(6) by (cases q) (auto split: sum.splits)
    have "\<not> rx_gone (sp_channel s0)" using spsc_laws.poll_ready_contents(2) [OF assms(1) sent(2) assms(4)] .
    moreover have s1: "s1 = s0\<lparr>sp_slot := Some (uc_out_packet uc)\<rparr>"
      using sent(3) by (simp add: Sender_start_send_def split: if_splits)
    ultimately have "sp_slot s = Some (uc_out_packet uc)"
      using sent(4) q spsc_laws.poll_ready_quiet [OF assms(1), of cx s1]
      by (cases rule: spsc_laws.push_cases [OF assms(1), of "s1\<lparr>sp_slot := None\<rparr>" "uc_out_packet uc"])
        (auto simp: Sender_poll_flush_def)
    then show ?thesis using sent(5) by (simp add: uc_poll_flush_def)
  qed (use assms(3) in auto)
qed

theorem uc_flush_returns_early_witness:
  "\<exists>uc'. uc_poll_flush fifo_lib step_timer True ()
       ((small_uc 10)\<lparr>uc_sender := spsc_channel fifo_lib 0, uc_out_packet := [1, 0, 9]\<rparr>) = Some (uc', Pending) \<and>
     uc_poll_flush fifo_lib step_timer True () uc' = Some (uc', Ready (Inr ())) \<and> sp_slot (uc_sender uc') = Some [1, 0, 9]"
proof -
  let ?u = "(small_uc 10)\<lparr>uc_sender := spsc_channel fifo_lib 0, uc_out_packet := [1, 0, 9]\<rparr>"
  obtain l where l: "uc_update_delay step_timer ?u = Some (?u\<lparr>uc_limiter := l, uc_clock_reads := Suc (uc_clock_reads ?u)\<rparr>)"
    using small_flush [of ?u] by (auto simp: small_uc_def UnreliableChannel_new_def BandwidthLimiter_new_def step_timer_def)
  then obtain uc' where f: "uc_poll_flush fifo_lib step_timer True () ?u = Some (uc', Pending)" "uc_out_packet uc' = []"
    by (simp add: uc_poll_flush_def small_uc_def UnreliableChannel_new_def spsc_channel_def fifo_lib_def
        Sender_poll_ready_def Sender_start_send_def Sender_poll_flush_def Sender_try_send_def Sender_push_def Let_def)
  have "\<not> fq_rx_gone (sp_channel (uc_sender ?u))" by (simp add: spsc_channel_def fifo.bounded)
  from uc_flush_returns_early [OF fifo.spsc_laws_axioms f this, of True] f show ?thesis by auto
qed

end
