(* ===== verification/Event_Watch.thy ===== *)
theory Event_Watch
  imports Spsc
begin

text \<open>
  The event watch (\<open>event_watch.rs\<close>): a flag and an \<open>AtomicWaker\<close>, shared by any number of senders and
  one receiver. The waker's operations come from the same record of package operations as those of the
  \<open>spsc\<close> channel.

  \<open>signal\<close> is two atomic actions and a poll of \<open>wait\<close> is up to three, so the interleavings are a step
  relation: the state has the number of senders between their two actions and the point the receiver
  has reached. With it go ghosts: the number of signals and of resolved waits.
\<close>

record 'w watch_state =
  ev_waker :: 'w
  ev_signaled :: bool

definition event_channel :: "('q, 'w, 'a, 'k) spsc_lib \<Rightarrow> 'w watch_state" where
  "event_channel L = \<lparr>ev_waker = aw_new L, ev_signaled = False\<rparr>"

definition signal_store :: "'w watch_state \<Rightarrow> 'w watch_state" where
  "signal_store s = s\<lparr>ev_signaled := True\<rparr>"

definition signal_wake :: "('q, 'w, 'a, 'k) spsc_lib \<Rightarrow> 'w watch_state \<Rightarrow> 'w watch_state" where
  "signal_wake L s = s\<lparr>ev_waker := aw_wake L (ev_waker s)\<rparr>"

definition Sender_signal :: "('q, 'w, 'a, 'k) spsc_lib \<Rightarrow> 'w watch_state \<Rightarrow> 'w watch_state" where
  "Sender_signal L s = signal_wake L (signal_store s)"

text \<open>\<open>signaled.swap(false)\<close>\<close>

definition swap_signaled :: "'w watch_state \<Rightarrow> 'w watch_state \<times> bool" where
  "swap_signaled s = (s\<lparr>ev_signaled := False\<rparr>, ev_signaled s)"

definition wait_register :: "('q, 'w, 'a, 'k) spsc_lib \<Rightarrow> 'k \<Rightarrow> 'w watch_state \<Rightarrow> 'w watch_state" where
  "wait_register L cx s = s\<lparr>ev_waker := aw_register L (ev_waker s) cx\<rparr>"

text \<open>A poll of the future of \<open>wait\<close>, with what the senders do before and after the registration.\<close>

definition Receiver_wait ::
  "('q, 'w, 'a, 'k) spsc_lib \<Rightarrow> ('w watch_state \<Rightarrow> 'w watch_state) \<Rightarrow> ('w watch_state \<Rightarrow> 'w watch_state) \<Rightarrow>
   'k \<Rightarrow> 'w watch_state \<Rightarrow> 'w watch_state \<times> unit poll" where
  "Receiver_wait L env1 env2 cx s =
     (case swap_signaled s of
        (s, True) \<Rightarrow> (s, Ready ())
      | (s, False) \<Rightarrow>
          (case swap_signaled (env2 (wait_register L cx (env1 s))) of
             (s, True) \<Rightarrow> (s, Ready ())
           | (s, False) \<Rightarrow> (s, Pending)))"

subsection \<open>Interleavings\<close>

text \<open>
  The receiver is not polling, is before the registration, after it, or was told to wait. The last two
  remember how many wake-ups had been logged at the registration.
\<close>

datatype 'k wait_pc = Not_waiting | Swapped 'k | Registered 'k nat | Waiting 'k nat

record ('w, 'k) watch =
  wt_state :: "'w watch_state"
  wt_signaling :: nat
  wt_pc :: "'k wait_pc"
  wt_signals :: nat
  wt_resolved :: nat

definition watch_new :: "('q, 'w, 'a, 'k) spsc_lib \<Rightarrow> ('w, 'k) watch" where
  "watch_new L = \<lparr>wt_state = event_channel L, wt_signaling = 0, wt_pc = Not_waiting, wt_signals = 0, wt_resolved = 0\<rparr>"

text \<open>The swap, which resolves the wait or moves on.\<close>

definition watch_swap :: "'k wait_pc \<Rightarrow> ('w, 'k) watch \<Rightarrow> ('w, 'k) watch" where
  "watch_swap pc w =
     (case swap_signaled (wt_state w) of
        (s, True) \<Rightarrow> w\<lparr>wt_state := s, wt_pc := Not_waiting, wt_resolved := Suc (wt_resolved w)\<rparr>
      | (s, False) \<Rightarrow> w\<lparr>wt_state := s, wt_pc := pc\<rparr>)"

inductive watch_step ::
  "('q, 'w, 'a, 'k) spsc_lib \<Rightarrow> ('w \<Rightarrow> 'k list) \<Rightarrow> ('w, 'k) watch \<Rightarrow> ('w, 'k) watch \<Rightarrow> bool"
  for L :: "('q, 'w, 'a, 'k) spsc_lib" and woken :: "'w \<Rightarrow> 'k list" where
  store: "watch_step L woken w
    (w\<lparr>wt_state := signal_store (wt_state w), wt_signaling := Suc (wt_signaling w), wt_signals := Suc (wt_signals w)\<rparr>)"
| wake: "0 < wt_signaling w \<Longrightarrow> watch_step L woken w
    (w\<lparr>wt_state := signal_wake L (wt_state w), wt_signaling := wt_signaling w - 1\<rparr>)"
| poll: "wt_pc w = Not_waiting \<or> (\<exists>k n. wt_pc w = Waiting k n) \<Longrightarrow> watch_step L woken w (watch_swap (Swapped cx) w)"
| registering: "wt_pc w = Swapped cx \<Longrightarrow> watch_step L woken w
    (w\<lparr>wt_state := wait_register L cx (wt_state w),
       wt_pc := Registered cx (length (woken (ev_waker (wt_state w))))\<rparr>)"
| poll_again: "wt_pc w = Registered cx n \<Longrightarrow> watch_step L woken w (watch_swap (Waiting cx n) w)"

inductive watch_reachable ::
  "('q, 'w, 'a, 'k) spsc_lib \<Rightarrow> ('w \<Rightarrow> 'k list) \<Rightarrow> ('w, 'k) watch \<Rightarrow> bool"
  for L :: "('q, 'w, 'a, 'k) spsc_lib" and woken :: "'w \<Rightarrow> 'k list" where
  start: "watch_reachable L woken (watch_new L)"
| step: "watch_reachable L woken w \<Longrightarrow> watch_step L woken w w' \<Longrightarrow> watch_reachable L woken w'"

text \<open>
  A registered receiver is still registered or has been woken; one that waits while the flag is set has
  been woken or a sender is about to wake it; and the resolved waits are covered by signals.
\<close>

definition watch_inv :: "('w \<Rightarrow> 'k option) \<Rightarrow> ('w \<Rightarrow> 'k list) \<Rightarrow> ('w, 'k) watch \<Rightarrow> bool" where
  "watch_inv waiting woken w \<longleftrightarrow>
     wt_resolved w + (if ev_signaled (wt_state w) then 1 else 0) \<le> wt_signals w \<and>
     (let a = ev_waker (wt_state w); held = (\<lambda>k n. waiting a = Some k \<and> n \<le> length (woken a) \<or> k \<in> set (drop n (woken a)))
      in case wt_pc w of
           Registered k n \<Rightarrow> held k n
         | Waiting k n \<Rightarrow> held k n \<and> (ev_signaled (wt_state w) \<longrightarrow> 0 < wt_signaling w \<or> k \<in> set (drop n (woken a)))
         | _ \<Rightarrow> True)"

lemmas watch_defs = signal_store_def signal_wake_def swap_signaled_def wait_register_def watch_swap_def

context spsc_laws
begin

lemma watch_inv_new: "watch_inv waiting woken (watch_new L)"
  by (simp add: watch_inv_def watch_new_def event_channel_def)

lemma watch_inv_step:
  assumes "watch_step L woken w w'" and "watch_inv waiting woken w"
  shows "watch_inv waiting woken w'"
  using assms
proof (cases rule: watch_step.cases)
  case store
  then show ?thesis using assms(2) by (auto simp: watch_inv_def watch_defs Let_def split: wait_pc.splits if_splits)
next
  case wake
  then show ?thesis using assms(2) wake_set wake_keeps
    by (auto simp: watch_inv_def watch_defs Let_def split: wait_pc.splits)
next
  case (poll cx)
  then show ?thesis using assms(2)
    by (auto simp: watch_inv_def watch_defs Let_def split: wait_pc.splits bool.splits if_splits)
next
  case (registering cx)
  then show ?thesis using assms(2) by (auto simp: watch_inv_def watch_defs Let_def register)
next
  case (poll_again cx n)
  then show ?thesis using assms(2)
    by (auto simp: watch_inv_def watch_defs Let_def split: bool.splits if_splits)
qed

lemma watch_reachable_inv: "watch_reachable L woken w \<Longrightarrow> watch_inv waiting woken w"
  by (induction rule: watch_reachable.induct) (auto intro: watch_inv_new watch_inv_step)

end

subsection \<open>Properties\<close>

text \<open>
  C31: no signal is lost. In every interleaving of any number of senders with the polls of the receiver,
  a receiver that was told to wait while the flag is set and no sender is between its two actions has
  been woken since it registered; no more waits resolve than there were signals. A signal to a receiver
  that is not waiting makes its next wait resolve at once, and only that one.
\<close>

theorem event_watch_no_lost_signal:
  assumes "spsc_laws L items room tx_gone rx_gone waiting woken" and "watch_reachable L woken w"
  shows "wt_resolved w \<le> wt_signals w \<and>
     (\<forall>k n. wt_pc w = Waiting k n \<and> ev_signaled (wt_state w) \<and> wt_signaling w = 0 \<longrightarrow>
        k \<in> set (drop n (woken (ev_waker (wt_state w))))) \<and>
     (\<exists>s. Receiver_wait L env1 env2 cx (Sender_signal L (wt_state w)) = (s, Ready ()) \<and> \<not> ev_signaled s \<and>
        snd (Receiver_wait L id id cx s) = Pending)"
proof -
  have inv: "watch_inv waiting woken w" using spsc_laws.watch_reachable_inv [OF assms] .
  have "wt_resolved w \<le> wt_signals w" using inv by (simp add: watch_inv_def split: if_splits)
  moreover have "k \<in> set (drop n (woken (ev_waker (wt_state w))))"
    if "wt_pc w = Waiting k n" "ev_signaled (wt_state w)" "wt_signaling w = 0" for k n
    using inv that by (simp add: watch_inv_def Let_def)
  moreover have "\<exists>s. Receiver_wait L env1 env2 cx (Sender_signal L (wt_state w)) = (s, Ready ()) \<and> \<not> ev_signaled s \<and>
        snd (Receiver_wait L id id cx s) = Pending"
    by (simp add: Receiver_wait_def Sender_signal_def watch_defs)
  ultimately show ?thesis by blast
qed

lemma parked_watch:
  "\<exists>w. watch_reachable (fifo_lib :: (nat fifo, bool option \<times> bool list, nat, bool) spsc_lib) snd w \<and>
     wt_pc w = Waiting True 0 \<and> ev_signaled (wt_state w) \<and> wt_signaling w = 0"
proof -
  let ?L = "fifo_lib :: (nat fifo, bool option \<times> bool list, nat, bool) spsc_lib"
  define w0 where "w0 = watch_new ?L"
  define w1 where "w1 = watch_swap (Swapped True) w0"
  define w2 where "w2 = w1\<lparr>wt_state := wait_register ?L True (wt_state w1),
       wt_pc := Registered True (length (snd (ev_waker (wt_state w1))))\<rparr>"
  define w3 where "w3 = watch_swap (Waiting True 0) w2"
  define w4 where "w4 = w3\<lparr>wt_state := signal_store (wt_state w3), wt_signaling := Suc (wt_signaling w3), wt_signals := Suc (wt_signals w3)\<rparr>"
  define w5 where "w5 = w4\<lparr>wt_state := signal_wake ?L (wt_state w4), wt_signaling := wt_signaling w4 - 1\<rparr>"
  note defs = w0_def w1_def w2_def w3_def w4_def w5_def watch_new_def event_channel_def watch_defs
  have r0: "watch_reachable ?L snd w0" unfolding w0_def by (rule watch_reachable.start)
  have "wt_pc w0 = Not_waiting" by (simp add: defs)
  then have "watch_step ?L snd w0 w1" unfolding w1_def by (intro watch_step.poll) simp
  note r1 = watch_reachable.step [OF r0 this]
  have "wt_pc w1 = Swapped True" by (simp add: defs)
  then have "watch_step ?L snd w1 w2" unfolding w2_def by (rule watch_step.registering)
  note r2 = watch_reachable.step [OF r1 this]
  have "wt_pc w2 = Registered True 0" by (simp add: defs fifo_lib_def)
  then have "watch_step ?L snd w2 w3" unfolding w3_def by (rule watch_step.poll_again)
  note r3 = watch_reachable.step [OF r2 this]
  have "watch_step ?L snd w3 w4" unfolding w4_def by (rule watch_step.store)
  note r4 = watch_reachable.step [OF r3 this]
  have "0 < wt_signaling w4" by (simp add: w4_def)
  then have "watch_step ?L snd w4 w5" unfolding w5_def by (rule watch_step.wake)
  note r5 = watch_reachable.step [OF r4 this]
  have "wt_pc w5 = Waiting True 0" "ev_signaled (wt_state w5)" "wt_signaling w5 = 0" by (simp_all add: defs)
  with r5 show ?thesis by blast
qed

theorem event_watch_no_lost_signal_witness:
  "\<exists>w. watch_reachable (fifo_lib :: (nat fifo, bool option \<times> bool list, nat, bool) spsc_lib) snd w \<and>
     wt_pc w = Waiting True 0 \<and> ev_signaled (wt_state w) \<and> True \<in> set (snd (ev_waker (wt_state w)))"
proof -
  obtain w where w: "watch_reachable (fifo_lib :: (nat fifo, bool option \<times> bool list, nat, bool) spsc_lib) snd w"
    "wt_pc w = Waiting True 0" "ev_signaled (wt_state w)" "wt_signaling w = 0" using parked_watch by blast
  from event_watch_no_lost_signal [OF fifo.spsc_laws_axioms w(1), of id id True] w(2-4)
  have "True \<in> set (drop 0 (snd (ev_waker (wt_state w))))" by blast
  with w show ?thesis by auto
qed

end
