(* ===== verification/Packet_Multiplexer.thy ===== *)
theory Packet_Multiplexer
  imports Spsc Packet
begin

text \<open>
  The packet multiplexer (\<open>packet_multiplexer.rs\<close>).

  A multiplexed packet reserves its first byte for the number of the channel. \<open>MuxPacket\<close> is defined
  over the operations of any packet, and interpreted as a packet over buffer packets. The multiplexer
  keeps, for each open channel, the two \<open>spsc\<close> channels and the statistics; as in the other theories the
  bytes stand for the packet. The statistics are 64 bit counters that wrap. Which stream \<open>SelectAll\<close>
  polls, and in which order the hash set of channels to flush is visited, are arguments.
\<close>

type_synonym packet_channel = byte

subsection \<open>Packets with a header\<close>

definition MuxPacket_resize :: "('p \<Rightarrow> nat \<Rightarrow> byte \<Rightarrow> 'p option) \<Rightarrow> 'p \<Rightarrow> nat \<Rightarrow> byte \<Rightarrow> 'p option" where
  "MuxPacket_resize resize p len v = do { n \<leftarrow> usize_add len 1; resize p n v }"

definition MuxPacket_extend :: "('p \<Rightarrow> byte list \<Rightarrow> 'p option) \<Rightarrow> 'p \<Rightarrow> byte list \<Rightarrow> 'p option" where
  "MuxPacket_extend ext p other = ext p other"

definition MuxPacket_truncate :: "('p \<Rightarrow> nat \<Rightarrow> 'p option) \<Rightarrow> 'p \<Rightarrow> nat \<Rightarrow> 'p option" where
  "MuxPacket_truncate trunc p len = do { n \<leftarrow> usize_add len 1; trunc p n }"

definition MuxPacket_clear :: "('p \<Rightarrow> nat \<Rightarrow> byte \<Rightarrow> 'p option) \<Rightarrow> 'p \<Rightarrow> 'p option" where
  "MuxPacket_clear resize p = resize p 1 0"

definition MuxPacket_deref :: "('p \<Rightarrow> byte list) \<Rightarrow> 'p \<Rightarrow> byte list" where
  "MuxPacket_deref bytes p = drop 1 (bytes p)"

definition MuxPacket_deref_mut :: "('p \<Rightarrow> byte list) \<Rightarrow> ('p \<Rightarrow> byte list \<Rightarrow> 'p) \<Rightarrow> 'p \<Rightarrow> byte list \<Rightarrow> 'p" where
  "MuxPacket_deref_mut bytes store p xs = store p (take 1 (bytes p) @ xs)"

definition MuxPacketPool_capacity :: "nat \<Rightarrow> nat option" where
  "MuxPacketPool_capacity cap = usize_sub cap 1"

definition MuxPacketPool_acquire :: "('p \<Rightarrow> nat \<Rightarrow> byte \<Rightarrow> 'p option) \<Rightarrow> 'p \<Rightarrow> 'p option" where
  "MuxPacketPool_acquire resize fresh = resize fresh 1 0"

interpretation mux_buffer: packet_trait "\<lambda>p. buffer_packet_ok p \<and> BufferPacket_deref p \<noteq> []"
  "\<lambda>p. length (bp_buffer p) - 1" "MuxPacket_deref BufferPacket_deref"
  "MuxPacket_deref_mut BufferPacket_deref BufferPacket_deref_mut" "MuxPacket_resize BufferPacket_resize"
proof unfold_locales
  fix p :: buffer_packet and n :: nat and v :: byte and xs :: "byte list"
  assume "buffer_packet_ok p \<and> BufferPacket_deref p \<noteq> []"
  then have ok: "buffer_packet_ok p" and ne: "BufferPacket_deref p \<noteq> []" by simp_all
  let ?b = "BufferPacket_deref p"
  note fit = buffer_packet.bytes_fit [OF ok]
  have one: "1 \<le> length ?b" using ne by (cases ?b) auto
  show "length (MuxPacket_deref BufferPacket_deref p) \<le> length (bp_buffer p) - 1 \<and> length (bp_buffer p) - 1 \<le> usize_max"
    using fit by (auto simp: MuxPacket_deref_def intro: diff_le_mono)
  show "(buffer_packet_ok (MuxPacket_deref_mut BufferPacket_deref BufferPacket_deref_mut p xs) \<and>
      BufferPacket_deref (MuxPacket_deref_mut BufferPacket_deref BufferPacket_deref_mut p xs) \<noteq> []) \<and>
      length (bp_buffer (MuxPacket_deref_mut BufferPacket_deref BufferPacket_deref_mut p xs)) - 1 = length (bp_buffer p) - 1 \<and>
      MuxPacket_deref BufferPacket_deref (MuxPacket_deref_mut BufferPacket_deref BufferPacket_deref_mut p xs) = xs"
    if "length xs = length (MuxPacket_deref BufferPacket_deref p)"
  proof -
    have "length (take 1 ?b @ xs) = length ?b" using that one by (simp add: MuxPacket_deref_def)
    from buffer_packet.store_law [OF ok this] one ne show ?thesis
      by (simp add: MuxPacket_deref_def MuxPacket_deref_mut_def)
  qed
  show "\<exists>p'. MuxPacket_resize BufferPacket_resize p n v = Some p' \<and>
      (buffer_packet_ok p' \<and> BufferPacket_deref p' \<noteq> []) \<and> length (bp_buffer p') - 1 = length (bp_buffer p) - 1 \<and>
      MuxPacket_deref BufferPacket_deref p' = vec_resize (MuxPacket_deref BufferPacket_deref p) n v"
    if "n \<le> length (bp_buffer p) - 1"
  proof -
    have n: "n + 1 \<le> length (bp_buffer p)" using that one fit by linarith
    then have "usize_add n 1 = Some (n + 1)" using fit by (intro usize_add_ok) simp
    moreover have "drop 1 (vec_resize ?b (n + 1) v) = vec_resize (drop 1 ?b) n v"
      using one by (auto simp: vec_resize_def drop_take)
    moreover have "vec_resize ?b (n + 1) v \<noteq> []" by (metis add_is_0 length_vec_resize list.size(3) one_neq_zero)
    ultimately show ?thesis using buffer_packet.resize_law [OF ok n, of v]
      by (auto simp: MuxPacket_resize_def MuxPacket_deref_def)
  qed
  show "MuxPacket_resize BufferPacket_resize p n v = None" if "length (bp_buffer p) - 1 < n"
  proof -
    have "length (bp_buffer p) < n + 1" using that one fit by linarith
    from buffer_packet.resize_panics [OF ok this] show ?thesis by (simp add: MuxPacket_resize_def usize_add_def)
  qed
qed

subsection \<open>State\<close>

record channel_statistics =
  incoming_packets :: "64 word"
  incoming_bytes :: "64 word"
  outgoing_packets :: "64 word"
  outgoing_bytes :: "64 word"

definition statistics_new :: channel_statistics where
  "statistics_new = \<lparr>incoming_packets = 0, incoming_bytes = 0, outgoing_packets = 0, outgoing_bytes = 0\<rparr>"

definition mark_incoming_packet :: "nat \<Rightarrow> channel_statistics \<Rightarrow> channel_statistics" where
  "mark_incoming_packet len s =
     s\<lparr>incoming_packets := incoming_packets s + 1, incoming_bytes := incoming_bytes s + of_nat len\<rparr>"

definition mark_outgoing_packet :: "nat \<Rightarrow> channel_statistics \<Rightarrow> channel_statistics" where
  "mark_outgoing_packet len s =
     s\<lparr>outgoing_packets := outgoing_packets s + 1, outgoing_bytes := outgoing_bytes s + of_nat len\<rparr>"

definition incoming_totals :: "channel_statistics \<Rightarrow> 64 word \<times> 64 word" where
  "incoming_totals s = (incoming_packets s, incoming_bytes s)"

definition outgoing_totals :: "channel_statistics \<Rightarrow> 64 word \<times> 64 word" where
  "outgoing_totals s = (outgoing_packets s, outgoing_bytes s)"

text \<open>The two \<open>spsc\<close> channels of a multiplexed channel and the statistics its two ends share.\<close>

record ('q, 'w) mux_channel =
  mc_incoming :: "('q, 'w, byte list) spsc"
  mc_outgoing :: "('q, 'w, byte list) spsc"
  mc_statistics :: channel_statistics

record ('q, 'w) multiplexer =
  mx_channels :: "packet_channel \<rightharpoonup> ('q, 'w) mux_channel"
  mx_to_send :: "byte list option"
  mx_to_flush :: "packet_channel set"

datatype duplicate_channel = DuplicateChannel
datatype incoming_error = UnknownPacketChannel | ChannelReceiverDropped
datatype incoming_try_send_error = IsFull "byte list" | Incoming_error incoming_error

definition PacketMultiplexer_new :: "('q, 'w) multiplexer" where
  "PacketMultiplexer_new = \<lparr>mx_channels = Map.empty, mx_to_send = None, mx_to_flush = {}\<rparr>"

definition open_channel ::
  "('q, 'w, byte list, 'k) spsc_lib \<Rightarrow> packet_channel \<Rightarrow> nat \<Rightarrow> ('q, 'w) multiplexer \<Rightarrow>
   ('q, 'w) multiplexer \<times> (duplicate_channel + unit)" where
  "open_channel L ch buffer_size mx =
     (case mx_channels mx ch of
        Some _ \<Rightarrow> (mx, Inl DuplicateChannel)
      | None \<Rightarrow> (mx\<lparr>mx_channels := (mx_channels mx)(ch \<mapsto>
            \<lparr>mc_incoming = spsc_channel L buffer_size, mc_outgoing = spsc_channel L buffer_size,
             mc_statistics = statistics_new\<rparr>)\<rparr>, Inr ()))"

text \<open>Writing back what an operation did to the incoming side of a channel.\<close>

definition put_incoming ::
  "packet_channel \<Rightarrow> ('q, 'w) mux_channel \<Rightarrow> ('q, 'w, byte list) spsc \<Rightarrow> ('q, 'w) multiplexer \<Rightarrow>
   ('q, 'w) multiplexer" where
  "put_incoming ch c s mx = mx\<lparr>mx_channels := (mx_channels mx)(ch \<mapsto> c\<lparr>mc_incoming := s\<rparr>)\<rparr>"

subsection \<open>Incoming packets\<close>

definition Incoming_try_send ::
  "('q, 'w, byte list, 'k) spsc_lib \<Rightarrow> byte list \<Rightarrow> ('q, 'w) multiplexer \<Rightarrow>
   (('q, 'w) multiplexer \<times> (incoming_try_send_error + unit)) option" where
  "Incoming_try_send L packet mx = do {
     ch \<leftarrow> vec_get packet 0;
     (case mx_channels mx ch of
        None \<Rightarrow> Some (mx, Inl (Incoming_error UnknownPacketChannel))
      | Some c \<Rightarrow> do {
          len \<leftarrow> usize_sub (length packet) 1;
          (case Sender_try_send L (mc_incoming c) packet of
             (s, Inl (Full p)) \<Rightarrow> Some (put_incoming ch c s mx, Inl (IsFull p))
           | (s, Inl (Disconnected_send _)) \<Rightarrow>
               Some (put_incoming ch c s mx, Inl (Incoming_error ChannelReceiverDropped))
           | (s, Inr _) \<Rightarrow>
               Some (put_incoming ch (c\<lparr>mc_statistics := mark_incoming_packet len (mc_statistics c)\<rparr>) s mx, Inr ()))
        })
   }"

definition Incoming_poll_ready ::
  "('q, 'w, byte list, 'k) spsc_lib \<Rightarrow> 'k \<Rightarrow> ('q, 'w) multiplexer \<Rightarrow>
   (('q, 'w) multiplexer \<times> (incoming_error + unit) poll) option" where
  "Incoming_poll_ready L cx mx =
     (case mx_to_send mx of
        None \<Rightarrow> Some (mx, Ready (Inr ()))
      | Some packet \<Rightarrow> do {
          let mx = mx\<lparr>mx_to_send := None\<rparr>;
          ch \<leftarrow> vec_get packet 0;
          (case mx_channels mx ch of
             None \<Rightarrow> Some (mx, Ready (Inl UnknownPacketChannel))
           | Some c \<Rightarrow>
               (case Sender_poll_ready L id id cx (mc_incoming c) of
                  (s, Pending) \<Rightarrow> Some ((put_incoming ch c s mx)\<lparr>mx_to_send := Some packet\<rparr>, Pending)
                | (s, Ready (Inl _)) \<Rightarrow> Some (put_incoming ch c s mx, Ready (Inl ChannelReceiverDropped))
                | (s, Ready (Inr _)) \<Rightarrow> do {
                    len \<leftarrow> usize_sub (length packet) 1;
                    s \<leftarrow> Sender_start_send s packet;
                    let mx = put_incoming ch (c\<lparr>mc_statistics := mark_incoming_packet len (mc_statistics c)\<rparr>) s mx;
                    Some (mx\<lparr>mx_to_flush := insert ch (mx_to_flush mx)\<rparr>, Ready (Inr ()))
                  }))
        })"

definition Incoming_start_send ::
  "byte list \<Rightarrow> ('q, 'w) multiplexer \<Rightarrow> ('q, 'w) multiplexer option" where
  "Incoming_start_send item mx = do {
     assert_that (mx_to_send mx = None);
     Some (mx\<lparr>mx_to_send := Some item\<rparr>)
   }"

text \<open>The loop of \<open>poll_flush\<close>; \<open>order\<close> is the order in which the set is visited.\<close>

fun Incoming_flush_loop ::
  "('q, 'w, byte list, 'k) spsc_lib \<Rightarrow> 'k \<Rightarrow> packet_channel list \<Rightarrow> ('q, 'w) multiplexer \<Rightarrow>
   ('q, 'w) multiplexer \<times> (incoming_error + unit) poll" where
  "Incoming_flush_loop L cx [] mx = (mx, Ready (Inr ()))"
| "Incoming_flush_loop L cx (ch # order) mx =
     (case mx_channels mx ch of
        None \<Rightarrow> (mx, Ready (Inl UnknownPacketChannel))
      | Some c \<Rightarrow>
          (case Sender_poll_flush L id id cx (mc_incoming c) of
             (s, Pending) \<Rightarrow> (put_incoming ch c s mx, Pending)
           | (s, Ready (Inl _)) \<Rightarrow> (put_incoming ch c s mx, Ready (Inl ChannelReceiverDropped))
           | (s, Ready (Inr _)) \<Rightarrow>
               (let mx = put_incoming ch c s mx
                in Incoming_flush_loop L cx order (mx\<lparr>mx_to_flush := mx_to_flush mx - {ch}\<rparr>))))"

definition Incoming_poll_flush ::
  "('q, 'w, byte list, 'k) spsc_lib \<Rightarrow> 'k \<Rightarrow> (packet_channel set \<Rightarrow> packet_channel list) \<Rightarrow> ('q, 'w) multiplexer \<Rightarrow>
   (('q, 'w) multiplexer \<times> (incoming_error + unit) poll) option" where
  "Incoming_poll_flush L cx order mx = do {
     (mx, r) \<leftarrow> Incoming_poll_ready L cx mx;
     (case r of
        Pending \<Rightarrow> Some (mx, Pending)
      | Ready (Inl e) \<Rightarrow> Some (mx, Ready (Inl e))
      | Ready (Inr _) \<Rightarrow> Some (Incoming_flush_loop L cx (order (mx_to_flush mx)) mx))
   }"

subsection \<open>Outgoing packets\<close>

text \<open>\<open>ChannelReceiver::poll_next\<close>, which marks the packet with the number of its channel.\<close>

definition ChannelReceiver_poll_next ::
  "('q, 'w, byte list, 'k) spsc_lib \<Rightarrow> 'k \<Rightarrow> packet_channel \<Rightarrow> ('q, 'w) mux_channel \<Rightarrow>
   (('q, 'w) mux_channel \<times> byte list option poll) option" where
  "ChannelReceiver_poll_next L cx ch c =
     (case Receiver_poll_next L id id cx (mc_outgoing c) of
        (s, Ready (Some packet)) \<Rightarrow> do {
          packet \<leftarrow> vec_set packet 0 ch;
          len \<leftarrow> usize_sub (length packet) 1;
          Some (c\<lparr>mc_outgoing := s, mc_statistics := mark_outgoing_packet len (mc_statistics c)\<rparr>, Ready (Some packet))
        }
      | (s, Ready None) \<Rightarrow> Some (c\<lparr>mc_outgoing := s\<rparr>, Ready None)
      | (s, Pending) \<Rightarrow> Some (c\<lparr>mc_outgoing := s\<rparr>, Pending))"

text \<open>
  \<open>start\<close> hands out the two halves. The merged stream of the outgoing half is \<open>SelectAll\<close> of the
  \<open>futures\<close> package: its poll asks its streams until one has a packet, drops the streams that have ended,
  and ends when none is left. The order in which the streams are asked is up to the package: \<open>streams\<close> is
  the set of streams as a list in that order, and a poll returns the streams that are left.
\<close>

definition PacketMultiplexer_start ::
  "(packet_channel set \<Rightarrow> packet_channel list) \<Rightarrow> ('q, 'w) multiplexer \<Rightarrow> ('q, 'w) multiplexer \<times> packet_channel list" where
  "PacketMultiplexer_start order mx = (mx\<lparr>mx_to_send := None, mx_to_flush := {}\<rparr>, order (dom (mx_channels mx)))"

fun select_all ::
  "('q, 'w, byte list, 'k) spsc_lib \<Rightarrow> 'k \<Rightarrow> packet_channel list \<Rightarrow> packet_channel list \<Rightarrow> ('q, 'w) multiplexer \<Rightarrow>
   (('q, 'w) multiplexer \<times> packet_channel list \<times> byte list option poll) option" where
  "select_all L cx [] asked mx = Some (mx, asked, if asked = [] then Ready None else Pending)"
| "select_all L cx (ch # streams) asked mx = do {
     c \<leftarrow> mx_channels mx ch;
     (c, r) \<leftarrow> ChannelReceiver_poll_next L cx ch c;
     let mx = mx\<lparr>mx_channels := (mx_channels mx)(ch \<mapsto> c)\<rparr>;
     (case r of
        Ready (Some packet) \<Rightarrow> Some (mx, asked @ ch # streams, Ready (Some packet))
      | Ready None \<Rightarrow> select_all L cx streams asked mx
      | Pending \<Rightarrow> select_all L cx streams (asked @ [ch]) mx)
   }"

definition Outgoing_poll_next ::
  "('q, 'w, byte list, 'k) spsc_lib \<Rightarrow> 'k \<Rightarrow> packet_channel list \<Rightarrow> ('q, 'w) multiplexer \<Rightarrow>
   (('q, 'w) multiplexer \<times> packet_channel list \<times> byte list option poll) option" where
  "Outgoing_poll_next L cx streams mx = select_all L cx streams [] mx"

subsection \<open>Runs\<close>

text \<open>
  What the network side and the applications do to the incoming half. A packet is sent through the
  sink as its contract asks, by a poll for readiness and, when that succeeds, the start of the send. A
  run keeps the packets that were accepted and those that each channel's receiver got.
\<close>

datatype 'k mux_event =
    Mux_try "byte list"
  | Mux_send 'k "byte list"
  | Mux_flush 'k
  | Mux_recv packet_channel

type_synonym ('q, 'w) mux_run_state =
  "('q, 'w) multiplexer \<times> byte list list \<times> (packet_channel \<Rightarrow> byte list list)"

fun mux_step ::
  "('q, 'w, byte list, 'k) spsc_lib \<Rightarrow> (packet_channel set \<Rightarrow> packet_channel list) \<Rightarrow>
   ('q, 'w) mux_run_state \<Rightarrow> 'k mux_event \<Rightarrow> ('q, 'w) mux_run_state option" where
  "mux_step L order (mx, acc, got) (Mux_try p) = do {
     (mx, r) \<leftarrow> Incoming_try_send L p mx;
     Some (mx, if r = Inr () then acc @ [p] else acc, got)
   }"
| "mux_step L order (mx, acc, got) (Mux_send cx p) = do {
     (mx, r) \<leftarrow> Incoming_poll_ready L cx mx;
     (if r = Ready (Inr ()) then do { mx \<leftarrow> Incoming_start_send p mx; Some (mx, acc @ [p], got) }
      else Some (mx, acc, got))
   }"
| "mux_step L order (mx, acc, got) (Mux_flush cx) = do {
     (mx, r) \<leftarrow> Incoming_poll_flush L cx order mx;
     Some (mx, acc, got)
   }"
| "mux_step L order (mx, acc, got) (Mux_recv ch) =
     (case mx_channels mx ch of
        None \<Rightarrow> Some (mx, acc, got)
      | Some c \<Rightarrow>
          (case receiver_step L (mc_incoming c) Recv_try of
             (s, new) \<Rightarrow> Some (put_incoming ch c s mx, acc, got(ch := got ch @ new))))"

fun mux_run ::
  "('q, 'w, byte list, 'k) spsc_lib \<Rightarrow> (packet_channel set \<Rightarrow> packet_channel list) \<Rightarrow>
   ('q, 'w) mux_run_state \<Rightarrow> 'k mux_event list \<Rightarrow> ('q, 'w) mux_run_state option" where
  "mux_run L order s [] = Some s"
| "mux_run L order s (e # es) = do { s \<leftarrow> mux_step L order s e; mux_run L order s es }"

fun event_packet :: "'k mux_event \<Rightarrow> byte list option" where
  "event_packet (Mux_try p) = Some p"
| "event_packet (Mux_send cx p) = Some p"
| "event_packet _ = None"

text \<open>
  For each open channel: the packets with its number among the accepted ones are those its receiver
  got, those in its \<open>spsc\<close> channel, and the one that waits in the sink; the statistics count the first
  two groups.
\<close>

definition routed ::
  "('q \<Rightarrow> byte list list) \<Rightarrow> ('q \<Rightarrow> bool) \<Rightarrow> byte list list \<Rightarrow> byte list list \<Rightarrow> byte list option \<Rightarrow> packet_channel \<Rightarrow>
   ('q, 'w) mux_channel \<Rightarrow> bool" where
  "routed items rx_gone acc got waiting_packet ch c \<longleftrightarrow> \<not> rx_gone (sp_channel (mc_incoming c)) \<and>
     (let taken = got @ spsc_contents items (mc_incoming c)
      in filter (\<lambda>p. hd p = ch) acc = taken @ (case waiting_packet of Some p \<Rightarrow> if hd p = ch then [p] else [] | None \<Rightarrow> []) \<and>
         incoming_totals (mc_statistics c) = (of_nat (length taken), of_nat (sum_list (map (\<lambda>p. length p - 1) taken))))"

definition mux_inv :: "('q \<Rightarrow> byte list list) \<Rightarrow> ('q \<Rightarrow> bool) \<Rightarrow> ('q, 'w) mux_run_state \<Rightarrow> bool" where
  "mux_inv items rx_gone s \<longleftrightarrow> (case s of (mx, acc, got) \<Rightarrow>
     (\<forall>p\<in>set_option (mx_to_send mx). p \<noteq> []) \<and>
     (\<forall>ch c. mx_channels mx ch = Some c \<longrightarrow> routed items rx_gone acc (got ch) (mx_to_send mx) ch c))"

lemma put_incoming_simps [simp]:
  "mx_channels (put_incoming ch c s mx) = (mx_channels mx)(ch \<mapsto> c\<lparr>mc_incoming := s\<rparr>)"
  "mx_to_send (put_incoming ch c s mx) = mx_to_send mx"
  "mx_to_flush (put_incoming ch c s mx) = mx_to_flush mx"
  by (simp_all add: put_incoming_def)

lemma routed_moves:
  assumes "routed items rx_gone acc got tosend ch c" and "\<not> rx_gone (sp_channel s)"
    and "spsc_contents items s = spsc_contents items (mc_incoming c)"
  shows "routed items rx_gone acc got tosend ch (c\<lparr>mc_incoming := s\<rparr>)"
  using assms by (simp add: routed_def)

lemma routed_accepts:
  assumes "routed items rx_gone acc got tosend ch c" and "\<not> rx_gone (sp_channel s)"
    and "spsc_contents items s = spsc_contents items (mc_incoming c) @ [p]" and "hd p = ch"
    and "acc' = acc @ [p] \<and> tosend = None \<and> tosend' = None \<or> acc' = acc \<and> tosend = Some p \<and> tosend' = None"
  shows "routed items rx_gone acc' got tosend' ch
     (c\<lparr>mc_statistics := mark_incoming_packet (length p - 1) (mc_statistics c), mc_incoming := s\<rparr>)"
  using assms by (auto simp: routed_def Let_def incoming_totals_def mark_incoming_packet_def)

lemma mux_invD:
  assumes "mux_inv items rx_gone (mx, acc, got)"
  shows "\<And>p. mx_to_send mx = Some p \<Longrightarrow> p \<noteq> []"
    and "\<And>ch c. mx_channels mx ch = Some c \<Longrightarrow> routed items rx_gone acc (got ch) (mx_to_send mx) ch c"
  using assms by (simp_all add: mux_inv_def)

lemma mux_invI:
  assumes "\<And>p. mx_to_send mx = Some p \<Longrightarrow> p \<noteq> []"
    and "\<And>ch c. mx_channels mx ch = Some c \<Longrightarrow> routed items rx_gone acc (got ch) (mx_to_send mx) ch c"
  shows "mux_inv items rx_gone (mx, acc, got)"
  using assms by (simp add: mux_inv_def)

text \<open>A packet for another channel does not concern a channel.\<close>

lemma routed_other:
  "routed items rx_gone acc got tosend ch c \<Longrightarrow> hd p \<noteq> ch \<Longrightarrow> routed items rx_gone (acc @ [p]) got tosend ch c"
  "routed items rx_gone acc got (Some p) ch c \<Longrightarrow> hd p \<noteq> ch \<Longrightarrow> routed items rx_gone acc got None ch c"
  by (auto simp: routed_def Let_def)

lemma routed_start:
  "routed items rx_gone acc got None ch c \<Longrightarrow> routed items rx_gone (acc @ [p]) got (Some p) ch c"
  by (auto simp: routed_def Let_def)

lemma mux_try_inv:
  assumes laws: "spsc_laws L items room tx_gone rx_gone waiting woken"
    and inv: "mux_inv items rx_gone (mx, acc, got)" and ne: "p \<noteq> []" and idle: "mx_to_send mx = None"
  shows "\<exists>mx' r. Incoming_try_send L p mx = Some (mx', r) \<and> mx_to_send mx' = None \<and> dom (mx_channels mx') = dom (mx_channels mx) \<and>
     mux_inv items rx_gone (mx', if r = Inr () \<and> hd p \<in> dom (mx_channels mx) then acc @ [p] else acc, got)"
proof -
  have get: "vec_get p 0 = Some (hd p)" "usize_sub (length p) 1 = Some (length p - 1)"
    using ne by (simp_all add: vec_get_def hd_conv_nth usize_sub_def Suc_leI)
  show ?thesis
  proof (cases "mx_channels mx (hd p)")
    case None
    then show ?thesis using get(1) inv idle by (auto simp: Incoming_try_send_def)
  next
    case (Some c)
    note r = mux_invD(2) [OF inv Some]
    have live: "\<not> rx_gone (sp_channel (mc_incoming c))" using r by (simp add: routed_def)
    obtain s q where t: "Sender_try_send L (mc_incoming c) p = (s, q)" by force
    have live': "\<not> rx_gone (sp_channel s)"
      using spsc_laws.try_send_grows [OF laws, of "mc_incoming c" p] live t by auto
    note c = spsc_laws.try_send_contents [OF laws, of "mc_incoming c" p, unfolded t]
    show ?thesis
    proof (cases q)
      case (Inl e)
      then have e: "e = Full p" "spsc_contents items s = spsc_contents items (mc_incoming c)" using c live by simp_all
      have "mux_inv items rx_gone (put_incoming (hd p) c s mx, acc, got)"
        using mux_invD [OF inv] idle routed_moves [OF r live' e(2)] by (intro mux_invI) (auto split: if_splits)
      then show ?thesis using get Some t Inl e(1) idle by (auto simp: Incoming_try_send_def)
    next
      case (Inr u)
      then have e: "spsc_contents items s = spsc_contents items (mc_incoming c) @ [p]" using c by simp
      let ?c = "c\<lparr>mc_statistics := mark_incoming_packet (length p - 1) (mc_statistics c)\<rparr>"
      have "mux_inv items rx_gone (put_incoming (hd p) ?c s mx, acc @ [p], got)"
        using mux_invD [OF inv] idle routed_accepts [OF r live' e refl, of "acc @ [p]" None]
        by (intro mux_invI) (auto split: if_splits intro: routed_other)
      then show ?thesis using get Some t Inr idle by (auto simp: Incoming_try_send_def)
    qed
  qed
qed

text \<open>A poll for readiness passes the waiting packet on, drops it for a channel that is not open, or keeps it.\<close>

lemma mux_ready_inv:
  assumes laws: "spsc_laws L items room tx_gone rx_gone waiting woken"
    and inv: "mux_inv items rx_gone (mx, acc, got)"
  shows "\<exists>mx' r. Incoming_poll_ready L cx mx = Some (mx', r) \<and> dom (mx_channels mx') = dom (mx_channels mx) \<and>
     (r = Pending \<longrightarrow> mx_to_send mx' = mx_to_send mx) \<and> (r \<noteq> Pending \<longrightarrow> mx_to_send mx' = None) \<and>
     (r = Ready (Inl ChannelReceiverDropped) \<longrightarrow> False) \<and> mux_inv items rx_gone (mx', acc, got)"
proof (cases "mx_to_send mx")
  case None
  then show ?thesis using inv by (simp add: Incoming_poll_ready_def)
next
  case (Some p)
  have ne: "p \<noteq> []" by (rule mux_invD(1) [OF inv Some])
  have get: "vec_get p 0 = Some (hd p)" "usize_sub (length p) 1 = Some (length p - 1)"
    using ne by (simp_all add: vec_get_def hd_conv_nth usize_sub_def Suc_leI)
  show ?thesis
  proof (cases "mx_channels mx (hd p)")
    case unknown: None
    have "mux_inv items rx_gone (mx\<lparr>mx_to_send := None\<rparr>, acc, got)"
      using mux_invD [OF inv] unknown Some by (intro mux_invI) (auto intro: routed_other(2) [of _ _ _ _ p])
    then show ?thesis using get(1) unknown Some by (auto simp: Incoming_poll_ready_def Let_def)
  next
    case known: (Some c)
    note r = mux_invD(2) [OF inv known]
    have live: "\<not> rx_gone (sp_channel (mc_incoming c))" using r by (simp add: routed_def)
    obtain s q where t: "Sender_poll_ready L id id cx (mc_incoming c) = (s, q)" by force
    note c = spsc_laws.poll_ready_contents [OF laws t live]
    have q: "q = Pending \<or> q = Ready (Inr ())"
      using t live spsc_laws.poll_ready_quiet [OF laws, of cx "mc_incoming c"]
      by (cases rule: spsc_laws.push_cases [OF laws, of "(mc_incoming c)\<lparr>sp_slot := None\<rparr>" "the (sp_slot (mc_incoming c))"])
        (auto split: option.splits)
    let ?mx = "mx\<lparr>mx_to_send := None\<rparr>"
    from q show ?thesis
    proof
      assume q: "q = Pending"
      have "mux_inv items rx_gone ((put_incoming (hd p) c s ?mx)\<lparr>mx_to_send := Some p\<rparr>, acc, got)"
        using mux_invD(2) [OF inv] Some ne routed_moves [OF r c(2,1)] by (intro mux_invI) (auto split: if_splits)
      then show ?thesis using get(1) known Some t q by (auto simp: Incoming_poll_ready_def Let_def)
    next
      assume q: "q = Ready (Inr ())"
      let ?c = "c\<lparr>mc_statistics := mark_incoming_packet (length p - 1) (mc_statistics c)\<rparr>"
      let ?s = "s\<lparr>sp_slot := Some p\<rparr>"
      have slot: "sp_slot s = None" using c(3) q by simp
      have e: "spsc_contents items ?s = spsc_contents items (mc_incoming c) @ [p]" "\<not> rx_gone (sp_channel ?s)"
        using c(1,2) slot by (simp_all add: spsc_contents_def)
      have "mux_inv items rx_gone ((put_incoming (hd p) ?c ?s ?mx)\<lparr>mx_to_flush := insert (hd p) (mx_to_flush mx)\<rparr>, acc, got)"
        using mux_invD(2) [OF inv] Some routed_accepts [OF r e(2,1) refl, of acc None]
        by (intro mux_invI) (auto split: if_splits intro: routed_other(2) [of _ _ _ _ p])
      then show ?thesis using get known Some t q slot
        by (auto simp: Incoming_poll_ready_def Sender_start_send_def Let_def)
    qed
  qed
qed

lemma mux_flush_loop_inv:
  assumes laws: "spsc_laws L items room tx_gone rx_gone waiting woken"
    and "mux_inv items rx_gone (mx, acc, got)"
  shows "\<exists>mx' r. Incoming_flush_loop L cx chs mx = (mx', r) \<and> dom (mx_channels mx') = dom (mx_channels mx) \<and>
     mx_to_send mx' = mx_to_send mx \<and> mux_inv items rx_gone (mx', acc, got)"
  using assms(2)
proof (induction chs arbitrary: mx)
  case (Cons ch chs)
  show ?case
  proof (cases "mx_channels mx ch")
    case None
    then show ?thesis using Cons.prems by simp
  next
    case (Some c)
    note r = mux_invD(2) [OF Cons.prems Some]
    have live: "\<not> rx_gone (sp_channel (mc_incoming c))" using r by (simp add: routed_def)
    obtain s q where t: "Sender_poll_flush L id id cx (mc_incoming c) = (s, q)" by force
    note c = spsc_laws.poll_ready_contents [OF laws t [unfolded Sender_poll_flush_def] live]
    have put: "mux_inv items rx_gone (put_incoming ch c s mx, acc, got)"
      using mux_invD [OF Cons.prems] routed_moves [OF r c(2,1)] by (intro mux_invI) (auto split: if_splits)
    then have "mux_inv items rx_gone ((put_incoming ch c s mx)\<lparr>mx_to_flush := mx_to_flush mx - {ch}\<rparr>, acc, got)"
      by (simp add: mux_inv_def)
    from Cons.IH [OF this] put Some t show ?thesis
      by (cases q) (auto simp: Let_def split: sum.splits if_splits)
  qed
qed simp


lemma mux_step_inv:
  assumes laws: "spsc_laws L items room tx_gone rx_gone waiting woken"
    and inv: "mux_inv items rx_gone (mx, acc, got)" and ne: "\<forall>p\<in>set_option (event_packet e). p \<noteq> []"
    and idle: "\<And>p. e = Mux_try p \<Longrightarrow> mx_to_send mx = None"
  shows "\<exists>mx' acc' got'. mux_step L order (mx, acc, got) e = Some (mx', acc', got') \<and>
     mux_inv items rx_gone (mx', acc', got') \<and> dom (mx_channels mx') = dom (mx_channels mx) \<and>
     (mx_to_send mx = None \<and> (\<forall>cx p. e \<noteq> Mux_send cx p) \<longrightarrow> mx_to_send mx' = None)"
proof (cases e)
  case (Mux_try p)
  then have "p \<noteq> []" using ne by simp
  from mux_try_inv [OF laws inv this idle [OF Mux_try]] obtain mx' r where
    t: "Incoming_try_send L p mx = Some (mx', r)" "mx_to_send mx' = None" "dom (mx_channels mx') = dom (mx_channels mx)"
    "mux_inv items rx_gone (mx', if r = Inr () \<and> hd p \<in> dom (mx_channels mx) then acc @ [p] else acc, got)" by blast
  have "r = Inr () \<Longrightarrow> hd p \<in> dom (mx_channels mx)"
    using t(1) \<open>p \<noteq> []\<close> by (auto simp: Incoming_try_send_def vec_get_def hd_conv_nth split: option.splits)
  with t Mux_try show ?thesis by (auto split: if_splits)
next
  case (Mux_send cx p)
  then have p: "p \<noteq> []" using ne by simp
  from mux_ready_inv [OF laws inv, of cx] obtain mx' r where
    t: "Incoming_poll_ready L cx mx = Some (mx', r)" "dom (mx_channels mx') = dom (mx_channels mx)"
    "r \<noteq> Pending \<longrightarrow> mx_to_send mx' = None" "mux_inv items rx_gone (mx', acc, got)" by blast
  have "mux_inv items rx_gone (mx'\<lparr>mx_to_send := Some p\<rparr>, acc @ [p], got)" if "mx_to_send mx' = None"
    using mux_invD(2) [OF t(4)] p that by (intro mux_invI) (auto intro: routed_start)
  with t Mux_send show ?thesis by (auto simp: Incoming_start_send_def)
next
  case (Mux_flush cx)
  from mux_ready_inv [OF laws inv, of cx] obtain mx1 r where
    t: "Incoming_poll_ready L cx mx = Some (mx1, r)" "dom (mx_channels mx1) = dom (mx_channels mx)"
    "r = Pending \<longrightarrow> mx_to_send mx1 = mx_to_send mx" "r \<noteq> Pending \<longrightarrow> mx_to_send mx1 = None"
    "mux_inv items rx_gone (mx1, acc, got)" by blast
  from mux_flush_loop_inv [OF laws t(5), of cx "order (mx_to_flush mx1)"] obtain mx2 r2 where
    f: "Incoming_flush_loop L cx (order (mx_to_flush mx1)) mx1 = (mx2, r2)"
    "dom (mx_channels mx2) = dom (mx_channels mx1)" "mx_to_send mx2 = mx_to_send mx1"
    "mux_inv items rx_gone (mx2, acc, got)" by blast
  show ?thesis using t f Mux_flush by (cases r) (auto simp: Incoming_poll_flush_def split: sum.splits)
next
  case (Mux_recv ch)
  show ?thesis
  proof (cases "mx_channels mx ch")
    case None
    then show ?thesis using Mux_recv inv by simp
  next
    case (Some c)
    obtain s new where t: "receiver_step L (mc_incoming c) Recv_try = (s, new)" by force
    note u = spsc_laws.receiver_step_contents [OF laws t] and r = mux_invD(2) [OF inv Some]
    have "routed items rx_gone acc (got ch @ new) (mx_to_send mx) ch (c\<lparr>mc_incoming := s\<rparr>)"
      using r u by (simp add: routed_def)
    then have "mux_inv items rx_gone (put_incoming ch c s mx, acc, got(ch := got ch @ new))"
      using mux_invD [OF inv] by (intro mux_invI) (auto split: if_splits)
    then show ?thesis using Mux_recv Some t by (auto simp del: receiver_step.simps)
  qed
qed

text \<open>The application uses \<open>try_send\<close>, or it uses the sink.\<close>

definition one_interface :: "'k mux_event list \<Rightarrow> bool" where
  "one_interface es \<longleftrightarrow> (\<forall>e\<in>set es. \<forall>p. e \<noteq> Mux_try p) \<or> (\<forall>e\<in>set es. \<forall>cx p. e \<noteq> Mux_send cx p)"

lemma mux_run_inv:
  assumes laws: "spsc_laws L items room tx_gone rx_gone waiting woken"
    and "mux_inv items rx_gone (mx, acc, got)" and "\<forall>e\<in>set es. \<forall>p\<in>set_option (event_packet e). p \<noteq> []"
    and "(\<forall>e\<in>set es. \<forall>p. e \<noteq> Mux_try p) \<or> mx_to_send mx = None \<and> (\<forall>e\<in>set es. \<forall>cx p. e \<noteq> Mux_send cx p)"
  shows "\<exists>mx' acc' got'. mux_run L order (mx, acc, got) es = Some (mx', acc', got') \<and>
     mux_inv items rx_gone (mx', acc', got') \<and> dom (mx_channels mx') = dom (mx_channels mx)"
  using assms(2-4)
proof (induction es arbitrary: mx acc got)
  case (Cons e es)
  have "\<forall>p\<in>set_option (event_packet e). p \<noteq> []" "\<And>p. e = Mux_try p \<Longrightarrow> mx_to_send mx = None"
    using Cons.prems(2,3) by auto
  from mux_step_inv [OF laws Cons.prems(1) this, where order = order] obtain mx1 acc1 got1 where
    s: "mux_step L order (mx, acc, got) e = Some (mx1, acc1, got1)" "mux_inv items rx_gone (mx1, acc1, got1)"
    "dom (mx_channels mx1) = dom (mx_channels mx)"
    "mx_to_send mx = None \<and> (\<forall>cx p. e \<noteq> Mux_send cx p) \<longrightarrow> mx_to_send mx1 = None" by blast
  have "(\<forall>e\<in>set es. \<forall>p. e \<noteq> Mux_try p) \<or> mx_to_send mx1 = None \<and> (\<forall>e\<in>set es. \<forall>cx p. e \<noteq> Mux_send cx p)"
    using Cons.prems(3) s(4) by auto
  with Cons.IH [OF s(2)] Cons.prems(2) s(1,3) show ?case by auto
qed simp


subsection \<open>The outgoing half\<close>

text \<open>
  The merged stream waits or ends only when no channel has a packet, and what it returns is the oldest
  packet of one of the channels, under the number of that channel.
\<close>

lemma select_all_spec:
  assumes laws: "spsc_laws L items room tx_gone rx_gone waiting woken"
  shows "\<forall>ch\<in>set streams. \<exists>c. mx_channels mx ch = Some c \<and> (\<forall>p\<in>set (items (sp_channel (mc_outgoing c))). p \<noteq> []) \<Longrightarrow> distinct streams \<Longrightarrow>
     \<exists>mx' left r. select_all L cx streams asked mx = Some (mx', left, r) \<and>
       (case r of
          Ready (Some p) \<Rightarrow> \<exists>ch\<in>set streams. \<exists>c q rest. mx_channels mx ch = Some c \<and>
            items (sp_channel (mc_outgoing c)) = q # rest \<and> p = ch # tl q
        | _ \<Rightarrow> \<forall>ch\<in>set streams. \<forall>c. mx_channels mx ch = Some c \<longrightarrow> items (sp_channel (mc_outgoing c)) = [])"
proof (induction streams arbitrary: asked mx)
  case (Cons ch streams)
  obtain c where c: "mx_channels mx ch = Some c" "\<forall>p\<in>set (items (sp_channel (mc_outgoing c))). p \<noteq> []" using Cons.prems(1) by auto
  show ?case
  proof (cases "items (sp_channel (mc_outgoing c))")
    case (Cons q rest)
    then obtain h body where q: "q = h # body" using c(2) by (cases q) auto
    obtain s where "Receiver_poll_next L id id cx (mc_outgoing c) = (s, Ready (Some q))"
      using spsc_laws.poll_next_quiet [OF laws, of cx "mc_outgoing c"] Cons
      by (cases rule: spsc_laws.try_recv_cases [OF laws, of "mc_outgoing c"]) auto
    then have "ChannelReceiver_poll_next L cx ch c =
        Some (c\<lparr>mc_outgoing := s, mc_statistics := mark_outgoing_packet (length body) (mc_statistics c)\<rparr>, Ready (Some (ch # body)))"
      using q by (simp add: ChannelReceiver_poll_next_def vec_set_def usize_sub_def)
    then show ?thesis using c(1) Cons q by auto
  next
    case Nil
    then obtain s r where "Receiver_poll_next L id id cx (mc_outgoing c) = (s, r)" "r = Pending \<or> r = Ready None"
      using spsc_laws.poll_next_quiet [OF laws, of cx "mc_outgoing c"] by (auto split: if_splits)
    then have p: "ChannelReceiver_poll_next L cx ch c = Some (c\<lparr>mc_outgoing := s\<rparr>, r)"
      by (auto simp: ChannelReceiver_poll_next_def)
    let ?mx = "mx\<lparr>mx_channels := (mx_channels mx)(ch \<mapsto> c\<lparr>mc_outgoing := s\<rparr>)\<rparr>"
    have same: "\<forall>x\<in>set streams. mx_channels ?mx x = mx_channels mx x" using Cons.prems(2) by auto
    then have "\<forall>x\<in>set streams. \<exists>c. mx_channels ?mx x = Some c \<and> (\<forall>p\<in>set (items (sp_channel (mc_outgoing c))). p \<noteq> [])"
      using Cons.prems(1) by simp
    note ih = Cons.IH [OF this, of "if r = Pending then asked @ [ch] else asked"]
    have "select_all L cx (ch # streams) asked mx = select_all L cx streams (if r = Pending then asked @ [ch] else asked) ?mx"
      using c(1) p \<open>r = Pending \<or> r = Ready None\<close> by auto
    with ih Cons.prems(2) obtain mx' left r' where e: "select_all L cx (ch # streams) asked mx = Some (mx', left, r')"
      "case r' of Ready (Some p) \<Rightarrow> \<exists>ch\<in>set streams. \<exists>c q rest. mx_channels ?mx ch = Some c \<and>
            items (sp_channel (mc_outgoing c)) = q # rest \<and> p = ch # tl q
        | _ \<Rightarrow> \<forall>ch\<in>set streams. \<forall>c. mx_channels ?mx ch = Some c \<longrightarrow> items (sp_channel (mc_outgoing c)) = []" by auto
    have "case r' of Ready (Some p) \<Rightarrow> \<exists>ch\<in>set (ch # streams). \<exists>c q rest. mx_channels mx ch = Some c \<and>
            items (sp_channel (mc_outgoing c)) = q # rest \<and> p = ch # tl q
        | _ \<Rightarrow> \<forall>ch\<in>set (ch # streams). \<forall>c. mx_channels mx ch = Some c \<longrightarrow> items (sp_channel (mc_outgoing c)) = []"
      using e(2) same c(1) Nil by (auto split: poll.splits option.splits)
    with e(1) show ?thesis by blast
  qed
qed simp

subsection \<open>Properties\<close>

text \<open>
  A packet with a header is a packet. Over buffer packets, the operations of \<open>MuxPacket\<close> do to the
  bytes after the header what the operations of the trait do to a byte string whose capacity is one
  less, and keep the header.
\<close>

theorem mux_packet_is_packet:
  assumes "buffer_packet_ok p" and "BufferPacket_deref p = h # body" and "c = length (bp_buffer p) - 1" and "n < usize_max"
  shows "map_option BufferPacket_deref (MuxPacket_resize BufferPacket_resize p n v) =
       map_option (\<lambda>b. h # b) (packet_resize c body n v) \<and>
     map_option BufferPacket_deref
       (MuxPacket_extend (Packet_extend BufferPacket_deref BufferPacket_deref_mut BufferPacket_resize) p xs) =
       (if length body + length xs \<le> c then Some (h # body @ xs) else None) \<and>
     map_option BufferPacket_deref (MuxPacket_truncate (Packet_truncate BufferPacket_deref BufferPacket_resize) p n) =
       Some (h # take n body) \<and>
     map_option BufferPacket_deref (MuxPacket_clear BufferPacket_resize p) = Some [h]"
proof -
  note fit = buffer_packet.bytes_fit [OF assms(1), unfolded assms(2)]
  note b = buffer_packet_refines [OF assms(1), unfolded assms(2)]
  have n: "usize_add n 1 = Some (n + 1)" using assms(4) by (intro usize_add_ok) simp
  have c: "length (bp_buffer p) = c + 1" using fit assms(3) by (cases "bp_buffer p") auto
  show ?thesis
    using b(1) [of "n + 1" v] b(1) [of 1 0] b(2) [of xs] b(3) [of "n + 1"] n fit c
    by (auto simp: MuxPacket_resize_def MuxPacket_extend_def MuxPacket_truncate_def MuxPacket_clear_def
        packet_resize_def vec_resize_def packet_extend_ok packet_extend_panics packet_truncate_ok)
qed

theorem mux_packet_is_packet_witness:
  "map_option BufferPacket_deref (MuxPacket_extend
       (Packet_extend BufferPacket_deref BufferPacket_deref_mut BufferPacket_resize)
       \<lparr>bp_buffer = [5, 1, 2, 3], bp_len = 1\<rparr> [7, 8]) = Some [5, 7, 8]"
  using mux_packet_is_packet [of "\<lparr>bp_buffer = [5, 1, 2, 3], bp_len = 1\<rparr>" 5 "[]" 3 0 0 "[7, 8]"]
  by (simp add: buffer_packet_ok_def isize_max_def usize_max_def BufferPacket_deref_def)

text \<open>
  C32: packets are routed. From any set of freshly opened channels, whatever mix of sends, flushes and
  reads happens, no call panics; for each channel the packets its receiver got, those in its queue and
  the one in the sink are, in order, exactly the accepted packets with the number of that channel, and
  its statistics count the packets and the bytes after the header.
\<close>

theorem multiplexer_routes:
  assumes laws: "spsc_laws L items room tx_gone rx_gone waiting woken"
    and fresh: "mx_to_send mx = None"
      "\<forall>ch c. mx_channels mx ch = Some c \<longrightarrow> (\<exists>n. mc_incoming c = spsc_channel L n) \<and> mc_statistics c = statistics_new"
    and events: "\<forall>e\<in>set es. \<forall>p\<in>set_option (event_packet e). p \<noteq> []" "one_interface es"
  shows "\<exists>mx' acc got. mux_run L order (mx, [], \<lambda>_. []) es = Some (mx', acc, got) \<and>
     dom (mx_channels mx') = dom (mx_channels mx) \<and>
     (\<forall>ch c. mx_channels mx' ch = Some c \<longrightarrow>
        filter (\<lambda>p. hd p = ch) acc = got ch @ spsc_contents items (mc_incoming c) @
          (case mx_to_send mx' of Some p \<Rightarrow> if hd p = ch then [p] else [] | None \<Rightarrow> []) \<and>
        incoming_totals (mc_statistics c) =
          (of_nat (length (got ch @ spsc_contents items (mc_incoming c))),
           of_nat (sum_list (map (\<lambda>p. length p - 1) (got ch @ spsc_contents items (mc_incoming c))))))"
proof -
  have "routed items rx_gone [] [] None ch c" if "mx_channels mx ch = Some c" for ch c
  proof -
    obtain n where "mc_incoming c = spsc_channel L n" "mc_statistics c = statistics_new" using fresh(2) \<open>mx_channels mx ch = Some c\<close> by blast
    then show ?thesis using spsc_laws.bounded [OF laws]
      by (simp add: routed_def spsc_channel_def spsc_contents_def incoming_totals_def statistics_new_def)
  qed
  then have "mux_inv items rx_gone (mx, [], \<lambda>_. [])" using fresh(1) by (intro mux_invI) simp_all
  from mux_run_inv [OF laws this events(1), where order = order] events(2) fresh(1) obtain mx' acc got where
    r: "mux_run L order (mx, [], \<lambda>_. []) es = Some (mx', acc, got)" "mux_inv items rx_gone (mx', acc, got)"
    "dom (mx_channels mx') = dom (mx_channels mx)" unfolding one_interface_def by blast
  show ?thesis
    using r(1,3) mux_invD(2) [OF r(2)]
    by (intro exI [of _ mx'] exI [of _ acc] exI [of _ got]) (simp add: routed_def Let_def)
qed

definition small_mux :: "(byte list fifo, unit option \<times> unit list) multiplexer" where
  "small_mux = fst (open_channel fifo_lib 3 2 PacketMultiplexer_new)"

lemma small_mux:
  "mx_to_send small_mux = None"
  "mx_channels small_mux = [3 \<mapsto> \<lparr>mc_incoming = spsc_channel fifo_lib 2, mc_outgoing = spsc_channel fifo_lib 2,
     mc_statistics = statistics_new\<rparr>]"
  by (simp_all add: small_mux_def open_channel_def PacketMultiplexer_new_def)

theorem multiplexer_routes_witness:
  "\<exists>mx' acc got. mux_run fifo_lib (\<lambda>_. []) (small_mux, [], \<lambda>_. []) [Mux_try [3, 9], Mux_try [4], Mux_recv 3] =
     Some (mx', acc, got) \<and> dom (mx_channels mx') = {3}"
proof -
  have mx: "\<forall>ch c. mx_channels small_mux ch = Some c \<longrightarrow>
      (\<exists>n. mc_incoming c = spsc_channel fifo_lib n) \<and> mc_statistics c = statistics_new"
    "dom (mx_channels small_mux) = {3}" by (auto simp: small_mux split: if_splits)
  have "\<forall>e\<in>set [Mux_try [3, 9], Mux_try [4], Mux_recv 3 :: unit mux_event]. \<forall>p\<in>set_option (event_packet e). p \<noteq> []"
    "one_interface [Mux_try [3, 9], Mux_try [4], Mux_recv 3 :: unit mux_event]" by (simp_all add: one_interface_def)
  from multiplexer_routes [OF fifo.spsc_laws_axioms small_mux(1) mx(1) this, of "\<lambda>_. []"] mx(2) show ?thesis by blast
qed

text \<open>
  C33: what one multiplexer sends, the other routes back. A packet that an application put on its
  outgoing channel leaves with the number of the channel in its header and is counted; the peer's
  \<open>try_send\<close> puts it, with the same bytes after the header, into the incoming queue of the channel with
  that number, or refuses it: unknown when that channel is not open, full when there is no room.
\<close>

theorem multiplexers_agree:
  assumes laws: "spsc_laws L items room tx_gone rx_gone waiting woken"
    and out: "items (sp_channel (mc_outgoing c)) = packet # rest" "packet \<noteq> []"
    and peer: "mx_channels mx = chans" "\<forall>c'. chans ch = Some c' \<longrightarrow> \<not> rx_gone (sp_channel (mc_incoming c')) \<and> sp_slot (mc_incoming c') = None"
  shows "\<exists>c1 mx' r. ChannelReceiver_poll_next L cx ch c = Some (c1, Ready (Some (ch # tl packet))) \<and>
     items (sp_channel (mc_outgoing c1)) = rest \<and>
     outgoing_packets (mc_statistics c1) = outgoing_packets (mc_statistics c) + 1 \<and>
     outgoing_bytes (mc_statistics c1) = outgoing_bytes (mc_statistics c) + of_nat (length (tl packet)) \<and>
     Incoming_try_send L (ch # tl packet) mx = Some (mx', r) \<and>
     (case chans ch of
        None \<Rightarrow> r = Inl (Incoming_error UnknownPacketChannel) \<and> mx' = mx
      | Some c' \<Rightarrow>
          (if length (items (sp_channel (mc_incoming c'))) < room (sp_channel (mc_incoming c'))
           then r = Inr () \<and> (\<exists>c''. mx_channels mx' = chans(ch \<mapsto> c'') \<and>
             items (sp_channel (mc_incoming c'')) = items (sp_channel (mc_incoming c')) @ [ch # tl packet])
           else r = Inl (IsFull (ch # tl packet)) \<and> mx_channels mx' = chans))"
proof -
  obtain h body where p: "packet = h # body" using out(2) by (cases packet) auto
  obtain s where s: "Receiver_poll_next L id id cx (mc_outgoing c) = (s, Ready (Some packet))" "items (sp_channel s) = rest"
    using spsc_laws.poll_next_quiet [OF laws, of cx "mc_outgoing c"] out(1)
    by (cases rule: spsc_laws.try_recv_cases [OF laws, of "mc_outgoing c"]) auto
  let ?c1 = "c\<lparr>mc_outgoing := s, mc_statistics := mark_outgoing_packet (length body) (mc_statistics c)\<rparr>"
  have c1: "ChannelReceiver_poll_next L cx ch c = Some (?c1, Ready (Some (ch # body)))"
    using s(1) p by (simp add: ChannelReceiver_poll_next_def vec_set_def usize_sub_def)
  have "\<exists>mx' r. Incoming_try_send L (ch # body) mx = Some (mx', r) \<and>
     (case chans ch of
        None \<Rightarrow> r = Inl (Incoming_error UnknownPacketChannel) \<and> mx' = mx
      | Some c' \<Rightarrow>
          (if length (items (sp_channel (mc_incoming c'))) < room (sp_channel (mc_incoming c'))
           then r = Inr () \<and> (\<exists>c''. mx_channels mx' = chans(ch \<mapsto> c'') \<and>
             items (sp_channel (mc_incoming c'')) = items (sp_channel (mc_incoming c')) @ [ch # body])
           else r = Inl (IsFull (ch # body)) \<and> mx_channels mx' = chans))"
  proof (cases "chans ch")
    case None
    then show ?thesis using peer(1) by (simp add: Incoming_try_send_def vec_get_def)
  next
    case (Some c')
    then have c': "\<not> rx_gone (sp_channel (mc_incoming c'))" "sp_slot (mc_incoming c') = None" using peer(2) by auto
    have same: "chans(ch \<mapsto> c') = chans" using Some by auto
    show ?thesis
      by (cases rule: spsc_laws.push_cases [OF laws, of "mc_incoming c'" "ch # body"])
        (use Some peer(1) c' same in \<open>auto simp: Incoming_try_send_def Sender_try_send_def vec_get_def usize_sub_def\<close>)
  qed
  then obtain mx' r where t: "Incoming_try_send L (ch # body) mx = Some (mx', r)" "case chans ch of
        None \<Rightarrow> r = Inl (Incoming_error UnknownPacketChannel) \<and> mx' = mx
      | Some c' \<Rightarrow>
          (if length (items (sp_channel (mc_incoming c'))) < room (sp_channel (mc_incoming c'))
           then r = Inr () \<and> (\<exists>c''. mx_channels mx' = chans(ch \<mapsto> c'') \<and>
             items (sp_channel (mc_incoming c'')) = items (sp_channel (mc_incoming c')) @ [ch # body])
           else r = Inl (IsFull (ch # body)) \<and> mx_channels mx' = chans)" by blast
  have body: "tl packet = body" using p by simp
  show ?thesis
    unfolding body by (intro exI [of _ ?c1] exI [of _ mx'] exI [of _ r] conjI;
        (rule c1 t | simp add: mark_outgoing_packet_def s(2)))
qed

theorem multiplexers_agree_witness:
  "\<exists>c1 mx'. ChannelReceiver_poll_next fifo_lib () 3
       \<lparr>mc_incoming = spsc_channel fifo_lib 1, mc_outgoing = (spsc_channel fifo_lib 1)\<lparr>sp_channel :=
          \<lparr>fq_items = [[0, 8]], fq_room = 1, fq_tx_gone = False, fq_rx_gone = False\<rparr>\<rparr>, mc_statistics = statistics_new\<rparr> =
       Some (c1, Ready (Some [3, 8])) \<and>
     Incoming_try_send fifo_lib [3, 8] small_mux = Some (mx', Inr ())"
proof -
  let ?c = "\<lparr>mc_incoming = spsc_channel fifo_lib 1, mc_outgoing = (spsc_channel fifo_lib 1)\<lparr>sp_channel :=
      \<lparr>fq_items = [[0, 8]], fq_room = 1, fq_tx_gone = False, fq_rx_gone = False\<rparr>\<rparr>, mc_statistics = statistics_new\<rparr>"
  let ?c' = "\<lparr>mc_incoming = spsc_channel fifo_lib 2, mc_outgoing = spsc_channel fifo_lib 2, mc_statistics = statistics_new\<rparr>"
  have a: "fq_items (sp_channel (mc_outgoing ?c)) = [0, 8] # []" "[0, 8 :: byte] \<noteq> []"
    "\<forall>c'. [3 \<mapsto> ?c'] 3 = Some c' \<longrightarrow> \<not> fq_rx_gone (sp_channel (mc_incoming c')) \<and> sp_slot (mc_incoming c') = None"
    by (simp_all add: spsc_channel_def fifo.bounded)
  have room: "length (fq_items (sp_channel (spsc_channel fifo_lib 2))) < fq_room (sp_channel (spsc_channel fifo_lib 2))"
    by (simp add: spsc_channel_def fifo.bounded)
  from multiplexers_agree [OF fifo.spsc_laws_axioms a(1,2) small_mux(2) a(3), of "()"] show ?thesis
    by (auto simp: room)
qed

end
