(* ===== verification/Byte_Stream.thy ===== *)
theory Byte_Stream
  imports Reliable_Network "HOL-Library.Sublist"
begin

text \<open>
  The reliable channel as the byte stream that the message channels use.

  The loops that push a buffer into a channel and fill a buffer from it are the same in
  \<open>reliable_bincode_channel.rs\<close> and \<open>compressed_bincode_channel.rs\<close>; they take the polls of the channel as
  arguments. A loop that never ended would have the value \<open>None\<close>. The locales \<open>byte_sink\<close> and
  \<open>byte_source\<close> state what the loops rely on: a poll with data takes a nonempty prefix or waits, and a
  poll with room yields a nonempty piece of the stream or waits. From this the loops return and
  transport the bytes. A reliable channel that is one end of a network provides both, as long as the
  stream does not exceed the bound \<open>M\<close> of the network.
\<close>

type_synonym 'c poll_writer = "'c \<Rightarrow> byte list \<Rightarrow> ('c \<times> (rel_error + nat) poll) option"
type_synonym 'c poll_reader = "'c \<Rightarrow> byte list \<Rightarrow> ('c \<times> byte list \<times> (rel_error + nat) poll) option"

lemma prefix_same_length: "prefix xs ys \<Longrightarrow> length xs = length ys \<Longrightarrow> xs = ys"
  by (auto simp: prefix_def)

text \<open>\<open>while write_pos < write_buffer.len()\<close>: the loop of \<open>poll_finish_write\<close>.\<close>

partial_function (option) finish_write ::
  "'c poll_writer \<Rightarrow> 'c \<Rightarrow> byte list \<Rightarrow> nat \<Rightarrow> ('c \<times> nat \<times> (rel_error + unit) poll) option" where
  "finish_write wr c buf pos =
     (if pos < length buf then do {
        data \<leftarrow> slice buf pos (length buf);
        (c, r) \<leftarrow> wr c data;
        (case r of
           Pending \<Rightarrow> Some (c, pos, Pending)
         | Ready (Inl e) \<Rightarrow> Some (c, pos, Ready (Inl e))
         | Ready (Inr len) \<Rightarrow> do { pos \<leftarrow> usize_add pos len; finish_write wr c buf pos })
      } else Some (c, pos, Ready (Inr ())))"

text \<open>\<open>while read_pos < read_buffer.len()\<close>: the loop of \<open>poll_finish_read\<close>.\<close>

partial_function (option) finish_read ::
  "'c poll_reader \<Rightarrow> 'c \<Rightarrow> byte list \<Rightarrow> nat \<Rightarrow> ('c \<times> byte list \<times> nat \<times> (rel_error + unit) poll) option" where
  "finish_read rd c buf pos =
     (if pos < length buf then do {
        data \<leftarrow> slice buf pos (length buf);
        (c, data, r) \<leftarrow> rd c data;
        let buf = take pos buf @ data;
        (case r of
           Pending \<Rightarrow> Some (c, buf, pos, Pending)
         | Ready (Inl e) \<Rightarrow> Some (c, buf, pos, Ready (Inl e))
         | Ready (Inr len) \<Rightarrow> do { pos \<leftarrow> usize_add pos len; finish_read rd c buf pos })
      } else Some (c, buf, pos, Ready (Inr ())))"

subsection \<open>The sink\<close>

text \<open>
  \<open>accepts c xs\<close>: the channel \<open>c\<close> has taken the bytes \<open>xs\<close> so far; \<open>room c\<close> is what it can take at once.
\<close>

locale byte_sink =
  fixes wr :: "'c poll_writer"
    and flush :: "'c \<Rightarrow> 'c \<times> (rel_error + unit)"
    and accepts :: "'c \<Rightarrow> byte list \<Rightarrow> bool"
    and room :: "'c \<Rightarrow> nat"
    and M :: nat
  assumes write_law: "accepts c xs \<Longrightarrow> data \<noteq> [] \<Longrightarrow> length xs + length data \<le> M \<Longrightarrow> n = min (length data) (room c) \<Longrightarrow>
    \<exists>c'. wr c data = Some (c', if n = 0 then Pending else Ready (Inr n)) \<and>
      accepts c' (xs @ take n data) \<and> room c' = room c - n"
    and flush_law: "accepts c xs \<Longrightarrow> \<exists>c'. flush c = (c', Inr ()) \<and> accepts c' xs"
begin

lemma finish_write_returns:
  assumes "accepts c xs" and "pos \<le> length buf" and "length buf \<le> usize_max" and "length xs + length (drop pos buf) \<le> M"
    and "n = min (length buf - pos) (room c)"
  shows "\<exists>c'. finish_write wr c buf pos =
       Some (c', pos + n, if pos + n = length buf then Ready (Inr ()) else Pending) \<and>
     accepts c' (xs @ take n (drop pos buf)) \<and> room c' = room c - n"
  using assms
proof (induction "length buf - pos" arbitrary: c xs pos n rule: less_induct)
  case less
  show ?case
  proof (cases "pos < length buf")
    case False
    then have "finish_write wr c buf pos = Some (c, pos, Ready (Inr ()))" by (simp add: finish_write.simps [of wr c buf pos])
    moreover have "pos = length buf" "n = 0" using False less.prems(2,5) by simp_all
    ultimately show ?thesis using less.prems(1) by simp
  next
    case True
    then have data: "slice buf pos (length buf) = Some (drop pos buf)" "drop pos buf \<noteq> []" by (simp_all add: slice_def)
    have n: "n = min (length (drop pos buf)) (room c)" using less.prems(5) by simp
    from write_law [OF less.prems(1) data(2) less.prems(4) n] obtain c1 where
      w: "wr c (drop pos buf) = Some (c1, if n = 0 then Pending else Ready (Inr n))"
      "accepts c1 (xs @ take n (drop pos buf))" "room c1 = room c - n" by blast
    show ?thesis
    proof (cases "n = 0")
      case n0: True
      then show ?thesis using True data(1) w by (simp add: finish_write.simps [of wr c buf pos])
    next
      case False
      have le: "pos + n \<le> length buf" using n True by simp
      have p: "length buf - (pos + n) < length buf - pos" using False True by simp
      have m: "length (xs @ take n (drop pos buf)) + length (drop (pos + n) buf) \<le> M" using n less.prems(4) by simp
      have z: "0 = min (length buf - (pos + n)) (room c1)" unfolding w(3) n length_drop by linarith
      from less.hyps [OF p w(2) le less.prems(3) m z] w(3) show ?thesis
        using True data(1) w(1) False le less.prems(3)
        by (simp add: finish_write.simps [of wr c buf pos] usize_add_def)
    qed
  qed
qed

end

subsection \<open>The source\<close>

text \<open>
  \<open>yields c xs b\<close>: of the stream \<open>xs\<close>, the channel \<open>c\<close> has handed out the first \<open>b\<close> bytes so far; \<open>avail c\<close>
  more can be read at once.
\<close>

locale byte_source =
  fixes rd :: "'c poll_reader"
    and yields :: "'c \<Rightarrow> byte list \<Rightarrow> nat \<Rightarrow> bool"
    and avail :: "'c \<Rightarrow> nat"
  assumes read_law: "yields c xs b \<Longrightarrow> data \<noteq> [] \<Longrightarrow> n = min (length data) (avail c) \<Longrightarrow>
    \<exists>c'. rd c data = Some (c', take n (drop b xs) @ drop n data, if n = 0 then Pending else Ready (Inr n)) \<and>
      yields c' xs (b + n) \<and> avail c' = avail c - n"
    and within_stream: "yields c xs b \<Longrightarrow> b + avail c \<le> length xs"
begin

text \<open>The part of the buffer before the position is kept, and what is added is the next piece of the stream.\<close>

lemma finish_read_returns:
  assumes "yields c xs b" and "pos \<le> length buf" and "length buf \<le> usize_max"
    and "n = min (length buf - pos) (avail c)"
  shows "\<exists>c'. finish_read rd c buf pos =
       Some (c', take pos buf @ take n (drop b xs) @ drop (pos + n) buf, pos + n,
         if pos + n = length buf then Ready (Inr ()) else Pending) \<and>
     yields c' xs (b + n) \<and> avail c' = avail c - n"
  using assms
proof (induction "length buf - pos" arbitrary: c b pos buf n rule: less_induct)
  case less
  show ?case
  proof (cases "pos < length buf")
    case False
    then have "finish_read rd c buf pos = Some (c, buf, pos, Ready (Inr ()))" by (simp add: finish_read.simps [of rd c buf pos])
    moreover have "pos = length buf" "n = 0" using False less.prems(2,4) by simp_all
    ultimately show ?thesis using less.prems(1) by simp
  next
    case True
    then have data: "slice buf pos (length buf) = Some (drop pos buf)" "drop pos buf \<noteq> []" by (simp_all add: slice_def)
    have n: "n = min (length (drop pos buf)) (avail c)" using less.prems(4) by simp
    from read_law [OF less.prems(1) data(2) n] obtain c1 where
      w: "rd c (drop pos buf) = Some (c1, take n (drop b xs) @ drop (pos + n) buf, if n = 0 then Pending else Ready (Inr n))"
      "yields c1 xs (b + n)" "avail c1 = avail c - n" by (auto simp: add.commute)
    show ?thesis
    proof (cases "n = 0")
      case n0: True
      then show ?thesis using True data(1) w by (simp add: finish_read.simps [of rd c buf pos] Let_def)
    next
      case False
      let ?buf = "take pos buf @ take n (drop b xs) @ drop (pos + n) buf"
      have got: "length (take n (drop b xs)) = n" using within_stream [OF less.prems(1)] n by simp
      then have len: "length ?buf = length buf" using n True unfolding length_append length_take length_drop by linarith
      have p: "length ?buf - (pos + n) < length buf - pos" "pos + n \<le> length ?buf" "length ?buf \<le> usize_max"
        "0 = min (length ?buf - (pos + n)) (avail c1)"
        using False True n len less.prems(3) w(3) by (auto simp: min_def)
      have keep: "take (pos + n) ?buf @ drop (pos + n) ?buf = ?buf" by (rule append_take_drop_id)
      from less.hyps [OF p(1) w(2) p(2,3,4)] w(3) show ?thesis
        using True data(1) w(1) False p(2) len less.prems(3) keep
        by (simp add: finish_read.simps [of rd c buf pos] usize_add_def Let_def)
    qed
  qed
qed

text \<open>
  Filling a buffer of \<open>n\<close> bytes. The stream continues after the part \<open>done\<close> with \<open>rest\<close>, of which the
  buffer holds the first bytes; afterwards it holds more of them.
\<close>

lemma fill_returns:
  assumes y: "yields c xs (length done + pos)" and pre: "prefix xs (done @ rest)"
    and buf: "pos \<le> length buf" "prefix (take pos buf) rest" and n: "pos \<le> n" "n \<le> usize_max"
    and pos': "pos' = min n (pos + avail c)"
  shows "\<exists>c' buf'. finish_read rd c (vec_resize buf n 0) pos =
       Some (c', buf', pos', if pos' = n then Ready (Inr ()) else Pending) \<and>
     length buf' = n \<and> yields c' xs (length done + pos') \<and> avail c' = avail c - (pos' - pos) \<and> prefix (take pos' buf') rest"
proof -
  let ?buf = "vec_resize buf n 0" and ?b = "length done + pos"
  define k where "k = min (n - pos) (avail c)"
  have k: "pos + k = pos'" "pos' - pos = k" using n(1) by (auto simp: k_def pos')
  have keep: "take pos ?buf = take pos buf" using buf(1) n(1) by (simp add: vec_resize_def min_def)
  have "pos \<le> length ?buf" "length ?buf \<le> usize_max" "k = min (length ?buf - pos) (avail c)" using n by (simp_all add: k_def)
  from finish_read_returns [OF y this] obtain c' where
    f: "finish_read rd c ?buf pos = Some (c', take pos buf @ take k (drop ?b xs) @ drop pos' ?buf, pos',
         if pos' = n then Ready (Inr ()) else Pending)"
    "yields c' xs (length done + pos')" "avail c' = avail c - k"
    unfolding keep k(1) by (auto simp: add.assoc k(1))
  have b: "?b + k \<le> length xs" using within_stream [OF y] by (simp add: k_def)
  obtain z where z: "rest = take pos buf @ z" using buf(2) by (auto simp: prefix_def)
  obtain ys where ys: "xs @ ys = (done @ take pos buf) @ z" using pre z by (auto simp: prefix_def)
  have "drop ?b xs @ ys = drop ?b (xs @ ys)" using b by simp
  also have "\<dots> = z" unfolding ys using buf(1) by simp
  finally have "prefix (take k (drop ?b xs)) z"
    by (metis prefixI take_is_prefix prefix_order.trans)
  moreover have "length (take k (drop ?b xs)) = k" using b by simp
  ultimately have "prefix (take pos' (take pos buf @ take k (drop ?b xs) @ drop pos' ?buf)) rest"
    unfolding z using buf(1) k(1) by (simp flip: k(1))
  moreover have "length (take pos buf @ take k (drop ?b xs) @ drop pos' ?buf) = n"
    using b buf(1) k n(1) by (simp add: pos')
  ultimately show ?thesis using f k(2) by auto
qed

end

subsection \<open>The end of a network\<close>

text \<open>The channel \<open>c\<close> is at the first end of a network, where the rest of the state is that of \<open>A\<close> and \<open>B\<close>.\<close>

definition net_accepts ::
  "'i timer \<Rightarrow> 'i timer \<Rightarrow> nat \<Rightarrow> nat \<Rightarrow> 'i endpoint \<Rightarrow> 'i endpoint \<Rightarrow> 'i reliable_channel \<Rightarrow> byte list \<Rightarrow> bool" where
  "net_accepts tmA tmB M N A B c xs \<longleftrightarrow> net_inv tmA tmB M N (A\<lparr>chan := c, accepted := xs\<rparr>) B"

definition net_yields ::
  "'i timer \<Rightarrow> 'i timer \<Rightarrow> nat \<Rightarrow> nat \<Rightarrow> 'i endpoint \<Rightarrow> 'i endpoint \<Rightarrow> 'i reliable_channel \<Rightarrow> byte list \<Rightarrow> nat \<Rightarrow> bool" where
  "net_yields tmA tmB M N A B c xs b \<longleftrightarrow> xs = accepted B \<and> b \<le> length xs \<and>
     net_inv tmA tmB M N (A\<lparr>chan := c, delivered := take b xs\<rparr>) B"

interpretation net_sink: byte_sink "poll_write id" ReliableChannel_flush "net_accepts tmA tmB M N A B" write_room M
  for tmA tmB M N and A :: "'i endpoint" and B
proof unfold_locales
  fix c :: "'i reliable_channel" and xs data :: "byte list" and n
  assume a: "net_accepts tmA tmB M N A B c xs" and ne: "data \<noteq> []" and M: "length xs + length data \<le> M"
    and n: "n = min (length data) (write_room c)"
  let ?A = "A\<lparr>chan := c, accepted := xs\<rparr>"
  have "net_inv tmA tmB M N ?A B" "length (accepted ?A) + length data \<le> M" "n = min (length data) (write_room (chan ?A))"
    using a M n by (simp_all add: net_accepts_def)
  from net_poll_write [OF this] ne
  show "\<exists>c'. poll_write id c data = Some (c', if n = 0 then Pending else Ready (Inr n)) \<and>
      net_accepts tmA tmB M N A B c' (xs @ take n data) \<and> write_room c' = write_room c - n"
    by (auto simp: net_accepts_def)
next
  fix c :: "'i reliable_channel" and xs :: "byte list"
  assume "net_accepts tmA tmB M N A B c xs"
  moreover have eq: "A\<lparr>chan := ch, accepted := xs\<rparr> = A\<lparr>accepted := xs, chan := ch\<rparr>" for ch by simp
  ultimately have "net_inv tmA tmB M N (A\<lparr>accepted := xs, chan := c\<rparr>) B" unfolding net_accepts_def by metis
  from net_flush [OF this] show "\<exists>c'. ReliableChannel_flush c = (c', Inr ()) \<and> net_accepts tmA tmB M N A B c' xs"
    unfolding net_accepts_def eq by simp
qed

lemma net_readable:
  assumes "net_inv tmA tmB M N A B"
  shows "length (delivered A) + readable (chan A) \<le> length (accepted B)"
proof -
  obtain U rs P qs where f: "flow tmB B A U rs P qs" using assms unfolding net_inv_def by blast
  show ?thesis using flow_bounds(1,2) [OF f] flowD(9) [OF f] by (simp add: readable_def)
qed

interpretation net_source: byte_source "poll_read id" "net_yields tmA tmB M N A B" readable
  for tmA tmB M N and A :: "'i endpoint" and B
proof unfold_locales
  fix c :: "'i reliable_channel" and xs data :: "byte list" and b n
  assume y: "net_yields tmA tmB M N A B c xs b" and ne: "data \<noteq> []" and n: "n = min (length data) (readable c)"
  let ?A = "A\<lparr>chan := c, delivered := take b xs\<rparr>"
  have i: "net_inv tmA tmB M N ?A B" "length (delivered ?A) = b" and xs: "accepted B = xs"
    and n': "n = min (length data) (readable (chan ?A))" using y n unfolding net_yields_def by auto
  from net_poll_read [OF i(1) n', unfolded i(2) xs] obtain ch where
    r: "b + n \<le> length xs" "readable ch = readable c - n"
    "poll_read id c data = Some (ch, take n (drop b xs) @ drop n data, if n = 0 then Pending else Ready (Inr n))"
    "net_inv tmA tmB M N (?A\<lparr>chan := ch, delivered := take b xs @ take n (drop b xs)\<rparr>) B" using ne by auto
  have "net_yields tmA tmB M N A B ch xs (b + n)" using r(1,4) xs by (simp add: net_yields_def take_add)
  then show "\<exists>c'. poll_read id c data = Some (c', take n (drop b xs) @ drop n data, if n = 0 then Pending else Ready (Inr n)) \<and>
      net_yields tmA tmB M N A B c' xs (b + n) \<and> readable c' = readable c - n"
    using r by blast
next
  fix c :: "'i reliable_channel" and xs :: "byte list" and b
  assume "net_yields tmA tmB M N A B c xs b"
  then have "net_inv tmA tmB M N (A\<lparr>chan := c, delivered := take b xs\<rparr>) B" "b \<le> length xs" "xs = accepted B"
    unfolding net_yields_def by blast+
  with net_readable [OF this(1)] show "b + readable c \<le> length xs" by (auto simp: min_def split: if_splits)
qed

end
