(* ===== verification/Message_Stream.thy ===== *)
theory Message_Stream
  imports Byte_Stream
begin

text \<open>
  Message channels over a reliable channel, and what they promise end to end.

  The record \<open>message_channel\<close> is the trait \<open>MessageBincodeChannel\<close> of \<open>message_channels.rs\<close>. Two ends
  of such a channel are run over the network of \<open>Reliable_Network\<close>: the applications send, flush and
  receive messages, and the tasks of the reliable channels take their rounds in between.

  The locale \<open>message_stream\<close> is the contract of a message channel: it writes a sequence of units to the
  stream, each of which carries some messages, and reads them back. Under the contract every run
  returns, no operation fails, each application receives a prefix of the messages that the other sent,
  and when nothing is left to send and to read it has received all of them.
\<close>

record ('c, 'm, 'e) message_channel =
  mc_poll_recv :: "'c \<Rightarrow> ('c \<times> ('e + 'm) poll) option"
  mc_poll_send :: "'m \<Rightarrow> 'c \<Rightarrow> ('c \<times> ('e + unit) poll) option"
  mc_poll_flush :: "'c \<Rightarrow> ('c \<times> ('e + unit) poll) option"

subsection \<open>Runs\<close>

record ('c, 'm, 'e) msg_endpoint =
  conn :: 'c
  sent_msgs :: "'m list"
  got_msgs :: "('e + 'm) list"
  failures :: "'e list"

datatype 'm msg_event = Msg_send 'm | Msg_flush | Msg_recv | Msg_round round_event

definition poll_failures :: "('e + unit) poll \<Rightarrow> 'e list" where
  "poll_failures r = (case r of Ready (Inl e) \<Rightarrow> [e] | _ \<Rightarrow> [])"

fun msg_step ::
  "('c, 'm, 'e) message_channel \<Rightarrow> ('c \<Rightarrow> 'i reliable_channel) \<Rightarrow> ('i reliable_channel \<Rightarrow> 'c \<Rightarrow> 'c) \<Rightarrow>
   'i timer \<Rightarrow> visit_order \<Rightarrow> byte list list \<Rightarrow> ('c, 'm, 'e) msg_endpoint \<Rightarrow> 'm msg_event \<Rightarrow>
   ('c, 'm, 'e) msg_endpoint option" where
  "msg_step T get put tm visit inbox ep (Msg_send m) = do {
     (c, r) \<leftarrow> mc_poll_send T m (conn ep);
     Some (ep\<lparr>conn := c, sent_msgs := sent_msgs ep @ (case r of Ready (Inr _) \<Rightarrow> [m] | _ \<Rightarrow> []),
       failures := failures ep @ poll_failures r\<rparr>)
   }"
| "msg_step T get put tm visit inbox ep Msg_flush = do {
     (c, r) \<leftarrow> mc_poll_flush T (conn ep);
     Some (ep\<lparr>conn := c, failures := failures ep @ poll_failures r\<rparr>)
   }"
| "msg_step T get put tm visit inbox ep Msg_recv = do {
     (c, r) \<leftarrow> mc_poll_recv T (conn ep);
     Some (ep\<lparr>conn := c, got_msgs := got_msgs ep @ (case r of Ready x \<Rightarrow> [x] | Pending \<Rightarrow> [])\<rparr>)
   }"
| "msg_step T get put tm visit inbox ep (Msg_round ev) = do {
     ch \<leftarrow> channel_event tm visit inbox (get (conn ep)) ev;
     Some (ep\<lparr>conn := put ch (conn ep)\<rparr>)
   }"

fun msg_run ::
  "('c, 'm, 'e) message_channel \<Rightarrow> ('c \<Rightarrow> 'i reliable_channel) \<Rightarrow> ('i reliable_channel \<Rightarrow> 'c \<Rightarrow> 'c) \<Rightarrow>
   'i timer \<Rightarrow> 'i timer \<Rightarrow> visit_order \<Rightarrow> ('c, 'm, 'e) msg_endpoint \<Rightarrow> ('c, 'm, 'e) msg_endpoint \<Rightarrow>
   (bool \<times> 'm msg_event) list \<Rightarrow> (('c, 'm, 'e) msg_endpoint \<times> ('c, 'm, 'e) msg_endpoint) option" where
  "msg_run T get put tmA tmB visit A B [] = Some (A, B)"
| "msg_run T get put tmA tmB visit A B ((True, ev) # es) = do {
     A \<leftarrow> msg_step T get put tmA visit (outgoing (task (get (conn B)))) A ev;
     msg_run T get put tmA tmB visit A B es
   }"
| "msg_run T get put tmA tmB visit A B ((False, ev) # es) = do {
     B \<leftarrow> msg_step T get put tmB visit (outgoing (task (get (conn A)))) B ev;
     msg_run T get put tmA tmB visit A B es
   }"

definition msg_start :: "'c \<Rightarrow> ('c, 'm, 'e) msg_endpoint" where
  "msg_start c = \<lparr>conn = c, sent_msgs = [], got_msgs = [], failures = []\<rparr>"

fun event_msgs :: "bool \<Rightarrow> (bool \<times> 'm msg_event) list \<Rightarrow> 'm list" where
  "event_msgs side [] = []"
| "event_msgs side ((s, Msg_send m) # es) = (if s = side then [m] else []) @ event_msgs side es"
| "event_msgs side (_ # es) = event_msgs side es"

definition event_msg :: "'m msg_event \<Rightarrow> 'm list" where
  "event_msg ev = (case ev of Msg_send m \<Rightarrow> [m] | _ \<Rightarrow> [])"

lemma event_msg_simps [simp]:
  "event_msg (Msg_send m) = [m]" "event_msg Msg_flush = []" "event_msg Msg_recv = []" "event_msg (Msg_round r) = []"
  by (simp_all add: event_msg_def)

lemma event_msgs_Cons [simp]: "event_msgs side (e # es) = (if fst e = side then event_msg (snd e) else []) @ event_msgs side es"
  by (cases e; cases "snd e") auto

subsection \<open>The contract\<close>

text \<open>
  How a channel codes messages: the units and their bytes and messages, the bytes that wait in the
  channel, and the states of the two directions. \<open>cd_sends c us ms\<close>: the messages \<open>ms\<close> were taken and
  the units \<open>us\<close> formed. \<open>cd_reads c us b ns\<close>: of the stream of the units \<open>us\<close>, the first \<open>b\<close> bytes were
  consumed and the messages \<open>ns\<close> returned. A message adds at most its cost to the stream.
\<close>

record ('i, 'c, 'm, 'u) message_coding =
  cd_new :: "'i reliable_channel \<Rightarrow> 'c"
  cd_get :: "'c \<Rightarrow> 'i reliable_channel"
  cd_put :: "'i reliable_channel \<Rightarrow> 'c \<Rightarrow> 'c"
  cd_good :: "'m \<Rightarrow> bool"
  cd_cost :: "'m \<Rightarrow> nat"
  cd_valid :: "'u \<Rightarrow> bool"
  cd_bytes :: "'u \<Rightarrow> byte list"
  cd_msgs :: "'u \<Rightarrow> 'm list"
  cd_pending :: "'c \<Rightarrow> byte list"
  cd_idle :: "'c \<Rightarrow> bool"
  cd_sends :: "'c \<Rightarrow> 'u list \<Rightarrow> 'm list \<Rightarrow> bool"
  cd_reads :: "'c \<Rightarrow> 'u list \<Rightarrow> nat \<Rightarrow> 'm list \<Rightarrow> bool"

definition unit_stream :: "('i, 'c, 'm, 'u) message_coding \<Rightarrow> 'u list \<Rightarrow> byte list" where
  "unit_stream C us = concat (map (cd_bytes C) us)"

definition unit_msgs :: "('i, 'c, 'm, 'u) message_coding \<Rightarrow> 'u list \<Rightarrow> 'm list" where
  "unit_msgs C us = concat (map (cd_msgs C) us)"

lemma unit_simps [simp]:
  "unit_stream C [] = []" "unit_stream C (u # us) = cd_bytes C u @ unit_stream C us"
  "unit_stream C (us @ vs) = unit_stream C us @ unit_stream C vs"
  "unit_msgs C [] = []" "unit_msgs C (u # us) = cd_msgs C u @ unit_msgs C us"
  "unit_msgs C (us @ vs) = unit_msgs C us @ unit_msgs C vs"
  by (simp_all add: unit_stream_def unit_msgs_def)

definition msgs_cost :: "('i, 'c, 'm, 'u) message_coding \<Rightarrow> 'm list \<Rightarrow> nat" where
  "msgs_cost C ms = sum_list (map (cd_cost C) ms)"

lemma msgs_cost_simps [simp]:
  "msgs_cost C [] = 0" "msgs_cost C (m # ms) = cd_cost C m + msgs_cost C ms"
  "msgs_cost C (ms @ ns) = msgs_cost C ms + msgs_cost C ns"
  by (simp_all add: msgs_cost_def)

text \<open>The units whose bytes lie completely in the first \<open>b\<close> bytes of the stream.\<close>

fun units_within :: "('i, 'c, 'm, 'u) message_coding \<Rightarrow> 'u list \<Rightarrow> nat \<Rightarrow> 'u list" where
  "units_within C [] b = []"
| "units_within C (u # us) b =
     (if length (cd_bytes C u) \<le> b then u # units_within C us (b - length (cd_bytes C u)) else [])"

lemma units_within_all: "length (unit_stream C us) \<le> b \<Longrightarrow> units_within C us b = us"
  by (induction us arbitrary: b) auto

lemma units_within_append:
  "units_within C (us @ vs) (length (unit_stream C us) + b) = us @ units_within C vs b"
  by (induction us) auto

lemma units_within_incomplete:
  assumes "\<And>u rs. rest = u # rs \<Longrightarrow> pos < length (cd_bytes C u)"
  shows "units_within C (us @ rest) (length (unit_stream C us) + pos) = us"
  unfolding units_within_append using assms by (cases rest) simp_all

text \<open>Reading up to \<open>n\<close> bytes of the unit after \<open>us\<close>, of which the buffer holds \<open>pos\<close> bytes.\<close>

lemma unit_fill:
  assumes src: "byte_source (poll_read id) yields readable" and pre: "prefix xs (unit_stream C (us @ rest))"
    and y: "yields ch xs (length (unit_stream C us) + pos)"
    and buf: "pos \<le> length buf" "prefix (take pos buf) (unit_stream C (take 1 rest))" and n: "pos \<le> n" "n \<le> usize_max"
    and fit: "\<And>u rs. rest = u # rs \<Longrightarrow> n \<le> length (cd_bytes C u)"
  shows "\<exists>c buf' pos'. finish_read (poll_read id) ch (vec_resize buf n 0) pos =
       Some (c, buf', pos', if pos' = n then Ready (Inr ()) else Pending) \<and> pos' \<le> n \<and> length buf' = n \<and>
     yields c xs (length (unit_stream C us) + pos') \<and> prefix (take pos' buf') (unit_stream C (take 1 rest)) \<and>
     (pos' \<noteq> n \<longrightarrow> readable c = 0)"
proof -
  have "prefix (unit_stream C (take 1 rest)) (unit_stream C rest)" by (cases rest) simp_all
  then have p: "prefix (take pos buf) (unit_stream C rest)" using buf(2) by (rule prefix_order.trans [rotated])
  have xs: "prefix xs (unit_stream C us @ unit_stream C rest)" using pre by simp
  define pos' where "pos' = min n (pos + readable ch)"
  from byte_source.fill_returns [OF src y xs buf(1) p n pos'_def] obtain c buf' where
    f: "finish_read (poll_read id) ch (vec_resize buf n 0) pos =
       Some (c, buf', pos', if pos' = n then Ready (Inr ()) else Pending)"
    "length buf' = n" "yields c xs (length (unit_stream C us) + pos')"
    "readable c = readable ch - (pos' - pos)" "prefix (take pos' buf') (unit_stream C rest)" by blast
  have le: "pos' \<le> n" by (simp add: pos'_def)
  have "prefix (take pos' buf') (unit_stream C (take 1 rest))"
  proof (cases rest)
    case (Cons u rs)
    have "prefix (take pos' buf') (cd_bytes C u @ unit_stream C rs)" using f(5) Cons by simp
    moreover have "length (take pos' buf') \<le> length (cd_bytes C u)" using f(2) fit [OF Cons] le by simp
    ultimately have "prefix (take pos' buf') (cd_bytes C u)"
      using prefix_length_prefix [OF _ prefixI [OF refl]] by blast
    then show ?thesis using Cons by simp
  qed (use f(5) in simp)
  moreover have "readable c = 0" if "pos' \<noteq> n" using that f(4) n(1) by (auto simp: pos'_def)
  ultimately show ?thesis using f(1-3) le by blast
qed

locale message_stream =
  fixes T :: "('c, 'm, 'e) message_channel" and C :: "('i, 'c, 'm, 'u) message_coding"
  assumes get_put: "cd_get C (cd_put C ch c) = ch" "cd_pending C (cd_put C ch c) = cd_pending C c"
      "cd_sends C (cd_put C ch c) = cd_sends C c" "cd_reads C (cd_put C ch c) = cd_reads C c"
    and new_law: "cd_get C (cd_new C ch) = ch" "cd_pending C (cd_new C ch) = []"
      "cd_sends C (cd_new C ch) [] []" "cd_reads C (cd_new C ch) [] 0 []"
    and sends_law: "cd_sends C c us ms \<Longrightarrow> prefix (unit_msgs C us) ms \<and> length (unit_stream C us) \<le> msgs_cost C ms \<and>
      (\<forall>u\<in>set us. cd_valid C u)"
    and idle_law: "cd_sends C c us ms \<Longrightarrow> cd_idle C c \<Longrightarrow> cd_pending C c = [] \<and> unit_msgs C us = ms"
    and reads_law: "cd_reads C c us b ns \<Longrightarrow> prefix ns (unit_msgs C us) \<and> cd_reads C c (us @ vs) b ns"
    and send_law: "byte_sink (poll_write id) ReliableChannel_flush accepts write_room M \<Longrightarrow> accepts (cd_get C c) xs \<Longrightarrow>
      cd_sends C c us ms \<Longrightarrow> xs @ cd_pending C c = unit_stream C us \<Longrightarrow> cd_good C m \<Longrightarrow> msgs_cost C (ms @ [m]) \<le> M \<Longrightarrow>
      \<exists>c' r xs' vs ms'. mc_poll_send T m c = Some (c', r) \<and> accepts (cd_get C c') xs' \<and> cd_sends C c' (us @ vs) ms' \<and>
        xs' @ cd_pending C c' = unit_stream C (us @ vs) \<and> cd_reads C c' = cd_reads C c \<and>
        (r = Pending \<and> ms' = ms \<or> r = Ready (Inr ()) \<and> ms' = ms @ [m])"
    and flush_law: "byte_sink (poll_write id) ReliableChannel_flush accepts write_room M \<Longrightarrow> accepts (cd_get C c) xs \<Longrightarrow>
      cd_sends C c us ms \<Longrightarrow> xs @ cd_pending C c = unit_stream C us \<Longrightarrow> msgs_cost C ms \<le> M \<Longrightarrow>
      \<exists>c' r xs' vs. mc_poll_flush T c = Some (c', r) \<and> accepts (cd_get C c') xs' \<and> cd_sends C c' (us @ vs) ms \<and>
        xs' @ cd_pending C c' = unit_stream C (us @ vs) \<and> cd_reads C c' = cd_reads C c \<and>
        (r = Pending \<or> r = Ready (Inr ()) \<and> cd_idle C c')"
    and recv_law: "byte_source (poll_read id) yields readable \<Longrightarrow> yields (cd_get C c) xs b \<Longrightarrow>
      prefix xs (unit_stream C us) \<Longrightarrow> \<forall>u\<in>set us. cd_valid C u \<Longrightarrow> cd_reads C c us b ns \<Longrightarrow>
      \<exists>c' r b' ns'. mc_poll_recv T c = Some (c', r) \<and> yields (cd_get C c') xs b' \<and> cd_reads C c' us b' ns' \<and>
        cd_pending C c' = cd_pending C c \<and> cd_sends C c' = cd_sends C c \<and>
        (r = Pending \<and> ns' = ns \<and> readable (cd_get C c') = 0 \<and> ns = unit_msgs C (units_within C us b') \<or>
         (\<exists>m. r = Ready (Inr m) \<and> ns' = ns @ [m]))"

subsection \<open>End to end\<close>

definition msg_flow ::
  "('i, 'c, 'm, 'u) message_coding \<Rightarrow> 'c \<Rightarrow> 'c \<Rightarrow> byte list \<Rightarrow> byte list \<Rightarrow> 'm list \<Rightarrow> ('e + 'm) list \<Rightarrow> bool" where
  "msg_flow C cA cB acc del ms got \<longleftrightarrow> (\<exists>us ns. cd_sends C cA us ms \<and> acc @ cd_pending C cA = unit_stream C us \<and>
     cd_reads C cB us (length del) ns \<and> got = map Inr ns)"

definition msg_inv ::
  "('i, 'c, 'm, 'u) message_coding \<Rightarrow> 'i timer \<Rightarrow> 'i timer \<Rightarrow> nat \<Rightarrow> nat \<Rightarrow>
   ('c, 'm, 'e) msg_endpoint \<Rightarrow> ('c, 'm, 'e) msg_endpoint \<Rightarrow> bool" where
  "msg_inv C tmA tmB M N A B \<longleftrightarrow> failures A = [] \<and> failures B = [] \<and>
     msgs_cost C (sent_msgs A) \<le> M \<and> msgs_cost C (sent_msgs B) \<le> N \<and>
     (\<exists>a d a' d'. net_inv tmA tmB M N \<lparr>chan = cd_get C (conn A), accepted = a, delivered = d\<rparr>
          \<lparr>chan = cd_get C (conn B), accepted = a', delivered = d'\<rparr> \<and>
        msg_flow C (conn A) (conn B) a d' (sent_msgs A) (got_msgs B) \<and>
        msg_flow C (conn B) (conn A) a' d (sent_msgs B) (got_msgs A))"

lemma msg_inv_sym: "msg_inv C tmA tmB M N A B \<longleftrightarrow> msg_inv C tmB tmA N M B A"
  unfolding msg_inv_def using net_inv_sym by blast

fun msg_event_ok :: "('i, 'c, 'm, 'u) message_coding \<Rightarrow> 'm msg_event \<Rightarrow> bool" where
  "msg_event_ok C (Msg_send m) = cd_good C m"
| "msg_event_ok C _ = True"

lemma net_delivered:
  assumes "net_inv tmA tmB M N A B"
  shows "delivered A = take (length (delivered A)) (accepted B)" "length (delivered A) \<le> length (accepted B)"
proof -
  obtain U rs P qs where f: "flow tmB B A U rs P qs" using assms unfolding net_inv_def by blast
  show "delivered A = take (length (delivered A)) (accepted B)" "length (delivered A) \<le> length (accepted B)"
    using flowD(10) [OF f] flow_bounds(3) [OF f] by blast+
qed

context message_stream
begin

lemma msg_recv_step:
  assumes inv: "msg_inv C tmA tmB M N A B"
  shows "\<exists>c r. mc_poll_recv T (conn A) = Some (c, r) \<and>
     msg_inv C tmA tmB M N (A\<lparr>conn := c, got_msgs := got_msgs A @ (case r of Ready x \<Rightarrow> [x] | Pending \<Rightarrow> [])\<rparr>) B \<and>
     (r = Pending \<longrightarrow> cd_idle C (conn B) \<and> rb_count (sw_ring (send_window (task (cd_get C (conn B))))) = 0 \<longrightarrow>
        got_msgs A = map Inr (sent_msgs B))"
proof -
  from inv obtain a d a' d' where n: "net_inv tmA tmB M N \<lparr>chan = cd_get C (conn A), accepted = a, delivered = d\<rparr>
          \<lparr>chan = cd_get C (conn B), accepted = a', delivered = d'\<rparr>"
    and fl: "msg_flow C (conn A) (conn B) a d' (sent_msgs A) (got_msgs B)"
    and fl': "msg_flow C (conn B) (conn A) a' d (sent_msgs B) (got_msgs A)" unfolding msg_inv_def by blast
  let ?A = "\<lparr>chan = cd_get C (conn A), accepted = a, delivered = d\<rparr>"
  let ?B = "\<lparr>chan = cd_get C (conn B), accepted = a', delivered = d'\<rparr>"
  obtain us ns where u: "cd_sends C (conn B) us (sent_msgs B)" "a' @ cd_pending C (conn B) = unit_stream C us"
    "cd_reads C (conn A) us (length d) ns" "got_msgs A = map Inr ns" using fl' unfolding msg_flow_def by blast
  have d: "d = take (length d) a'" "length d \<le> length a'" using net_delivered [OF n] by simp_all
  have y: "net_yields tmA tmB M N ?A ?B (cd_get C (conn A)) a' (length d)"
    using n d unfolding net_yields_def by (metis endpoint.select_convs(2) endpoint.update_convs(1,3))
  have pre: "prefix a' (unit_stream C us)" using u(2) by (metis prefixI)
  have valid: "\<forall>u\<in>set us. cd_valid C u" using sends_law [OF u(1)] by blast
  from recv_law [OF net_source.byte_source_axioms y pre valid u(3)] obtain c r b' ns' where
    p: "mc_poll_recv T (conn A) = Some (c, r)" "net_yields tmA tmB M N ?A ?B (cd_get C c) a' b'" "cd_reads C c us b' ns'"
    "cd_pending C c = cd_pending C (conn A)" "cd_sends C c = cd_sends C (conn A)"
    "r = Pending \<and> ns' = ns \<and> readable (cd_get C c) = 0 \<and> ns = unit_msgs C (units_within C us b') \<or>
     (\<exists>m. r = Ready (Inr m) \<and> ns' = ns @ [m])" by blast
  have b: "b' \<le> length a'" and n': "net_inv tmA tmB M N \<lparr>chan = cd_get C c, accepted = a, delivered = take b' a'\<rparr> ?B"
    using p(2) by (simp_all add: net_yields_def)
  let ?A' = "A\<lparr>conn := c, got_msgs := got_msgs A @ (case r of Ready x \<Rightarrow> [x] | Pending \<Rightarrow> [])\<rparr>"
  have got: "got_msgs A @ (case r of Ready x \<Rightarrow> [x] | Pending \<Rightarrow> []) = map Inr ns'" using p(6) u(4) by auto
  have "msg_flow C c (conn B) a d' (sent_msgs A) (got_msgs B)" using fl p(4,5) by (simp add: msg_flow_def)
  moreover have "msg_flow C (conn B) c a' (take b' a') (sent_msgs B) (map Inr ns' :: ('e + 'm) list)"
    using u(1,2) p(3) b unfolding msg_flow_def by (auto simp: min_def)
  ultimately have "msg_inv C tmA tmB M N ?A' B" using inv n' got unfolding msg_inv_def by auto
  moreover have "got_msgs A = map Inr (sent_msgs B)"
    if r: "r = Pending" and idle: "cd_idle C (conn B)" "rb_count (sw_ring (send_window (task (cd_get C (conn B))))) = 0"
  proof -
    have q: "readable (cd_get C c) = 0" "ns = unit_msgs C (units_within C us b')" using p(6) r by auto
    obtain U rs P qs where "flow tmB ?B \<lparr>chan = cd_get C c, accepted = a, delivered = take b' a'\<rparr> U rs P qs"
      using n' unfolding net_inv_def by blast
    from flow_complete [OF this] q(1) idle(2) have "take b' a' = a'" by simp
    then have "length a' \<le> b'" by simp
    moreover have i: "cd_pending C (conn B) = []" "unit_msgs C us = sent_msgs B" using idle_law [OF u(1) idle(1)] by blast+
    ultimately have "units_within C us b' = us" using u(2) by (intro units_within_all) simp
    then show ?thesis using q(2) i(2) u(4) by simp
  qed
  ultimately show ?thesis by (intro exI [of _ c] exI [of _ r] conjI impI p(1)) simp_all
qed

text \<open>A step that writes to the stream, as both \<open>poll_send\<close> and \<open>poll_flush\<close> do.\<close>

lemma msg_write_step:
  assumes inv: "msg_inv C tmA tmB M N A B" and M: "msgs_cost C ms' \<le> M"
    and law: "\<And>accepts xs us. byte_sink (poll_write id) ReliableChannel_flush accepts write_room M \<Longrightarrow>
      accepts (cd_get C (conn A)) xs \<Longrightarrow> cd_sends C (conn A) us (sent_msgs A) \<Longrightarrow>
      xs @ cd_pending C (conn A) = unit_stream C us \<Longrightarrow>
      \<exists>xs' vs. accepts (cd_get C c) xs' \<and> cd_sends C c (us @ vs) ms' \<and>
        xs' @ cd_pending C c = unit_stream C (us @ vs) \<and> cd_reads C c = cd_reads C (conn A)"
  shows "msg_inv C tmA tmB M N (A\<lparr>conn := c, sent_msgs := ms'\<rparr>) B"
proof -
  from inv obtain a d a' d' where n: "net_inv tmA tmB M N \<lparr>chan = cd_get C (conn A), accepted = a, delivered = d\<rparr>
          \<lparr>chan = cd_get C (conn B), accepted = a', delivered = d'\<rparr>"
    and fl: "msg_flow C (conn A) (conn B) a d' (sent_msgs A) (got_msgs B)"
    and fl': "msg_flow C (conn B) (conn A) a' d (sent_msgs B) (got_msgs A)" unfolding msg_inv_def by blast
  let ?A = "\<lparr>chan = cd_get C (conn A), accepted = a, delivered = d\<rparr>"
  let ?B = "\<lparr>chan = cd_get C (conn B), accepted = a', delivered = d'\<rparr>"
  obtain us ns where u: "cd_sends C (conn A) us (sent_msgs A)" "a @ cd_pending C (conn A) = unit_stream C us"
    "cd_reads C (conn B) us (length d') ns" "got_msgs B = map Inr ns" using fl unfolding msg_flow_def by blast
  have "net_accepts tmA tmB M N ?A ?B (cd_get C (conn A)) a" using n by (simp add: net_accepts_def)
  from law [OF net_sink.byte_sink_axioms this u(1,2)] obtain xs' vs where
    w: "net_accepts tmA tmB M N ?A ?B (cd_get C c) xs'" "cd_sends C c (us @ vs) ms'"
    "xs' @ cd_pending C c = unit_stream C (us @ vs)" "cd_reads C c = cd_reads C (conn A)" by blast
  have "cd_reads C (conn B) (us @ vs) (length d') ns" using reads_law [OF u(3)] by blast
  then have "msg_flow C c (conn B) xs' d' ms' (got_msgs B)" using w(2,3) u(4) unfolding msg_flow_def by blast
  moreover have "msg_flow C (conn B) c a' d (sent_msgs B) (got_msgs A)" using fl' w(4) by (simp add: msg_flow_def)
  moreover have "net_inv tmA tmB M N \<lparr>chan = cd_get C c, accepted = xs', delivered = d\<rparr> ?B"
    using w(1) by (simp add: net_accepts_def)
  ultimately show ?thesis using inv M unfolding msg_inv_def by auto
qed

lemma msg_send_step:
  assumes inv: "msg_inv C tmA tmB M N A B" and good: "cd_good C m" and M: "msgs_cost C (sent_msgs A @ [m]) \<le> M"
  shows "\<exists>c r. mc_poll_send T m (conn A) = Some (c, r) \<and> (r = Pending \<or> r = Ready (Inr ())) \<and>
     msg_inv C tmA tmB M N (A\<lparr>conn := c, sent_msgs := sent_msgs A @ (case r of Ready (Inr _) \<Rightarrow> [m] | _ \<Rightarrow> [])\<rparr>) B"
proof -
  from inv obtain a d a' d' us where n: "net_inv tmA tmB M N \<lparr>chan = cd_get C (conn A), accepted = a, delivered = d\<rparr>
          \<lparr>chan = cd_get C (conn B), accepted = a', delivered = d'\<rparr>"
    and u: "cd_sends C (conn A) us (sent_msgs A)" "a @ cd_pending C (conn A) = unit_stream C us"
    unfolding msg_inv_def msg_flow_def by blast
  have "net_accepts tmA tmB M N \<lparr>chan = cd_get C (conn A), accepted = a, delivered = d\<rparr>
      \<lparr>chan = cd_get C (conn B), accepted = a', delivered = d'\<rparr> (cd_get C (conn A)) a" using n by (simp add: net_accepts_def)
  from send_law [OF net_sink.byte_sink_axioms this u good M] obtain c r where
    s: "mc_poll_send T m (conn A) = Some (c, r)" "r = Pending \<or> r = Ready (Inr ())" by blast
  define ms' where "ms' = sent_msgs A @ (case r of Ready (Inr _) \<Rightarrow> [m] | _ \<Rightarrow> [])"
  have ms': "ms' = (if r = Pending then sent_msgs A else sent_msgs A @ [m])" using s(2) by (auto simp: ms'_def)
  then have "msgs_cost C ms' \<le> M" using M by auto
  then have "msg_inv C tmA tmB M N (A\<lparr>conn := c, sent_msgs := ms'\<rparr>) B"
  proof (rule msg_write_step [OF inv])
    fix accepts xs us
    assume "byte_sink (poll_write id) ReliableChannel_flush accepts write_room M" "accepts (cd_get C (conn A)) xs"
      "cd_sends C (conn A) us (sent_msgs A)" "xs @ cd_pending C (conn A) = unit_stream C us"
    from send_law [OF this good M] show "\<exists>xs' vs. accepts (cd_get C c) xs' \<and> cd_sends C c (us @ vs) ms' \<and>
        xs' @ cd_pending C c = unit_stream C (us @ vs) \<and> cd_reads C c = cd_reads C (conn A)"
      using s(1) ms' by auto
  qed
  then show ?thesis using s by (auto simp: ms'_def)
qed

lemma msg_flush_step:
  assumes inv: "msg_inv C tmA tmB M N A B"
  shows "\<exists>c r. mc_poll_flush T (conn A) = Some (c, r) \<and> (r = Pending \<or> r = Ready (Inr ()) \<and> cd_idle C c) \<and>
     msg_inv C tmA tmB M N (A\<lparr>conn := c\<rparr>) B"
proof -
  from inv obtain a d a' d' us where n: "net_inv tmA tmB M N \<lparr>chan = cd_get C (conn A), accepted = a, delivered = d\<rparr>
          \<lparr>chan = cd_get C (conn B), accepted = a', delivered = d'\<rparr>"
    and u: "cd_sends C (conn A) us (sent_msgs A)" "a @ cd_pending C (conn A) = unit_stream C us"
    and M: "msgs_cost C (sent_msgs A) \<le> M"
    unfolding msg_inv_def msg_flow_def by blast
  have "net_accepts tmA tmB M N \<lparr>chan = cd_get C (conn A), accepted = a, delivered = d\<rparr>
      \<lparr>chan = cd_get C (conn B), accepted = a', delivered = d'\<rparr> (cd_get C (conn A)) a" using n by (simp add: net_accepts_def)
  from flush_law [OF net_sink.byte_sink_axioms this u M] obtain c r where
    s: "mc_poll_flush T (conn A) = Some (c, r)" "r = Pending \<or> r = Ready (Inr ()) \<and> cd_idle C c" by blast
  have "msg_inv C tmA tmB M N (A\<lparr>conn := c, sent_msgs := sent_msgs A\<rparr>) B"
  proof (rule msg_write_step [OF inv M])
    fix accepts xs us
    assume "byte_sink (poll_write id) ReliableChannel_flush accepts write_room M" "accepts (cd_get C (conn A)) xs"
      "cd_sends C (conn A) us (sent_msgs A)" "xs @ cd_pending C (conn A) = unit_stream C us"
    from flush_law [OF this M] show "\<exists>xs' vs. accepts (cd_get C c) xs' \<and> cd_sends C c (us @ vs) (sent_msgs A) \<and>
        xs' @ cd_pending C c = unit_stream C (us @ vs) \<and> cd_reads C c = cd_reads C (conn A)"
      using s(1) by auto
  qed
  then show ?thesis using s by auto
qed

lemma msg_round_step:
  assumes inv: "msg_inv C tmA tmB M N A B" and mono: "monotonic_timer tmA" and vis: "visits_entries visit"
  shows "\<exists>ch. channel_event tmA visit (outgoing (task (cd_get C (conn B)))) (cd_get C (conn A)) ev = Some ch \<and>
     msg_inv C tmA tmB M N (A\<lparr>conn := cd_put C ch (conn A)\<rparr>) B"
proof -
  from inv obtain a d a' d' where n: "net_inv tmA tmB M N \<lparr>chan = cd_get C (conn A), accepted = a, delivered = d\<rparr>
          \<lparr>chan = cd_get C (conn B), accepted = a', delivered = d'\<rparr>"
    and fl: "msg_flow C (conn A) (conn B) a d' (sent_msgs A) (got_msgs B)"
    and fl': "msg_flow C (conn B) (conn A) a' d (sent_msgs B) (got_msgs A)" unfolding msg_inv_def by blast
  from net_channel_event [OF n mono vis, of ev] obtain ch where
    e: "channel_event tmA visit (outgoing (task (cd_get C (conn B)))) (cd_get C (conn A)) ev = Some ch"
    "net_inv tmA tmB M N \<lparr>chan = ch, accepted = a, delivered = d\<rparr>
       \<lparr>chan = cd_get C (conn B), accepted = a', delivered = d'\<rparr>" by auto
  have "msg_flow C (cd_put C ch (conn A)) (conn B) a d' (sent_msgs A) (got_msgs B)"
    "msg_flow C (conn B) (cd_put C ch (conn A)) a' d (sent_msgs B) (got_msgs A)"
    using fl fl' by (simp_all add: msg_flow_def get_put)
  then have "msg_inv C tmA tmB M N (A\<lparr>conn := cd_put C ch (conn A)\<rparr>) B"
    using inv e(2) unfolding msg_inv_def by (auto simp: get_put)
  with e(1) show ?thesis by blast
qed

lemma msg_step_inv:
  assumes inv: "msg_inv C tmA tmB M N A B" and mono: "monotonic_timer tmA" and vis: "visits_entries visit"
    and ok: "msg_event_ok C ev" and M: "msgs_cost C (sent_msgs A) + msgs_cost C (event_msg ev) \<le> M"
  shows "\<exists>A'. msg_step T (cd_get C) (cd_put C) tmA visit (outgoing (task (cd_get C (conn B)))) A ev = Some A' \<and>
     msg_inv C tmA tmB M N A' B \<and>
     msgs_cost C (sent_msgs A') \<le> msgs_cost C (sent_msgs A) + msgs_cost C (event_msg ev)"
proof (cases ev)
  case (Msg_send m)
  then have "cd_good C m" "msgs_cost C (sent_msgs A @ [m]) \<le> M" using ok M by simp_all
  from msg_send_step [OF inv this] obtain c r where
    s: "mc_poll_send T m (conn A) = Some (c, r)" "r = Pending \<or> r = Ready (Inr ())"
    "msg_inv C tmA tmB M N (A\<lparr>conn := c, sent_msgs := sent_msgs A @ (case r of Ready (Inr _) \<Rightarrow> [m] | _ \<Rightarrow> [])\<rparr>) B" by blast
  have "poll_failures r = []" using s(2) by (auto simp: poll_failures_def)
  then show ?thesis using s Msg_send inv by (auto simp: msg_inv_def)
next
  case Msg_flush
  from msg_flush_step [OF inv] obtain c r where
    s: "mc_poll_flush T (conn A) = Some (c, r)" "r = Pending \<or> r = Ready (Inr ())" "msg_inv C tmA tmB M N (A\<lparr>conn := c\<rparr>) B" by blast
  have "poll_failures r = []" using s(2) by (auto simp: poll_failures_def)
  then show ?thesis using s Msg_flush inv by (simp add: msg_inv_def)
next
  case Msg_recv
  from msg_recv_step [OF inv] obtain c r where
    "mc_poll_recv T (conn A) = Some (c, r)"
    "msg_inv C tmA tmB M N (A\<lparr>conn := c, got_msgs := got_msgs A @ (case r of Ready x \<Rightarrow> [x] | Pending \<Rightarrow> [])\<rparr>) B" by blast
  then show ?thesis using Msg_recv by simp
next
  case (Msg_round ev')
  then show ?thesis using msg_round_step [OF inv mono vis, of ev'] by auto
qed

lemma msg_run_inv:
  assumes "msg_inv C tmA tmB M N A B" and "monotonic_timer tmA" and "monotonic_timer tmB" and "visits_entries visit"
    and "\<forall>(side, ev)\<in>set es. msg_event_ok C ev"
    and "msgs_cost C (sent_msgs A) + msgs_cost C (event_msgs True es) \<le> M"
    and "msgs_cost C (sent_msgs B) + msgs_cost C (event_msgs False es) \<le> N"
  shows "\<exists>A' B'. msg_run T (cd_get C) (cd_put C) tmA tmB visit A B es = Some (A', B') \<and> msg_inv C tmA tmB M N A' B'"
  using assms
proof (induction es arbitrary: A B)
  case (Cons e es)
  obtain side ev where e: "e = (side, ev)" by (cases e)
  have ok: "msg_event_ok C ev" "\<forall>(side, ev)\<in>set es. msg_event_ok C ev" using Cons.prems(5) e by auto
  show ?case
  proof (cases side)
    case True
    then have M: "msgs_cost C (sent_msgs A) + msgs_cost C (event_msg ev) \<le> M" using Cons.prems(6) e by simp
    from msg_step_inv [OF Cons.prems(1,2,4) ok(1) M] obtain A' where
      "msg_step T (cd_get C) (cd_put C) tmA visit (outgoing (task (cd_get C (conn B)))) A ev = Some A'"
      "msg_inv C tmA tmB M N A' B" "msgs_cost C (sent_msgs A') \<le> msgs_cost C (sent_msgs A) + msgs_cost C (event_msg ev)" by blast
    then show ?thesis using Cons.IH [of A' B] Cons.prems ok(2) e True by simp
  next
    case False
    then have N: "msgs_cost C (sent_msgs B) + msgs_cost C (event_msg ev) \<le> N" using Cons.prems(7) e by simp
    from msg_step_inv [OF Cons.prems(1) [unfolded msg_inv_sym [of C tmA]] Cons.prems(3,4) ok(1) N] obtain B' where
      "msg_step T (cd_get C) (cd_put C) tmB visit (outgoing (task (cd_get C (conn A)))) B ev = Some B'"
      "msg_inv C tmA tmB M N A B'" "msgs_cost C (sent_msgs B') \<le> msgs_cost C (sent_msgs B) + msgs_cost C (event_msg ev)"
      unfolding msg_inv_sym [of C tmB] by blast
    then show ?thesis using Cons.IH [of A B'] Cons.prems ok(2) e False by simp
  qed
qed simp

lemma msg_inv_new:
  assumes A: "ReliableChannel_new tmA capA stA = Some a" "settings_ok capA stA"
    and B: "ReliableChannel_new tmB capB stB = Some b" "settings_ok capB stB"
    and "int M + int (recv_window_size stB) < half_span" "int N + int (recv_window_size stA) < half_span"
  shows "msg_inv C tmA tmB M N (msg_start (cd_new C a)) (msg_start (cd_new C b))"
proof -
  have "endpoint_new tmA capA stA = Some \<lparr>chan = a, accepted = [], delivered = []\<rparr>"
    "endpoint_new tmB capB stB = Some \<lparr>chan = b, accepted = [], delivered = []\<rparr>"
    using A(1) B(1) by (simp_all add: endpoint_new_def)
  note n = net_inv_new [OF this(1) A(2) this(2) B(2) assms(5,6)]
  have "msg_flow C (cd_new C x) (cd_new C y) [] [] [] []" for x y
    unfolding msg_flow_def by (intro exI [of _ "[]"]) (simp add: new_law)
  then show ?thesis using n unfolding msg_inv_def msg_start_def by (auto simp: new_law intro!: exI [of _ "[]"])
qed

lemma msg_inv_prefix:
  assumes "msg_inv C tmA tmB M N (A :: ('c, 'm, 'e) msg_endpoint) B"
  shows "failures A = []" "failures B = []" "prefix (got_msgs B) (map Inr (sent_msgs A))" "prefix (got_msgs A) (map Inr (sent_msgs B))"
proof -
  have pre: "prefix (got_msgs Y) (map Inr (sent_msgs X))" if "msg_flow C (conn X) (conn Y) x y (sent_msgs X) (got_msgs Y)"
    for X Y :: "('c, 'm, 'e) msg_endpoint" and x y
    using that sends_law reads_law unfolding msg_flow_def by (metis map_mono_prefix prefix_order.trans)
  from assms obtain x y x' y' where f: "failures A = []" "failures B = []"
    "msg_flow C (conn A) (conn B) x y' (sent_msgs A) (got_msgs B)"
    "msg_flow C (conn B) (conn A) x' y (sent_msgs B) (got_msgs A)" unfolding msg_inv_def by blast
  then show "failures A = []" "failures B = []" by blast+
  show "prefix (got_msgs B) (map Inr (sent_msgs A))" "prefix (got_msgs A) (map Inr (sent_msgs B))"
    using pre [OF f(3)] pre [OF f(4)] by blast+
qed

text \<open>The promise of a message channel.\<close>

lemma end_to_end:
  assumes A: "ReliableChannel_new tmA capA stA = Some a" "settings_ok capA stA"
    and B: "ReliableChannel_new tmB capB stB = Some b" "settings_ok capB stB"
    and "monotonic_timer tmA" "monotonic_timer tmB" "visits_entries visit"
    and "\<forall>(side, ev)\<in>set es. msg_event_ok C ev"
    and "int (msgs_cost C (event_msgs True es)) + int (recv_window_size stB) < half_span"
    and "int (msgs_cost C (event_msgs False es)) + int (recv_window_size stA) < half_span"
  shows "\<exists>A' B' c r. msg_run T (cd_get C) (cd_put C) tmA tmB visit (msg_start (cd_new C a)) (msg_start (cd_new C b)) es =
       Some (A', B') \<and> failures A' = [] \<and> failures B' = [] \<and>
     prefix (got_msgs B') (map Inr (sent_msgs A')) \<and> prefix (got_msgs A') (map Inr (sent_msgs B')) \<and>
     mc_poll_recv T (conn B') = Some (c, r) \<and>
     (r = Pending \<and> cd_idle C (conn A') \<and> rb_count (sw_ring (send_window (task (cd_get C (conn A'))))) = 0 \<longrightarrow>
        got_msgs B' = map Inr (sent_msgs A'))"
proof -
  let ?M = "msgs_cost C (event_msgs True es)" and ?N = "msgs_cost C (event_msgs False es)"
  have "msg_inv C tmA tmB ?M ?N (msg_start (cd_new C a)) (msg_start (cd_new C b))"
    using msg_inv_new [OF A B assms(9,10)] .
  from msg_run_inv [OF this assms(5-8)] obtain A' B' where
    r: "msg_run T (cd_get C) (cd_put C) tmA tmB visit (msg_start (cd_new C a)) (msg_start (cd_new C b)) es = Some (A', B')"
    "msg_inv C tmA tmB ?M ?N A' B'" by (auto simp: msg_start_def)
  note p = msg_inv_prefix [OF r(2)]
  from msg_recv_step [OF r(2) [unfolded msg_inv_sym [of C tmA]]] obtain c q where
    "mc_poll_recv T (conn B') = Some (c, q)"
    "q = Pending \<longrightarrow> cd_idle C (conn A') \<and> rb_count (sw_ring (send_window (task (cd_get C (conn A'))))) = 0 \<longrightarrow>
       got_msgs B' = map Inr (sent_msgs A')" by blast
  with r(1) p show ?thesis by (intro exI [of _ A'] exI [of _ B'] exI [of _ c] exI [of _ q]) simp
qed

end

end
