(* ===== verification/Bincode.thy ===== *)
theory Bincode
  imports Turbulence_Prelude
begin

text \<open>
  The interface of the \<open>bincode\<close> package, which the message channels call with a limit on the size.

  \<open>serialize_into\<close> appends bytes to a buffer and may fail after some of them; \<open>serialized_size\<close> computes
  the size; \<open>deserialize\<close> reads a message from a slice, and \<open>deserialize_from\<close> reads one from the front
  of a reader and leaves the rest. The record is an argument of the channels' definitions, and
  \<open>bincode_laws\<close> is what they rely on: a message that was serialized within the limit is read back.
\<close>

record ('m, 'e) bincode =
  bc_serialize_into :: "nat \<Rightarrow> 'm \<Rightarrow> byte list \<times> ('e + unit)"
  bc_serialized_size :: "nat \<Rightarrow> 'm \<Rightarrow> 'e + nat"
  bc_deserialize :: "nat \<Rightarrow> byte list \<Rightarrow> 'e + 'm"
  bc_deserialize_from :: "nat \<Rightarrow> byte list \<Rightarrow> byte list \<times> ('e + 'm)"

locale bincode_laws =
  fixes B :: "('m, 'e) bincode"
  assumes within_limit: "bc_serialize_into B limit m = (bs, Inr ()) \<Longrightarrow> length bs \<le> limit"
    and size: "bc_serialize_into B limit m = (bs, Inr ()) \<Longrightarrow> bc_serialized_size B limit m = Inr (length bs)"
    and read_back: "bc_serialize_into B limit m = (bs, Inr ()) \<Longrightarrow> bc_deserialize B limit bs = Inr m"
    and read_front: "bc_serialize_into B limit m = (bs, Inr ()) \<Longrightarrow>
      bc_deserialize_from B limit (bs @ rest) = (rest, Inr m)"
begin

text \<open>The bytes of a message that serializes.\<close>

lemma encoding:
  assumes "snd (bc_serialize_into B limit m) = Inr ()"
  obtains bs where "bc_serialize_into B limit m = (bs, Inr ())" "length bs \<le> limit"
    "bc_deserialize B limit bs = Inr m"
  using assms within_limit read_back by (metis prod.collapse)

end

text \<open>The encoding of single bytes, which the package writes as they are.\<close>

definition byte_bincode :: "(byte, unit) bincode" where
  "byte_bincode = \<lparr>
     bc_serialize_into = (\<lambda>limit b. if 1 \<le> limit then ([b], Inr ()) else ([], Inl ())),
     bc_serialized_size = (\<lambda>limit b. if 1 \<le> limit then Inr 1 else Inl ()),
     bc_deserialize = (\<lambda>limit bs. case bs of [b] \<Rightarrow> if 1 \<le> limit then Inr b else Inl () | _ \<Rightarrow> Inl ()),
     bc_deserialize_from = (\<lambda>limit bs. case bs of b # rest \<Rightarrow> if 1 \<le> limit then (rest, Inr b) else (bs, Inl ()) | [] \<Rightarrow> ([], Inl ()))\<rparr>"

interpretation byte_bincode: bincode_laws byte_bincode
  by unfold_locales (auto simp: byte_bincode_def split: if_splits)

end
