(* ===== verification/Reliable_Bincode.thy ===== *)
theory Reliable_Bincode
  imports Message_Stream Bincode
begin

text \<open>
  Messages over the reliable channel (\<open>reliable_bincode_channel.rs\<close>).

  A message is written to the stream as two bytes of length and its serialization. The sender keeps
  what it has not pushed into the channel yet, the receiver the part of a message it has read. The typed
  channel of the same file only fixes the message type, which is a type parameter here.
\<close>

definition RB_MAX_MESSAGE_LEN :: nat where
  "RB_MAX_MESSAGE_LEN = u16_max"

datatype 'e rbc_error = Reliable_error rel_error | Bincode_error 'e

record 'i rbc =
  rbc_channel :: "'i reliable_channel"
  rbc_write_buffer :: "byte list"
  rbc_write_pos :: nat
  rbc_read_buffer :: "byte list"
  rbc_read_pos :: nat

definition ReliableBincodeChannel_new :: "'i reliable_channel \<Rightarrow> 'i rbc" where
  "ReliableBincodeChannel_new ch =
     \<lparr>rbc_channel = ch, rbc_write_buffer = [], rbc_write_pos = 0, rbc_read_buffer = [], rbc_read_pos = 0\<rparr>"

subsection \<open>Sending\<close>

partial_function (option) send_ready_loop ::
  "'c poll_writer \<Rightarrow> 'c \<Rightarrow> byte list \<Rightarrow> nat \<Rightarrow> ('c \<times> byte list \<times> nat \<times> (rel_error + unit) poll) option" where
  "send_ready_loop wr c buf pos =
     (if buf \<noteq> [] then do {
        data \<leftarrow> slice buf pos (length buf);
        (c, r) \<leftarrow> wr c data;
        (case r of
           Pending \<Rightarrow> Some (c, buf, pos, Pending)
         | Ready (Inl e) \<Rightarrow> Some (c, buf, pos, Ready (Inl e))
         | Ready (Inr len) \<Rightarrow> do {
             pos \<leftarrow> usize_add pos len;
             if pos = length buf then send_ready_loop wr c [] 0 else send_ready_loop wr c buf pos
           })
      } else Some (c, buf, pos, Ready (Inr ())))"

definition rbc_poll_send_ready :: "'i rbc \<Rightarrow> ('i rbc \<times> (rel_error + unit) poll) option" where
  "rbc_poll_send_ready rb = do {
     (c, buf, pos, r) \<leftarrow> send_ready_loop (poll_write id) (rbc_channel rb) (rbc_write_buffer rb) (rbc_write_pos rb);
     Some (rb\<lparr>rbc_channel := c, rbc_write_buffer := buf, rbc_write_pos := pos\<rparr>, r)
   }"

definition rbc_start_send :: "('m, 'e) bincode \<Rightarrow> 'm \<Rightarrow> 'i rbc \<Rightarrow> ('i rbc \<times> ('e + unit)) option" where
  "rbc_start_send B msg rb = do {
     assert_that (rbc_write_buffer rb = []);
     let buf = vec_resize (rbc_write_buffer rb) 2 0;
     let (bytes, r) = bc_serialize_into B RB_MAX_MESSAGE_LEN msg;
     let buf = buf @ bytes;
     (case r of
        Inl e \<Rightarrow> Some (rb\<lparr>rbc_write_buffer := buf\<rparr>, Inl e)
      | Inr _ \<Rightarrow> do {
          message_len \<leftarrow> usize_sub (length buf) 2;
          assert_that (message_len \<le> u16_max);
          buf \<leftarrow> copy_at buf 0 (write_u16 message_len);
          Some (rb\<lparr>rbc_write_buffer := buf\<rparr>, Inr ())
        })
   }"

text \<open>One poll of \<open>send\<close>, and the \<open>poll_send\<close> of \<open>MessageBincodeChannel\<close>, which is the same.\<close>

definition rbc_poll_send ::
  "('m, 'e) bincode \<Rightarrow> 'm \<Rightarrow> 'i rbc \<Rightarrow> ('i rbc \<times> ('e rbc_error + unit) poll) option" where
  "rbc_poll_send B msg rb = do {
     (rb, r) \<leftarrow> rbc_poll_send_ready rb;
     (case r of
        Pending \<Rightarrow> Some (rb, Pending)
      | Ready (Inl e) \<Rightarrow> Some (rb, Ready (Inl (Reliable_error e)))
      | Ready (Inr _) \<Rightarrow> do {
          (rb, r) \<leftarrow> rbc_start_send B msg rb;
          Some (rb, Ready (case r of Inl e \<Rightarrow> Inl (Bincode_error e) | Inr _ \<Rightarrow> Inr ()))
        })
   }"

definition rbc_poll_flush :: "'i rbc \<Rightarrow> ('i rbc \<times> (rel_error + unit) poll) option" where
  "rbc_poll_flush rb = do {
     (rb, r) \<leftarrow> rbc_poll_send_ready rb;
     (case r of
        Ready (Inr _) \<Rightarrow>
          (case ReliableChannel_flush (rbc_channel rb) of (c, r) \<Rightarrow> Some (rb\<lparr>rbc_channel := c\<rparr>, Ready r))
      | _ \<Rightarrow> Some (rb, r))
   }"

definition rbc_try_send_ready :: "'i rbc \<Rightarrow> ('i rbc \<times> (rel_error + bool)) option" where
  "rbc_try_send_ready rb = map_option (apsnd try_result) (rbc_poll_send_ready rb)"

definition rbc_try_send :: "('m, 'e) bincode \<Rightarrow> 'm \<Rightarrow> 'i rbc \<Rightarrow> ('i rbc \<times> ('e rbc_error + bool)) option" where
  "rbc_try_send B msg rb = do {
     (rb, r) \<leftarrow> rbc_try_send_ready rb;
     (case r of
        Inl e \<Rightarrow> Some (rb, Inl (Reliable_error e))
      | Inr True \<Rightarrow> do {
          (rb, r) \<leftarrow> rbc_start_send B msg rb;
          Some (rb, case r of Inl e \<Rightarrow> Inl (Bincode_error e) | Inr _ \<Rightarrow> Inr True)
        }
      | Inr False \<Rightarrow> Some (rb, Inr False))
   }"

definition rbc_try_flush :: "'i rbc \<Rightarrow> ('i rbc \<times> (rel_error + bool)) option" where
  "rbc_try_flush rb = map_option (apsnd try_result) (rbc_poll_flush rb)"

subsection \<open>Receiving\<close>

definition rbc_poll_finish_read :: "'i rbc \<Rightarrow> ('i rbc \<times> (rel_error + unit) poll) option" where
  "rbc_poll_finish_read rb = do {
     (c, buf, pos, r) \<leftarrow> finish_read (poll_read id) (rbc_channel rb) (rbc_read_buffer rb) (rbc_read_pos rb);
     Some (rb\<lparr>rbc_channel := c, rbc_read_buffer := buf, rbc_read_pos := pos\<rparr>, r)
   }"

definition rbc_poll_recv_ready :: "'i rbc \<Rightarrow> ('i rbc \<times> (rel_error + unit) poll) option" where
  "rbc_poll_recv_ready rb = do {
     (rb, r) \<leftarrow> (if rbc_read_pos rb < 2
       then rbc_poll_finish_read (rb\<lparr>rbc_read_buffer := vec_resize (rbc_read_buffer rb) 2 0\<rparr>)
       else Some (rb, Ready (Inr ())));
     (case r of
        Ready (Inr _) \<Rightarrow> do {
          header \<leftarrow> slice (rbc_read_buffer rb) 0 2;
          let message_len = read_u16 header;
          rbc_poll_finish_read (rb\<lparr>rbc_read_buffer := vec_resize (rbc_read_buffer rb) (message_len + 2) 0\<rparr>)
        }
      | _ \<Rightarrow> Some (rb, r))
   }"

definition rbc_recv_next :: "('m, 'e) bincode \<Rightarrow> 'i rbc \<Rightarrow> ('i rbc \<times> ('e + 'm)) option" where
  "rbc_recv_next B rb = do {
     body \<leftarrow> slice (rbc_read_buffer rb) 2 (length (rbc_read_buffer rb));
     let res = bc_deserialize B RB_MAX_MESSAGE_LEN body;
     Some (rb\<lparr>rbc_read_pos := 0\<rparr>, res)
   }"

definition rbc_poll_recv ::
  "('m, 'e) bincode \<Rightarrow> 'i rbc \<Rightarrow> ('i rbc \<times> ('e rbc_error + 'm) poll) option" where
  "rbc_poll_recv B rb = do {
     (rb, r) \<leftarrow> rbc_poll_recv_ready rb;
     (case r of
        Pending \<Rightarrow> Some (rb, Pending)
      | Ready (Inl e) \<Rightarrow> Some (rb, Ready (Inl (Reliable_error e)))
      | Ready (Inr _) \<Rightarrow> do {
          (rb, res) \<leftarrow> rbc_recv_next B rb;
          Some (rb, Ready (case res of Inl e \<Rightarrow> Inl (Bincode_error e) | Inr m \<Rightarrow> Inr m))
        })
   }"

definition rbc_try_recv :: "('m, 'e) bincode \<Rightarrow> 'i rbc \<Rightarrow> ('i rbc \<times> ('e rbc_error + 'm option)) option" where
  "rbc_try_recv B rb = map_option (apsnd try_value) (rbc_poll_recv B rb)"

subsection \<open>The stream of messages\<close>

text \<open>The bytes of a message, and those of a list of messages in the stream.\<close>

definition rbc_encode :: "('m, 'e) bincode \<Rightarrow> 'm \<Rightarrow> byte list" where
  "rbc_encode B m = fst (bc_serialize_into B RB_MAX_MESSAGE_LEN m)"

definition rbc_serializes :: "('m, 'e) bincode \<Rightarrow> 'm \<Rightarrow> bool" where
  "rbc_serializes B m \<longleftrightarrow> snd (bc_serialize_into B RB_MAX_MESSAGE_LEN m) = Inr ()"

definition rbc_stream :: "('m, 'e) bincode \<Rightarrow> 'm list \<Rightarrow> byte list" where
  "rbc_stream B ms = frames (map (rbc_encode B) ms)"

lemma rbc_stream_simps [simp]:
  "rbc_stream B [] = []" "rbc_stream B (m # ms) = frame (rbc_encode B m) @ rbc_stream B ms"
  "rbc_stream B (ms @ ns) = rbc_stream B ms @ rbc_stream B ns"
  by (simp_all add: rbc_stream_def)

context bincode_laws
begin

lemma encode_law:
  assumes "rbc_serializes B m"
  shows "bc_serialize_into B RB_MAX_MESSAGE_LEN m = (rbc_encode B m, Inr ())"
    and "length (rbc_encode B m) \<le> u16_max" and "bc_deserialize B RB_MAX_MESSAGE_LEN (rbc_encode B m) = Inr m"
proof -
  show e: "bc_serialize_into B RB_MAX_MESSAGE_LEN m = (rbc_encode B m, Inr ())"
    using assms by (cases "bc_serialize_into B RB_MAX_MESSAGE_LEN m") (simp add: rbc_serializes_def rbc_encode_def)
  show "length (rbc_encode B m) \<le> u16_max" using within_limit [OF e] by (simp add: RB_MAX_MESSAGE_LEN_def)
  show "bc_deserialize B RB_MAX_MESSAGE_LEN (rbc_encode B m) = Inr m" by (rule read_back [OF e])
qed

lemma start_send_frames:
  assumes "rbc_serializes B m" and "rbc_write_buffer rb = []"
  shows "rbc_start_send B m rb = Some (rb\<lparr>rbc_write_buffer := frame (rbc_encode B m)\<rparr>, Inr ())"
  using encode_law(1,2) [OF assms(1)] assms(2)
  by (simp add: rbc_start_send_def vec_resize_def usize_sub_def copy_at_def frame_def)

end

context byte_sink
begin

lemma send_ready_returns:
  assumes "accepts c xs" and "buf = [] \<and> pos = 0 \<or> pos < length buf" and "length buf \<le> usize_max"
    and "length xs + length (drop pos buf) \<le> M" and "n = min (length buf - pos) (room c)"
  shows "\<exists>c'. send_ready_loop wr c buf pos = Some (c',
       if pos + n = length buf then ([], 0, Ready (Inr ())) else (buf, pos + n, Pending)) \<and>
     accepts c' (xs @ take n (drop pos buf)) \<and> room c' = room c - n"
  using assms
proof (induction "length buf - pos" arbitrary: c xs pos n rule: less_induct)
  case less
  show ?case
  proof (cases "buf = []")
    case True
    then have "send_ready_loop wr c buf pos = Some (c, buf, pos, Ready (Inr ()))"
      unfolding send_ready_loop.simps [of wr c buf pos] by simp
    with True less.prems show ?thesis by simp
  next
    case ne: False
    then have pos: "pos < length buf" using less.prems(2) by auto
    then have data: "slice buf pos (length buf) = Some (drop pos buf)" "drop pos buf \<noteq> []" by (simp_all add: slice_def)
    have n: "n = min (length (drop pos buf)) (room c)" using less.prems(5) by simp
    from write_law [OF less.prems(1) data(2) less.prems(4) n] obtain c1 where
      w: "wr c (drop pos buf) = Some (c1, if n = 0 then Pending else Ready (Inr n))"
      "accepts c1 (xs @ take n (drop pos buf))" "room c1 = room c - n" by blast
    have le: "pos + n \<le> length buf" using n pos by simp
    then have add: "usize_add pos n = Some (pos + n)" using less.prems(3) by (simp add: usize_add_def)
    consider (none) "n = 0" | (all) "n \<noteq> 0" "pos + n = length buf" | (some) "n \<noteq> 0" "pos + n < length buf"
      using le by linarith
    then show ?thesis
    proof cases
      case none
      then show ?thesis using ne pos data(1) w by (simp add: send_ready_loop.simps [of wr c buf pos])
    next
      case all
      have "send_ready_loop wr c buf pos = Some (c1, [], 0, Ready (Inr ()))"
        using ne data(1) w(1) add all
        by (simp add: send_ready_loop.simps [of wr c buf pos] send_ready_loop.simps [of wr c1 "[]" 0])
      then show ?thesis using all w(2,3) by simp
    next
      case some
      have p: "length buf - (pos + n) < length buf - pos" "buf = [] \<and> pos + n = 0 \<or> pos + n < length buf"
        using some pos by auto
      have m: "length (xs @ take n (drop pos buf)) + length (drop (pos + n) buf) \<le> M" using n less.prems(4) by simp
      have z: "0 = min (length buf - (pos + n)) (room c1)" unfolding w(3) n length_drop by linarith
      from less.hyps [OF p(1) w(2) p(2) less.prems(3) m z] w(3) show ?thesis
        using ne data(1) w(1) add some by (simp add: send_ready_loop.simps [of wr c buf pos])
    qed
  qed
qed

end

subsection \<open>The contract of message channels\<close>

text \<open>
  A unit of the stream is the frame of one message. The receiver holds the first bytes of the frame
  after those of the messages it has returned.
\<close>

definition rbc_sends :: "('m, 'e) bincode \<Rightarrow> 'i rbc \<Rightarrow> 'm list \<Rightarrow> 'm list \<Rightarrow> bool" where
  "rbc_sends B rb us ms \<longleftrightarrow> us = ms \<and> (\<forall>m\<in>set ms. rbc_serializes B m) \<and>
     (rbc_write_buffer rb = [] \<and> rbc_write_pos rb = 0 \<or> rbc_write_pos rb < length (rbc_write_buffer rb)) \<and>
     length (rbc_write_buffer rb) \<le> usize_max"

definition rbc_reads :: "('m, 'e) bincode \<Rightarrow> 'i rbc \<Rightarrow> 'm list \<Rightarrow> nat \<Rightarrow> 'm list \<Rightarrow> bool" where
  "rbc_reads B rb us b ns \<longleftrightarrow> rbc_read_pos rb \<le> length (rbc_read_buffer rb) \<and>
     b = length (rbc_stream B ns) + rbc_read_pos rb \<and>
     (\<exists>rest. us = ns @ rest \<and> prefix (take (rbc_read_pos rb) (rbc_read_buffer rb)) (rbc_stream B (take 1 rest)))"

definition rbc_ops :: "('m, 'e) bincode \<Rightarrow> ('i rbc, 'm, 'e rbc_error) message_channel" where
  "rbc_ops B = \<lparr>mc_poll_recv = rbc_poll_recv B, mc_poll_send = rbc_poll_send B,
     mc_poll_flush = (\<lambda>rb. map_option (apsnd (map_poll (map_sum Reliable_error id))) (rbc_poll_flush rb))\<rparr>"

definition rbc_coding :: "('m, 'e) bincode \<Rightarrow> ('i, 'i rbc, 'm, 'm) message_coding" where
  "rbc_coding B = \<lparr>cd_new = ReliableBincodeChannel_new, cd_get = rbc_channel, cd_put = (\<lambda>ch rb. rb\<lparr>rbc_channel := ch\<rparr>),
     cd_good = rbc_serializes B, cd_cost = (\<lambda>m. length (frame (rbc_encode B m))), cd_valid = rbc_serializes B,
     cd_bytes = (\<lambda>m. frame (rbc_encode B m)), cd_msgs = (\<lambda>m. [m]),
     cd_pending = (\<lambda>rb. drop (rbc_write_pos rb) (rbc_write_buffer rb)), cd_idle = (\<lambda>rb. rbc_write_buffer rb = []),
     cd_sends = rbc_sends B, cd_reads = rbc_reads B\<rparr>"

lemma rbc_coding_sel [simp]:
  "cd_new (rbc_coding B) = ReliableBincodeChannel_new" "cd_get (rbc_coding B) = rbc_channel"
  "cd_put (rbc_coding B) ch rb = rb\<lparr>rbc_channel := ch\<rparr>" "cd_good (rbc_coding B) = rbc_serializes B"
  "cd_cost (rbc_coding B) m = length (frame (rbc_encode B m))" "cd_valid (rbc_coding B) = rbc_serializes B"
  "cd_bytes (rbc_coding B) m = frame (rbc_encode B m)" "cd_msgs (rbc_coding B) m = [m]"
  "cd_pending (rbc_coding B) rb = drop (rbc_write_pos rb) (rbc_write_buffer rb)"
  "cd_idle (rbc_coding B) rb \<longleftrightarrow> rbc_write_buffer rb = []"
  "cd_sends (rbc_coding B) = rbc_sends B" "cd_reads (rbc_coding B) = rbc_reads B"
  by (simp_all add: rbc_coding_def)

lemma rbc_units [simp]:
  "unit_stream (rbc_coding B) ms = rbc_stream B ms" "unit_msgs (rbc_coding B) ms = ms"
  "msgs_cost (rbc_coding B) ms = length (rbc_stream B ms)"
  by (induction ms) simp_all

lemma rbc_reads_grow: "rbc_reads B rb us b ns \<Longrightarrow> rbc_reads B rb (us @ vs) b ns"
  unfolding rbc_reads_def by (auto simp: take_Cons' split: if_splits)

subsection \<open>Sending\<close>

lemma rbc_send_ready_law:
  assumes sink: "byte_sink (poll_write id) ReliableChannel_flush accepts write_room M"
    and acc: "accepts (rbc_channel rb) xs" and s: "rbc_sends B rb ms ms"
    and st: "xs @ drop (rbc_write_pos rb) (rbc_write_buffer rb) = rbc_stream B ms" and M: "length (rbc_stream B ms) \<le> M"
  shows "\<exists>rb' r xs'. rbc_poll_send_ready rb = Some (rb', r) \<and> accepts (rbc_channel rb') xs' \<and> rbc_sends B rb' ms ms \<and>
     xs' @ drop (rbc_write_pos rb') (rbc_write_buffer rb') = rbc_stream B ms \<and> rbc_reads B rb' = rbc_reads B rb \<and>
     (r = Pending \<or> r = Ready (Inr ()) \<and> rbc_write_buffer rb' = [] \<and> rbc_write_pos rb' = 0)"
proof -
  let ?buf = "rbc_write_buffer rb" and ?pos = "rbc_write_pos rb"
  define n where "n = min (length ?buf - ?pos) (write_room (rbc_channel rb))"
  have b: "?buf = [] \<and> ?pos = 0 \<or> ?pos < length ?buf" "length ?buf \<le> usize_max" using s by (auto simp: rbc_sends_def)
  have m: "length xs + length (drop ?pos ?buf) \<le> M" using M by (simp flip: st)
  from byte_sink.send_ready_returns [OF sink acc b m n_def] obtain c where
    l: "send_ready_loop (poll_write id) (rbc_channel rb) ?buf ?pos = Some (c,
       if ?pos + n = length ?buf then ([], 0, Ready (Inr ())) else (?buf, ?pos + n, Pending))"
    "accepts c (xs @ take n (drop ?pos ?buf))" by blast
  have split: "(xs @ take n (drop ?pos ?buf)) @ drop (?pos + n) ?buf = rbc_stream B ms"
    unfolding st [symmetric] by (simp add: add.commute flip: drop_drop)
  have r: "rbc_reads B (rb\<lparr>rbc_channel := c, rbc_write_buffer := w, rbc_write_pos := p\<rparr>) = rbc_reads B rb" for w p
    by (intro ext) (simp add: rbc_reads_def)
  show ?thesis
  proof (cases "?pos + n = length ?buf")
    case True
    have "rbc_poll_send_ready rb = Some (rb\<lparr>rbc_channel := c, rbc_write_buffer := [], rbc_write_pos := 0\<rparr>, Ready (Inr ()))"
      using l(1) True by (simp add: rbc_poll_send_ready_def)
    then show ?thesis using l(2) split True s r by (auto simp: rbc_sends_def)
  next
    case False
    then have "?pos + n < length ?buf" using b(1) by (auto simp: n_def)
    moreover have "rbc_poll_send_ready rb = Some (rb\<lparr>rbc_channel := c, rbc_write_buffer := ?buf, rbc_write_pos := ?pos + n\<rparr>, Pending)"
      using l(1) False by (simp add: rbc_poll_send_ready_def)
    ultimately show ?thesis using l(2) split s r [where w = ?buf and p = "?pos + n"]
      by (intro exI [of _ "rb\<lparr>rbc_channel := c, rbc_write_pos := ?pos + n\<rparr>"] exI [of _ Pending]
          exI [of _ "xs @ take n (drop ?pos ?buf)"]) (simp add: rbc_sends_def)
  qed
qed

lemma rbc_flush_law:
  assumes sink: "byte_sink (poll_write id) ReliableChannel_flush accepts write_room M"
    and acc: "accepts (rbc_channel rb) xs" and s: "rbc_sends B rb ms ms"
    and st: "xs @ drop (rbc_write_pos rb) (rbc_write_buffer rb) = rbc_stream B ms" and M: "length (rbc_stream B ms) \<le> M"
  shows "\<exists>rb' r xs'. rbc_poll_flush rb = Some (rb', r) \<and> accepts (rbc_channel rb') xs' \<and> rbc_sends B rb' ms ms \<and>
     xs' @ drop (rbc_write_pos rb') (rbc_write_buffer rb') = rbc_stream B ms \<and> rbc_reads B rb' = rbc_reads B rb \<and>
     (r = Pending \<or> r = Ready (Inr ()) \<and> rbc_write_buffer rb' = [])"
proof -
  from rbc_send_ready_law [OF assms] obtain rb1 r xs1 where
    l: "rbc_poll_send_ready rb = Some (rb1, r)" "accepts (rbc_channel rb1) xs1" "rbc_sends B rb1 ms ms"
    "xs1 @ drop (rbc_write_pos rb1) (rbc_write_buffer rb1) = rbc_stream B ms" "rbc_reads B rb1 = rbc_reads B rb"
    "r = Pending \<or> r = Ready (Inr ()) \<and> rbc_write_buffer rb1 = []" by blast
  from byte_sink.flush_law [OF sink l(2)] obtain c where
    c: "ReliableChannel_flush (rbc_channel rb1) = (c, Inr ())" "accepts c xs1" by blast
  have k: "rbc_reads B (rb1\<lparr>rbc_channel := c\<rparr>) = rbc_reads B rb1" by (intro ext) (simp add: rbc_reads_def)
  have k': "rbc_sends B (rb1\<lparr>rbc_channel := c\<rparr>) ms ms" using l(3) by (simp add: rbc_sends_def)
  show ?thesis
  proof (cases "r = Pending")
    case True
    then have "rbc_poll_flush rb = Some (rb1, Pending)" using l(1) by (simp add: rbc_poll_flush_def)
    then show ?thesis using l(2-5) by blast
  next
    case False
    then have "rbc_poll_flush rb = Some (rb1\<lparr>rbc_channel := c\<rparr>, Ready (Inr ()))" "rbc_write_buffer rb1 = []"
      using l(1,6) c(1) by (auto simp: rbc_poll_flush_def)
    then show ?thesis using l(4,5) c(2) k k'
      by (intro exI [of _ "rb1\<lparr>rbc_channel := c\<rparr>"] exI [of _ "Ready (Inr ())"] exI [of _ xs1]) simp
  qed
qed

lemma rbc_send_law:
  assumes laws: "bincode_laws B" and good: "rbc_serializes B m"
    and sink: "byte_sink (poll_write id) ReliableChannel_flush accepts write_room M"
    and acc: "accepts (rbc_channel rb) xs" and s: "rbc_sends B rb ms ms"
    and st: "xs @ drop (rbc_write_pos rb) (rbc_write_buffer rb) = rbc_stream B ms" and M: "length (rbc_stream B ms) \<le> M"
  shows "\<exists>rb' r xs' ms'. rbc_poll_send B m rb = Some (rb', r) \<and> accepts (rbc_channel rb') xs' \<and> rbc_sends B rb' ms' ms' \<and>
     xs' @ drop (rbc_write_pos rb') (rbc_write_buffer rb') = rbc_stream B ms' \<and> rbc_reads B rb' = rbc_reads B rb \<and>
     (r = Pending \<and> ms' = ms \<or> r = Ready (Inr ()) \<and> ms' = ms @ [m])"
proof -
  from rbc_send_ready_law [OF sink acc s st M] obtain rb1 r xs1 where
    l: "rbc_poll_send_ready rb = Some (rb1, r)" "accepts (rbc_channel rb1) xs1" "rbc_sends B rb1 ms ms"
    "xs1 @ drop (rbc_write_pos rb1) (rbc_write_buffer rb1) = rbc_stream B ms" "rbc_reads B rb1 = rbc_reads B rb"
    "r = Pending \<or> r = Ready (Inr ()) \<and> rbc_write_buffer rb1 = [] \<and> rbc_write_pos rb1 = 0" by blast
  from l(6) show ?thesis
  proof
    assume "r = Pending"
    then have "rbc_poll_send B m rb = Some (rb1, Pending)" using l(1) by (simp add: rbc_poll_send_def)
    then show ?thesis using l(2-5) by blast
  next
    assume r: "r = Ready (Inr ()) \<and> rbc_write_buffer rb1 = [] \<and> rbc_write_pos rb1 = 0"
    let ?rb = "rb1\<lparr>rbc_write_buffer := frame (rbc_encode B m)\<rparr>"
    have "rbc_start_send B m rb1 = Some (?rb, Inr ())" using bincode_laws.start_send_frames [OF laws good] r by blast
    then have code: "rbc_poll_send B m rb = Some (?rb, Ready (Inr ()))" using l(1) r by (simp add: rbc_poll_send_def)
    have "length (frame (rbc_encode B m)) \<le> usize_max" "frame (rbc_encode B m) \<noteq> []"
      using bincode_laws.encode_law(2) [OF laws good] by (auto simp: u16_max_def usize_max_def frame_def write_u16_def le_encode_def)
    then have "rbc_sends B ?rb (ms @ [m]) (ms @ [m])" using l(3) r good by (auto simp: rbc_sends_def)
    moreover have "rbc_reads B ?rb = rbc_reads B rb" unfolding l(5) [symmetric] by (intro ext) (simp add: rbc_reads_def)
    ultimately show ?thesis using code l(2,4) r
      by (intro exI [of _ ?rb] exI [of _ "Ready (Inr ())"] exI [of _ xs1] exI [of _ "ms @ [m]"]) simp
  qed
qed

subsection \<open>Receiving\<close>

text \<open>Reading up to \<open>n\<close> bytes of the current frame.\<close>

lemma rbc_fill:
  fixes B :: "('m, 'e) bincode" and rb :: "'i rbc"
  assumes src: "byte_source (poll_read id) yields readable" and pre: "prefix xs (rbc_stream B us)"
    and y: "yields (rbc_channel rb) xs b" and rd: "rbc_reads B rb us b ns" and n: "rbc_read_pos rb \<le> n" "n \<le> usize_max"
    and fit: "\<And>m rest. us = ns @ m # rest \<Longrightarrow> n \<le> length (frame (rbc_encode B m))"
  shows "\<exists>rb' r b'. rbc_poll_finish_read (rb\<lparr>rbc_read_buffer := vec_resize (rbc_read_buffer rb) n 0\<rparr>) = Some (rb', r) \<and>
     yields (rbc_channel rb') xs b' \<and> rbc_reads B rb' us b' ns \<and> length (rbc_read_buffer rb') = n \<and>
     rbc_write_buffer rb' = rbc_write_buffer rb \<and> rbc_write_pos rb' = rbc_write_pos rb \<and>
     (r = Pending \<and> rbc_read_pos rb' < n \<and> readable (rbc_channel rb') = 0 \<or> r = Ready (Inr ()) \<and> rbc_read_pos rb' = n)"
proof -
  let ?pos = "rbc_read_pos rb" and ?buf = "rbc_read_buffer rb"
  let ?C = "rbc_coding B :: ('i, 'i rbc, 'm, 'm) message_coding"
  obtain rest where i: "?pos \<le> length ?buf" "b = length (rbc_stream B ns) + ?pos" "us = ns @ rest"
    "prefix (take ?pos ?buf) (rbc_stream B (take 1 rest))" using rd by (auto simp: rbc_reads_def)
  have "prefix xs (unit_stream ?C (ns @ rest))" "yields (rbc_channel rb) xs (length (unit_stream ?C ns) + ?pos)"
    "prefix (take ?pos ?buf) (unit_stream ?C (take 1 rest))" using pre y i by simp_all
  from unit_fill [OF src this(1,2) i(1) this(3) n] fit i(3) obtain c buf pos where
    f: "finish_read (poll_read id) (rbc_channel rb) (vec_resize ?buf n 0) ?pos =
       Some (c, buf, pos, if pos = n then Ready (Inr ()) else Pending)" "pos \<le> n" "length buf = n"
    "yields c xs (length (rbc_stream B ns) + pos)" "prefix (take pos buf) (rbc_stream B (take 1 rest))"
    "pos \<noteq> n \<longrightarrow> readable c = 0" by auto
  let ?rb = "rb\<lparr>rbc_read_buffer := vec_resize ?buf n 0, rbc_channel := c, rbc_read_buffer := buf, rbc_read_pos := pos\<rparr>"
  have "rbc_reads B ?rb us (length (rbc_stream B ns) + pos) ns" using f(2,3,5) i(3) by (auto simp: rbc_reads_def)
  moreover have "rbc_poll_finish_read (rb\<lparr>rbc_read_buffer := vec_resize ?buf n 0\<rparr>) =
      Some (?rb, if pos = n then Ready (Inr ()) else Pending)" using f(1) by (simp add: rbc_poll_finish_read_def)
  ultimately show ?thesis using f(2-4,6)
    by (intro exI [of _ ?rb] exI [of _ "if pos = n then Ready (Inr ()) else Pending"] exI [of _ "length (rbc_stream B ns) + pos"]) auto
qed

lemma rbc_incomplete:
  fixes B :: "('m, 'e) bincode"
  assumes "rbc_reads B rb us b ns" and "\<And>m rest. us = ns @ m # rest \<Longrightarrow> rbc_read_pos rb < length (frame (rbc_encode B m))"
  shows "units_within (rbc_coding B :: ('i, 'i rbc, 'm, 'm) message_coding) us b = ns"
proof -
  let ?C = "rbc_coding B :: ('i, 'i rbc, 'm, 'm) message_coding"
  obtain rest where i: "b = length (unit_stream ?C ns) + rbc_read_pos rb" "us = ns @ rest"
    using assms(1) by (auto simp: rbc_reads_def)
  show ?thesis unfolding i using assms(2) i(2) by (intro units_within_incomplete) simp
qed

text \<open>A receiver that has the header knows the length of the frame.\<close>

lemma rbc_header:
  assumes laws: "bincode_laws B" and rd: "rbc_reads B rb us b ns" and two: "2 \<le> rbc_read_pos rb"
    and ok: "\<forall>m\<in>set us. rbc_serializes B m"
  obtains m rest where "us = ns @ m # rest" "rbc_read_pos rb \<le> length (frame (rbc_encode B m))"
    "slice (rbc_read_buffer rb) 0 2 = Some (write_u16 (length (rbc_encode B m)))" "length (rbc_encode B m) \<le> u16_max"
    "rbc_serializes B m"
proof -
  obtain rest where i: "rbc_read_pos rb \<le> length (rbc_read_buffer rb)" "us = ns @ rest"
    "prefix (take (rbc_read_pos rb) (rbc_read_buffer rb)) (rbc_stream B (take 1 rest))" using rd by (auto simp: rbc_reads_def)
  then obtain m rest' where r: "rest = m # rest'" using two by (cases rest) (auto simp: take_eq_Nil2)
  have p: "prefix (take (rbc_read_pos rb) (rbc_read_buffer rb)) (frame (rbc_encode B m))" using i(3) r by simp
  then obtain z where z: "frame (rbc_encode B m) = take (rbc_read_pos rb) (rbc_read_buffer rb) @ z" by (auto simp: prefix_def)
  have m: "rbc_serializes B m" using ok i(2) r by simp
  have "take 2 (rbc_read_buffer rb) = take 2 (frame (rbc_encode B m))" unfolding z using two i(1) by (simp add: min_def)
  then have "slice (rbc_read_buffer rb) 0 2 = Some (write_u16 (length (rbc_encode B m)))"
    using two i(1) by (simp add: slice_def frame_def)
  then show ?thesis using that i(1,2) r m prefix_length_le [OF p] bincode_laws.encode_law(2) [OF laws m] by simp
qed

lemma rbc_recv_law:
  assumes laws: "bincode_laws B" and src: "byte_source (poll_read id) yields readable"
    and y: "yields (rbc_channel rb) xs b" and pre: "prefix xs (rbc_stream B us)"
    and ok: "\<forall>m\<in>set us. rbc_serializes B m" and rd: "rbc_reads B rb us b ns"
  shows "\<exists>rb' r b' ns'. rbc_poll_recv B rb = Some (rb', r) \<and> yields (rbc_channel rb') xs b' \<and> rbc_reads B rb' us b' ns' \<and>
     rbc_write_buffer rb' = rbc_write_buffer rb \<and> rbc_write_pos rb' = rbc_write_pos rb \<and>
     (r = Pending \<and> ns' = ns \<and> readable (rbc_channel rb') = 0 \<and> ns = units_within (rbc_coding B) us b' \<or>
      (\<exists>m. r = Ready (Inr m) \<and> ns' = ns @ [m]))"
proof -
  have "\<exists>rb1 r1 b1. (if rbc_read_pos rb < 2
         then rbc_poll_finish_read (rb\<lparr>rbc_read_buffer := vec_resize (rbc_read_buffer rb) 2 0\<rparr>)
         else Some (rb, Ready (Inr ()))) = Some (rb1, r1) \<and> yields (rbc_channel rb1) xs b1 \<and> rbc_reads B rb1 us b1 ns \<and>
       rbc_write_buffer rb1 = rbc_write_buffer rb \<and> rbc_write_pos rb1 = rbc_write_pos rb \<and>
       (r1 = Pending \<and> rbc_read_pos rb1 < 2 \<and> readable (rbc_channel rb1) = 0 \<or> r1 = Ready (Inr ()) \<and> 2 \<le> rbc_read_pos rb1)"
  proof (cases "rbc_read_pos rb < 2")
    case True
    then have "rbc_read_pos rb \<le> 2" "2 \<le> usize_max" by (simp_all add: usize_max_def)
    from rbc_fill [OF src pre y rd this] True show ?thesis by fastforce
  next
    case False
    then show ?thesis using y rd by (intro exI [of _ rb] exI [of _ "Ready (Inr ())"] exI [of _ b]) simp
  qed
  then obtain rb1 r1 b1 where h: "(if rbc_read_pos rb < 2
         then rbc_poll_finish_read (rb\<lparr>rbc_read_buffer := vec_resize (rbc_read_buffer rb) 2 0\<rparr>)
         else Some (rb, Ready (Inr ()))) = Some (rb1, r1)" "yields (rbc_channel rb1) xs b1" "rbc_reads B rb1 us b1 ns"
    "rbc_write_buffer rb1 = rbc_write_buffer rb" "rbc_write_pos rb1 = rbc_write_pos rb"
    "r1 = Pending \<and> rbc_read_pos rb1 < 2 \<and> readable (rbc_channel rb1) = 0 \<or> r1 = Ready (Inr ()) \<and> 2 \<le> rbc_read_pos rb1"
    by blast
  from h(6) show ?thesis
  proof
    assume r: "r1 = Pending \<and> rbc_read_pos rb1 < 2 \<and> readable (rbc_channel rb1) = 0"
    then have "units_within (rbc_coding B) us b1 = ns" by (intro rbc_incomplete [OF h(3)]) simp
    moreover have "rbc_poll_recv B rb = Some (rb1, Pending)"
      using h(1) r by (simp add: rbc_poll_recv_def rbc_poll_recv_ready_def)
    ultimately show ?thesis using h(2-5) r by auto
  next
    assume r: "r1 = Ready (Inr ()) \<and> 2 \<le> rbc_read_pos rb1"
    then obtain m rest where m: "us = ns @ m # rest" "rbc_read_pos rb1 \<le> length (frame (rbc_encode B m))"
      "slice (rbc_read_buffer rb1) 0 2 = Some (write_u16 (length (rbc_encode B m)))" "length (rbc_encode B m) \<le> u16_max"
      "rbc_serializes B m" using rbc_header [OF laws h(3) _ ok] by blast
    let ?n = "length (rbc_encode B m) + 2"
    have n: "rbc_read_pos rb1 \<le> ?n" "?n \<le> usize_max" using m(2,4) by (simp_all add: u16_max_def usize_max_def)
    have "length (frame (rbc_encode B m')) = ?n" if "us = ns @ m' # rest'" for m' rest' using that m(1) by simp
    from rbc_fill [OF src pre h(2,3) n] this obtain rb2 r2 b2 where
      f: "rbc_poll_finish_read (rb1\<lparr>rbc_read_buffer := vec_resize (rbc_read_buffer rb1) ?n 0\<rparr>) = Some (rb2, r2)"
      "yields (rbc_channel rb2) xs b2" "rbc_reads B rb2 us b2 ns" "length (rbc_read_buffer rb2) = ?n"
      "rbc_write_buffer rb2 = rbc_write_buffer rb1" "rbc_write_pos rb2 = rbc_write_pos rb1"
      "r2 = Pending \<and> rbc_read_pos rb2 < ?n \<and> readable (rbc_channel rb2) = 0 \<or> r2 = Ready (Inr ()) \<and> rbc_read_pos rb2 = ?n"
      by (metis order_refl)
    have ready: "rbc_poll_recv_ready rb = Some (rb2, r2)"
      using h(1) r m(3,4) f(1) by (simp add: rbc_poll_recv_ready_def Let_def)
    from f(7) show ?thesis
    proof
      assume p: "r2 = Pending \<and> rbc_read_pos rb2 < ?n \<and> readable (rbc_channel rb2) = 0"
      then have "units_within (rbc_coding B) us b2 = ns" using m(1) by (intro rbc_incomplete [OF f(3)]) simp
      moreover have "rbc_poll_recv B rb = Some (rb2, Pending)" using ready p by (simp add: rbc_poll_recv_def)
      ultimately show ?thesis using f(2-6) h(4,5) p by auto
    next
      assume p: "r2 = Ready (Inr ()) \<and> rbc_read_pos rb2 = ?n"
      have "prefix (rbc_read_buffer rb2) (frame (rbc_encode B m))" "b2 = length (rbc_stream B ns) + ?n"
        using f(3,4) p m(1) by (auto simp: rbc_reads_def)
      then have buf: "rbc_read_buffer rb2 = frame (rbc_encode B m)" "b2 = length (rbc_stream B (ns @ [m]))"
        using f(4) by (auto intro: prefix_same_length)
      have "rbc_recv_next B rb2 = Some (rb2\<lparr>rbc_read_pos := 0\<rparr>, Inr m)"
        using buf bincode_laws.encode_law(3) [OF laws m(5)] by (simp add: rbc_recv_next_def slice_def frame_def)
      then have "rbc_poll_recv B rb = Some (rb2\<lparr>rbc_read_pos := 0\<rparr>, Ready (Inr m))"
        using ready p by (simp add: rbc_poll_recv_def)
      moreover have "rbc_reads B (rb2\<lparr>rbc_read_pos := 0\<rparr>) us b2 (ns @ [m])" using m(1) buf(2) by (simp add: rbc_reads_def)
      ultimately show ?thesis using f(2,5,6) h(4,5) by auto
    qed
  qed
qed

context bincode_laws
begin

text \<open>The channel keeps the contract.\<close>

lemma rbc_message_stream: "message_stream (rbc_ops B) (rbc_coding B :: ('i, 'i rbc, 'm, 'm) message_coding)"
proof (unfold_locales, goal_cases)
  case (9 c us ms)
  then show ?case by (simp add: rbc_sends_def)
next
  case (10 c us ms)
  then show ?case by (simp add: rbc_sends_def)
next
  case (11 c us b ns vs)
  then have "prefix ns us" by (auto simp: rbc_reads_def)
  with 11 rbc_reads_grow [of B c us b ns vs] show ?case by simp
next
  case (12 accepts M c xs us ms m)
  then have u: "us = ms" by (simp add: rbc_sends_def)
  have "accepts (rbc_channel c) xs" "rbc_sends B c ms ms" "rbc_serializes B m"
    "xs @ drop (rbc_write_pos c) (rbc_write_buffer c) = rbc_stream B ms" "length (rbc_stream B ms) \<le> M"
    using 12 u by simp_all
  from rbc_send_law [OF bincode_laws_axioms this(3) 12(1) this(1,2,4,5)] obtain c' r xs' ms' where
    s: "rbc_poll_send B m c = Some (c', r)" "accepts (rbc_channel c') xs'" "rbc_sends B c' ms' ms'"
    "xs' @ drop (rbc_write_pos c') (rbc_write_buffer c') = rbc_stream B ms'" "rbc_reads B c' = rbc_reads B c"
    "r = Pending \<and> ms' = ms \<or> r = Ready (Inr ()) \<and> ms' = ms @ [m]" by blast
  have "\<exists>vs. ms' = us @ vs" using s(6) u by auto
  then obtain vs where "ms' = us @ vs" ..
  with s show ?case
    by (intro exI [of _ c'] exI [of _ r] exI [of _ xs'] exI [of _ vs] exI [of _ ms']) (simp add: rbc_ops_def)
next
  case (13 accepts M c xs us ms)
  then have u: "us = ms" by (simp add: rbc_sends_def)
  have "accepts (rbc_channel c) xs" "rbc_sends B c ms ms"
    "xs @ drop (rbc_write_pos c) (rbc_write_buffer c) = rbc_stream B ms" "length (rbc_stream B ms) \<le> M"
    using 13 u by simp_all
  from rbc_flush_law [OF 13(1) this] obtain c' r xs' where
    s: "rbc_poll_flush c = Some (c', r)" "accepts (rbc_channel c') xs'" "rbc_sends B c' ms ms"
    "xs' @ drop (rbc_write_pos c') (rbc_write_buffer c') = rbc_stream B ms" "rbc_reads B c' = rbc_reads B c"
    "r = Pending \<or> r = Ready (Inr ()) \<and> rbc_write_buffer c' = []" by blast
  then show ?case using u
    by (intro exI [of _ c'] exI [of _ "map_poll (map_sum Reliable_error id) r"] exI [of _ xs'] exI [of _ "[]"])
      (auto simp: rbc_ops_def)
next
  case (14 yields c xs b us ns)
  then have "yields (rbc_channel c) xs b" "prefix xs (rbc_stream B us)" "\<forall>m\<in>set us. rbc_serializes B m" "rbc_reads B c us b ns"
    by simp_all
  from rbc_recv_law [OF bincode_laws_axioms 14(1) this] obtain c' r b' ns' where
    s: "rbc_poll_recv B c = Some (c', r)" "yields (rbc_channel c') xs b'" "rbc_reads B c' us b' ns'"
    "rbc_write_buffer c' = rbc_write_buffer c" "rbc_write_pos c' = rbc_write_pos c"
    "r = Pending \<and> ns' = ns \<and> readable (rbc_channel c') = 0 \<and> ns = units_within (rbc_coding B :: ('i, 'i rbc, 'm, 'm) message_coding) us b' \<or>
      (\<exists>m. r = Ready (Inr m) \<and> ns' = ns @ [m])" by blast
  have "rbc_sends B c' = rbc_sends B c" using s(4,5) by (intro ext) (simp add: rbc_sends_def)
  with s show ?case
    by (intro exI [of _ c'] exI [of _ r] exI [of _ b'] exI [of _ ns']) (simp add: rbc_ops_def)
qed (simp_all add: ReliableBincodeChannel_new_def rbc_sends_def rbc_reads_def fun_eq_iff)

end

interpretation byte_rbc: message_stream "rbc_ops byte_bincode" "rbc_coding byte_bincode"
  by (rule byte_bincode.rbc_message_stream)

subsection \<open>Properties\<close>

text \<open>
  C4: messages over a lossy network. Two fresh reliable bincode channels whose packets are lost,
  duplicated, delayed and reordered in any way: for every sequence of sends, flushes, receives and
  rounds of the tasks, every operation returns without a panic or an error, each application has
  received a prefix of the messages the other sent, in order, and when the sender has nothing left in
  its buffers and the receiver has to wait, it has received all of them. The messages must serialize
  within the limit, and the stream must stay below two GiB less a window.
\<close>

theorem reliable_messages_delivered:
  fixes B :: "('m, 'e) bincode" and a b :: "'i reliable_channel"
  assumes laws: "bincode_laws B"
    and A: "ReliableChannel_new tmA capA stA = Some a" "settings_ok capA stA"
    and B: "ReliableChannel_new tmB capB stB = Some b" "settings_ok capB stB"
    and "monotonic_timer tmA" "monotonic_timer tmB" "visits_entries visit"
    and ok: "\<forall>side m. (side, Msg_send m) \<in> set es \<longrightarrow> rbc_serializes B m"
    and "int (length (rbc_stream B (event_msgs True es))) + int (recv_window_size stB) < half_span"
    and "int (length (rbc_stream B (event_msgs False es))) + int (recv_window_size stA) < half_span"
  shows "\<exists>A' B' c r. msg_run (rbc_ops B) rbc_channel (\<lambda>ch rb. rb\<lparr>rbc_channel := ch\<rparr>) tmA tmB visit
       (msg_start (ReliableBincodeChannel_new a)) (msg_start (ReliableBincodeChannel_new b)) es = Some (A', B') \<and>
     failures A' = [] \<and> failures B' = [] \<and>
     prefix (got_msgs B') (map Inr (sent_msgs A')) \<and> prefix (got_msgs A') (map Inr (sent_msgs B')) \<and>
     rbc_poll_recv B (conn B') = Some (c, r) \<and>
     (r = Pending \<and> rbc_write_buffer (conn A') = [] \<and>
        rb_count (sw_ring (send_window (task (rbc_channel (conn A'))))) = 0 \<longrightarrow> got_msgs B' = map Inr (sent_msgs A'))"
proof -
  let ?C = "rbc_coding B :: ('i, 'i rbc, 'm, 'm) message_coding"
  have ok': "\<forall>(side, ev)\<in>set es. msg_event_ok ?C ev"
  proof clarify
    fix side ev assume "(side, ev) \<in> set es"
    with ok show "msg_event_ok ?C ev" by (cases ev) auto
  qed
  have cost: "int (msgs_cost ?C (event_msgs True es)) + int (recv_window_size stB) < half_span"
    "int (msgs_cost ?C (event_msgs False es)) + int (recv_window_size stA) < half_span" using assms(10,11) by simp_all
  have put: "cd_put ?C = (\<lambda>ch rb. rb\<lparr>rbc_channel := ch\<rparr>)" by (intro ext) simp
  from message_stream.end_to_end [OF bincode_laws.rbc_message_stream [OF laws] A B assms(6-8) ok' cost]
  show ?thesis unfolding put by (simp add: rbc_ops_def)
qed

theorem reliable_messages_delivered_witness:
  "\<exists>a b A' B' c r. ReliableChannel_new nano_timer 100 small_settings = Some a \<and>
     ReliableChannel_new nano_timer 100 small_settings = Some b \<and>
     msg_run (rbc_ops byte_bincode) rbc_channel (\<lambda>ch rb. rb\<lparr>rbc_channel := ch\<rparr>) nano_timer nano_timer (\<lambda>_ ks. ks)
       (msg_start (ReliableBincodeChannel_new a)) (msg_start (ReliableBincodeChannel_new b))
       [(True, Msg_send 7), (True, Msg_flush), (True, Msg_round (Can_send 0)), (False, Msg_round (Packet_arrives 0)),
        (False, Msg_recv)] = Some (A', B') \<and>
     failures A' = [] \<and> prefix (got_msgs B') (map Inr (sent_msgs A')) \<and> rbc_poll_recv byte_bincode (conn B') = Some (c, r)"
proof -
  let ?es = "[(True, Msg_send 7), (True, Msg_flush), (True, Msg_round (Can_send 0)), (False, Msg_round (Packet_arrives 0)),
    (False, Msg_recv)]"
  obtain a where a: "ReliableChannel_new nano_timer 100 small_settings = Some a" using small_channel by blast
  have vis: "visits_entries (\<lambda>_ ks. ks)" by (simp add: visits_entries_def)
  have ok: "\<forall>side m. (side, Msg_send m) \<in> set ?es \<longrightarrow> rbc_serializes byte_bincode m"
    by (simp add: rbc_serializes_def byte_bincode_def RB_MAX_MESSAGE_LEN_def u16_max_def)
  have cost: "int (length (rbc_stream byte_bincode (event_msgs True ?es))) + int (recv_window_size small_settings) < half_span"
    "int (length (rbc_stream byte_bincode (event_msgs False ?es))) + int (recv_window_size small_settings) < half_span"
    by (simp_all add: rbc_encode_def byte_bincode_def RB_MAX_MESSAGE_LEN_def u16_max_def small_settings_def)
  from reliable_messages_delivered [OF byte_bincode.bincode_laws_axioms a small_settings_ok a small_settings_ok
      nano_timer_monotonic nano_timer_monotonic vis ok cost] a
  show ?thesis by blast
qed

text \<open>
  C40: a message that fails to serialize is not unsent. \<open>start_send\<close> returns the error but leaves the
  empty header and the bytes written before the error in the buffer. Another \<open>start_send\<close> panics until
  they are flushed, and a flush pushes them into the stream.
\<close>

theorem failed_send_stays_in_buffer:
  assumes "rbc_write_buffer rb = []" and "bc_serialize_into B RB_MAX_MESSAGE_LEN m = (bytes, Inl e)"
  shows "\<exists>rb'. rbc_start_send B m rb = Some (rb', Inl e) \<and> rbc_write_buffer rb' = [0, 0] @ bytes \<and>
     (\<forall>m'. rbc_start_send B m' rb' = None) \<and>
     (byte_sink (poll_write id) ReliableChannel_flush accepts write_room M \<and> accepts (rbc_channel rb) xs \<and>
      rbc_write_pos rb = 0 \<and> length bytes + 2 \<le> write_room (rbc_channel rb) \<and> length bytes + 2 \<le> usize_max \<and>
      length xs + length bytes + 2 \<le> M \<longrightarrow>
      (\<exists>rb''. rbc_poll_send_ready rb' = Some (rb'', Ready (Inr ())) \<and> accepts (rbc_channel rb'') (xs @ [0, 0] @ bytes)))"
proof -
  let ?buf = "[0, 0] @ bytes"
  let ?rb = "rb\<lparr>rbc_write_buffer := ?buf\<rparr>"
  have st: "rbc_start_send B m rb = Some (?rb, Inl e)"
    using assms by (simp add: rbc_start_send_def vec_resize_def numeral_2_eq_2)
  have "\<exists>rb''. rbc_poll_send_ready ?rb = Some (rb'', Ready (Inr ())) \<and> accepts (rbc_channel rb'') (xs @ ?buf)"
    if s: "byte_sink (poll_write id) ReliableChannel_flush accepts write_room M" "accepts (rbc_channel rb) xs"
      "rbc_write_pos rb = 0" "length bytes + 2 \<le> write_room (rbc_channel rb)" "length bytes + 2 \<le> usize_max"
      "length xs + length bytes + 2 \<le> M"
  proof -
    have n: "length ?buf = min (length ?buf - 0) (write_room (rbc_channel rb))" using s(4) by simp
    from byte_sink.send_ready_returns [OF s(1,2) _ _ _ n] s(5,6) obtain c where
      "send_ready_loop (poll_write id) (rbc_channel rb) ?buf 0 = Some (c, [], 0, Ready (Inr ()))" "accepts c (xs @ ?buf)"
      by auto
    then show ?thesis using s(3) by (auto simp: rbc_poll_send_ready_def)
  qed
  then show ?thesis using st by (intro exI [of _ ?rb]) (auto simp: rbc_start_send_def)
qed

text \<open>An encoding that writes a byte and then fails.\<close>

definition failing_bincode :: "(byte, unit) bincode" where
  "failing_bincode = byte_bincode\<lparr>bc_serialize_into := (\<lambda>limit b. ([b], Inl ()))\<rparr>"

theorem failed_send_stays_in_buffer_witness:
  "\<exists>ch rb' rb''. ReliableChannel_new nano_timer 100 small_settings = Some ch \<and>
     rbc_start_send failing_bincode 7 (ReliableBincodeChannel_new ch) = Some (rb', Inl ()) \<and>
     rbc_write_buffer rb' = [0, 0, 7] \<and> rbc_poll_send_ready rb' = Some (rb'', Ready (Inr ()))"
proof -
  obtain A where A: "endpoint_new nano_timer 100 small_settings = Some A" using small_endpoint by blast
  note e = endpoint_new_ok [OF A small_settings_ok] and t = Task_new_inv [OF endpoint_new_ok(1) [OF A small_settings_ok] small_settings_ok]
  let ?rb = "ReliableBincodeChannel_new (chan A)"
  have "net_inv nano_timer nano_timer 100 100 A A"
    by (rule net_inv_new [OF A small_settings_ok A small_settings_ok]) (simp_all add: small_settings_def)
  moreover have "A\<lparr>chan := chan A, accepted := []\<rparr> = A" using e(3) by simp
  ultimately have acc: "net_accepts nano_timer nano_timer 100 100 A A (rbc_channel ?rb) []"
    by (simp add: net_accepts_def ReliableBincodeChannel_new_def)
  have room: "write_room (chan A) = 64" using t(7,10) by (simp add: write_room_def small_settings_def)
  have "rbc_write_buffer ?rb = []" "bc_serialize_into failing_bincode RB_MAX_MESSAGE_LEN 7 = ([7], Inl ())"
    by (simp_all add: ReliableBincodeChannel_new_def failing_bincode_def)
  from failed_send_stays_in_buffer [OF this, of "net_accepts nano_timer nano_timer 100 100 A A" 100 "[]"]
    net_sink.byte_sink_axioms [of nano_timer nano_timer 100 100 A A] acc room
  obtain rb' rb'' where "rbc_start_send failing_bincode 7 ?rb = Some (rb', Inl ())" "rbc_write_buffer rb' = [0, 0, 7]"
    "rbc_poll_send_ready rb' = Some (rb'', Ready (Inr ()))"
    by (auto simp: ReliableBincodeChannel_new_def usize_max_def)
  moreover have "ReliableChannel_new nano_timer 100 small_settings = Some (chan A)"
    using A by (auto simp: endpoint_new_def option_bind_eq_Some)
  ultimately show ?thesis by blast
qed

end
