(* ===== verification/Compressed_Bincode.thy ===== *)
theory Compressed_Bincode
  imports Message_Stream Bincode
begin

text \<open>
  Compressed messages over the reliable channel (\<open>compressed_bincode_channel.rs\<close>).

  Serialized messages are collected end to end in a chunk. When the chunk is full, or at a flush, it is
  written to the stream as a byte that says whether it is compressed, two bytes of length, and the
  compressed chunk, or the chunk itself when compression does not make it shorter. The receiver reads a
  chunk and takes messages from it until it is used up.

  The \<open>snap\<close> package is the argument \<open>S\<close>. An encoder writes into an output slice and returns the number
  of bytes it wrote, and so does a decoder. The typed channel of the same file only fixes the message
  type.
\<close>

record 'x snap =
  sn_max_compress_len :: "nat \<Rightarrow> nat"
  sn_compress :: "byte list \<Rightarrow> byte list \<Rightarrow> byte list \<times> ('x + nat)"
  sn_decompress_len :: "byte list \<Rightarrow> 'x + nat"
  sn_decompress :: "byte list \<Rightarrow> byte list \<Rightarrow> byte list \<times> ('x + nat)"

definition CB_MAX_MESSAGE_LEN :: nat where
  "CB_MAX_MESSAGE_LEN = u16_max"

datatype ('e, 'x) cbc_error = Cb_reliable rel_error | Cb_bincode 'e | Cb_snap 'x

record 'i cbc =
  cb_channel :: "'i reliable_channel"
  cb_send_chunk :: "byte list"
  cb_write_buffer :: "byte list"
  cb_write_pos :: nat
  cb_read_buffer :: "byte list"
  cb_read_pos :: nat
  cb_recv_chunk :: "byte list"
  cb_recv_pos :: nat

definition CompressedBincodeChannel_new :: "'i reliable_channel \<Rightarrow> 'i cbc" where
  "CompressedBincodeChannel_new ch =
     \<lparr>cb_channel = ch, cb_send_chunk = [], cb_write_buffer = [], cb_write_pos = 0, cb_read_buffer = [],
      cb_read_pos = 0, cb_recv_chunk = [], cb_recv_pos = 0\<rparr>"

subsection \<open>Sending\<close>

definition cbc_poll_finish_write :: "'i cbc \<Rightarrow> ('i cbc \<times> (rel_error + unit) poll) option" where
  "cbc_poll_finish_write cb = do {
     (c, pos, r) \<leftarrow> finish_write (poll_write id) (cb_channel cb) (cb_write_buffer cb) (cb_write_pos cb);
     Some (cb\<lparr>cb_channel := c, cb_write_pos := pos\<rparr>, r)
   }"

text \<open>The buffer for a chunk, from the buffer that was written before.\<close>

definition encode_chunk :: "'x snap \<Rightarrow> byte list \<Rightarrow> byte list \<Rightarrow> byte list option" where
  "encode_chunk S chunk buf = do {
     len \<leftarrow> usize_add (sn_max_compress_len S (length chunk)) 3;
     let buf = vec_resize buf len 0;
     out \<leftarrow> slice buf 3 (length buf);
     let (out, res) = sn_compress S chunk out;
     let buf = take 3 buf @ out;
     compressed_len \<leftarrow> (case res of Inl e \<Rightarrow> None | Inr n \<Rightarrow> Some n);
     end \<leftarrow> usize_add compressed_len 3;
     let buf = take end buf;
     if length chunk \<le> compressed_len then do {
       let buf = take (length chunk + 3) buf;
       assert_that (length buf = length chunk + 3);
       buf \<leftarrow> copy_at buf 3 chunk;
       buf \<leftarrow> vec_set buf 0 0;
       assert_that (length chunk \<le> u16_max);
       copy_at buf 1 (write_u16 (length chunk))
     } else do {
       buf \<leftarrow> vec_set buf 0 1;
       assert_that (compressed_len \<le> u16_max);
       copy_at buf 1 (write_u16 compressed_len)
     }
   }"

definition cbc_poll_write_send_chunk :: "'x snap \<Rightarrow> 'i cbc \<Rightarrow> ('i cbc \<times> (rel_error + unit) poll) option" where
  "cbc_poll_write_send_chunk S cb =
     (if cb_send_chunk cb \<noteq> [] then do {
        (cb, r) \<leftarrow> cbc_poll_finish_write cb;
        (case r of
           Ready (Inr _) \<Rightarrow> do {
             buf \<leftarrow> encode_chunk S (cb_send_chunk cb) (cb_write_buffer cb);
             Some (cb\<lparr>cb_write_pos := 0, cb_write_buffer := buf, cb_send_chunk := []\<rparr>, Ready (Inr ()))
           }
         | _ \<Rightarrow> Some (cb, r))
      } else Some (cb, Ready (Inr ())))"

definition cbc_poll_send ::
  "('m, 'e) bincode \<Rightarrow> 'x snap \<Rightarrow> 'm \<Rightarrow> 'i cbc \<Rightarrow> ('i cbc \<times> (('e, 'x) cbc_error + unit) poll) option" where
  "cbc_poll_send B S msg cb =
     (case bc_serialized_size B CB_MAX_MESSAGE_LEN msg of
        Inl e \<Rightarrow> Some (cb, Ready (Inl (Cb_bincode e)))
      | Inr serialized_len \<Rightarrow> do {
          total \<leftarrow> usize_add (length (cb_send_chunk cb)) serialized_len;
          (cb, r) \<leftarrow> (if CB_MAX_MESSAGE_LEN < total then cbc_poll_write_send_chunk S cb
                    else Some (cb, Ready (Inr ())));
          (case r of
             Pending \<Rightarrow> Some (cb, Pending)
           | Ready (Inl e) \<Rightarrow> Some (cb, Ready (Inl (Cb_reliable e)))
           | Ready (Inr _) \<Rightarrow>
               let (bytes, res) = bc_serialize_into B CB_MAX_MESSAGE_LEN msg;
                   cb = cb\<lparr>cb_send_chunk := cb_send_chunk cb @ bytes\<rparr>
               in Some (cb, Ready (case res of Inl e \<Rightarrow> Inl (Cb_bincode e) | Inr _ \<Rightarrow> Inr ())))
        })"

definition cbc_try_send ::
  "('m, 'e) bincode \<Rightarrow> 'x snap \<Rightarrow> 'm \<Rightarrow> 'i cbc \<Rightarrow> ('i cbc \<times> (('e, 'x) cbc_error + bool)) option" where
  "cbc_try_send B S msg cb = map_option (apsnd try_result) (cbc_poll_send B S msg cb)"

definition cbc_poll_flush :: "'x snap \<Rightarrow> 'i cbc \<Rightarrow> ('i cbc \<times> (rel_error + unit) poll) option" where
  "cbc_poll_flush S cb = do {
     (cb, r) \<leftarrow> cbc_poll_write_send_chunk S cb;
     (case r of
        Ready (Inr _) \<Rightarrow> do {
          (cb, r) \<leftarrow> cbc_poll_finish_write cb;
          (case r of
             Ready (Inr _) \<Rightarrow>
               (case ReliableChannel_flush (cb_channel cb) of (c, r) \<Rightarrow> Some (cb\<lparr>cb_channel := c\<rparr>, Ready r))
           | _ \<Rightarrow> Some (cb, r))
        }
      | _ \<Rightarrow> Some (cb, r))
   }"

definition cbc_try_flush :: "'x snap \<Rightarrow> 'i cbc \<Rightarrow> ('i cbc \<times> (rel_error + bool)) option" where
  "cbc_try_flush S cb = map_option (apsnd try_result) (cbc_poll_flush S cb)"

subsection \<open>Receiving\<close>

definition cbc_poll_finish_read :: "'i cbc \<Rightarrow> ('i cbc \<times> (rel_error + unit) poll) option" where
  "cbc_poll_finish_read cb = do {
     (c, buf, pos, r) \<leftarrow> finish_read (poll_read id) (cb_channel cb) (cb_read_buffer cb) (cb_read_pos cb);
     Some (cb\<lparr>cb_channel := c, cb_read_buffer := buf, cb_read_pos := pos\<rparr>, r)
   }"

text \<open>The end of an iteration: the chunk from the buffer, decompressed if it was compressed.\<close>

definition decode_chunk :: "'x snap \<Rightarrow> bool \<Rightarrow> nat \<Rightarrow> 'i cbc \<Rightarrow> ('i cbc \<times> ('x + unit)) option" where
  "decode_chunk S compressed chunk_len cb = do {
     body \<leftarrow> slice (cb_read_buffer cb) 3 (length (cb_read_buffer cb));
     if compressed then
       (case sn_decompress_len S body of
          Inl e \<Rightarrow> Some (cb, Inl e)
        | Inr decompressed_len \<Rightarrow>
            let chunk = vec_resize (cb_recv_chunk cb) (min decompressed_len CB_MAX_MESSAGE_LEN) 0;
                (chunk, res) = sn_decompress S body chunk;
                cb = cb\<lparr>cb_recv_chunk := chunk\<rparr>
            in Some (case res of Inl e \<Rightarrow> (cb, Inl e) | Inr _ \<Rightarrow> (cb\<lparr>cb_recv_pos := 0, cb_read_pos := 0\<rparr>, Inr ())))
     else do {
       let chunk = vec_resize (cb_recv_chunk cb) chunk_len 0;
       assert_that (length chunk = length body);
       Some (cb\<lparr>cb_recv_chunk := body, cb_recv_pos := 0, cb_read_pos := 0\<rparr>, Inr ())
     }
   }"

partial_function (option) cbc_poll_recv_ready ::
  "'x snap \<Rightarrow> 'i cbc \<Rightarrow> ('i cbc \<times> (('e, 'x) cbc_error + unit) poll) option" where
  "cbc_poll_recv_ready S cb =
     (if cb_recv_pos cb < length (cb_recv_chunk cb) then Some (cb, Ready (Inr ()))
      else do {
        (cb, r) \<leftarrow> (if cb_read_pos cb < 3
          then cbc_poll_finish_read (cb\<lparr>cb_read_buffer := vec_resize (cb_read_buffer cb) 3 0\<rparr>)
          else Some (cb, Ready (Inr ())));
        (case r of
           Pending \<Rightarrow> Some (cb, Pending)
         | Ready (Inl e) \<Rightarrow> Some (cb, Ready (Inl (Cb_reliable e)))
         | Ready (Inr _) \<Rightarrow> do {
             flag \<leftarrow> vec_get (cb_read_buffer cb) 0;
             header \<leftarrow> slice (cb_read_buffer cb) 1 3;
             let chunk_len = read_u16 header;
             (cb, r) \<leftarrow> cbc_poll_finish_read (cb\<lparr>cb_read_buffer := vec_resize (cb_read_buffer cb) (chunk_len + 3) 0\<rparr>);
             (case r of
                Pending \<Rightarrow> Some (cb, Pending)
              | Ready (Inl e) \<Rightarrow> Some (cb, Ready (Inl (Cb_reliable e)))
              | Ready (Inr _) \<Rightarrow> do {
                  (cb, r) \<leftarrow> decode_chunk S (flag \<noteq> 0) chunk_len cb;
                  (case r of
                     Inl e \<Rightarrow> Some (cb, Ready (Inl (Cb_snap e)))
                   | Inr _ \<Rightarrow> cbc_poll_recv_ready S cb)
                })
           })
      })"

definition cbc_recv_next :: "('m, 'e) bincode \<Rightarrow> 'i cbc \<Rightarrow> ('i cbc \<times> ('e + 'm)) option" where
  "cbc_recv_next B cb = do {
     reader \<leftarrow> slice (cb_recv_chunk cb) (cb_recv_pos cb) (length (cb_recv_chunk cb));
     let (reader, res) = bc_deserialize_from B CB_MAX_MESSAGE_LEN reader;
     (case res of
        Inl e \<Rightarrow> Some (cb, Inl e)
      | Inr msg \<Rightarrow> do {
          pos \<leftarrow> usize_sub (length (cb_recv_chunk cb)) (length reader);
          Some (cb\<lparr>cb_recv_pos := pos\<rparr>, Inr msg)
        })
   }"

definition cbc_poll_recv ::
  "('m, 'e) bincode \<Rightarrow> 'x snap \<Rightarrow> 'i cbc \<Rightarrow> ('i cbc \<times> (('e, 'x) cbc_error + 'm) poll) option" where
  "cbc_poll_recv B S cb = do {
     (cb, r) \<leftarrow> cbc_poll_recv_ready S cb;
     (case r of
        Pending \<Rightarrow> Some (cb, Pending)
      | Ready (Inl e) \<Rightarrow> Some (cb, Ready (Inl e))
      | Ready (Inr _) \<Rightarrow> do {
          (cb, res) \<leftarrow> cbc_recv_next B cb;
          Some (cb, Ready (case res of Inl e \<Rightarrow> Inl (Cb_bincode e) | Inr m \<Rightarrow> Inr m))
        })
   }"

definition cbc_try_recv ::
  "('m, 'e) bincode \<Rightarrow> 'x snap \<Rightarrow> 'i cbc \<Rightarrow> ('i cbc \<times> (('e, 'x) cbc_error + 'm option)) option" where
  "cbc_try_recv B S cb = map_option (apsnd try_value) (cbc_poll_recv B S cb)"

subsection \<open>The package\<close>

text \<open>
  What the channel relies on: a chunk that may be sent compresses into a buffer of the size that
  \<open>max_compress_len\<close> gives, the length of what was compressed can be read from it, and it decompresses to
  the chunk. \<open>packed\<close> is the compressed form.
\<close>

locale snap_laws =
  fixes S :: "'x snap" and packed :: "byte list \<Rightarrow> byte list"
  assumes max_law: "sn_max_compress_len S n \<le> u32_max"
    and compress_law: "length xs \<le> u16_max \<Longrightarrow> sn_max_compress_len S (length xs) \<le> length out \<Longrightarrow>
      length (packed xs) \<le> length out \<and>
      sn_compress S xs out = (packed xs @ drop (length (packed xs)) out, Inr (length (packed xs)))"
    and decompress_len_law: "length xs \<le> u16_max \<Longrightarrow> sn_decompress_len S (packed xs) = Inr (length xs)"
    and decompress_law: "length xs \<le> u16_max \<Longrightarrow> length xs \<le> length out \<Longrightarrow>
      sn_decompress S (packed xs) out = (xs @ drop (length xs) out, Inr (length xs))"

text \<open>The bytes of a chunk in the stream.\<close>

definition chunk_frame :: "(byte list \<Rightarrow> byte list) \<Rightarrow> byte list \<Rightarrow> byte list" where
  "chunk_frame packed xs = (if length xs \<le> length (packed xs) then [0] @ write_u16 (length xs) @ xs
     else [1] @ write_u16 (length (packed xs)) @ packed xs)"

definition chunk_body :: "(byte list \<Rightarrow> byte list) \<Rightarrow> byte list \<Rightarrow> byte list" where
  "chunk_body packed xs = (if length xs \<le> length (packed xs) then xs else packed xs)"

lemma chunk_frame_split:
  "chunk_frame packed xs = (if length xs \<le> length (packed xs) then 0 else 1) #
     write_u16 (length (chunk_body packed xs)) @ chunk_body packed xs"
  by (simp add: chunk_frame_def chunk_body_def)

lemma length_chunk_frame [simp]: "length (chunk_frame packed xs) = length (chunk_body packed xs) + 3"
  by (simp add: chunk_frame_split)

lemma length_chunk_body: "length (chunk_body packed xs) \<le> length xs"
  by (simp add: chunk_body_def)

context snap_laws
begin

lemma encode_chunk_frame:
  assumes "length xs \<le> u16_max"
  shows "encode_chunk S xs buf = Some (chunk_frame packed xs)"
proof -
  let ?max = "sn_max_compress_len S (length xs)" and ?p = "packed xs"
  define buf' where "buf' = vec_resize buf (?max + 3) 0"
  have len: "length buf' = ?max + 3" by (simp add: buf'_def)
  define out where "out = drop 3 buf'"
  have three: "\<exists>a b c. ys = [a, b, c]" if "length ys = 3" for ys :: "byte list"
    using that by (auto simp: numeral_3_eq_3 length_Suc_conv)
  have "length (take 3 buf') = 3" using len by simp
  from three [OF this] obtain a b c where h: "take 3 buf' = [a, b, c]" by blast
  have "?max \<le> length out" using len by (simp add: out_def)
  from compress_law [OF assms this] have c: "length ?p \<le> length out"
    "sn_compress S xs out = (?p @ drop (length ?p) out, Inr (length ?p))" by blast+
  have u: "usize_add ?max 3 = Some (?max + 3)" "usize_add (length ?p) 3 = Some (length ?p + 3)"
    using max_law [of "length xs"] c(1) len by (simp_all add: usize_add_def u32_max_def usize_max_def out_def)
  have s: "slice buf' 3 (?max + 3) = Some out" using len by (simp add: slice_def out_def)
  note code = u c(2) s [unfolded buf'_def] h [unfolded buf'_def]
  have w: "length (write_u16 n) = 2" for n by simp
  show ?thesis
  proof (cases "length xs \<le> length ?p")
    case True
    then have "take (length xs + 3) (take (length ?p + 3) ([a, b, c] @ ?p @ drop (length ?p) out)) = [a, b, c] @ take (length xs) ?p"
      by (simp add: min_def take_Cons')
    then show ?thesis using True assms
      by (simp add: encode_chunk_def code Let_def) (simp add: copy_at_def vec_set_def chunk_frame_def w)
  next
    case False
    have "take (length ?p + 3) ([a, b, c] @ ?p @ drop (length ?p) out) = [a, b, c] @ ?p" by (simp add: take_Cons')
    then show ?thesis using False assms
      by (simp add: encode_chunk_def code Let_def) (simp add: copy_at_def vec_set_def chunk_frame_def w)
  qed
qed

lemma decode_chunk_frame:
  assumes xs: "length xs \<le> u16_max" and buf: "cb_read_buffer cb = chunk_frame packed xs"
  shows "decode_chunk S (\<not> length xs \<le> length (packed xs)) (length (chunk_body packed xs)) cb =
     Some (cb\<lparr>cb_recv_chunk := xs, cb_recv_pos := 0, cb_read_pos := 0\<rparr>, Inr ())"
proof -
  have body: "slice (cb_read_buffer cb) 3 (length (cb_read_buffer cb)) = Some (chunk_body packed xs)"
    by (simp add: buf slice_def chunk_frame_split)
  show ?thesis
  proof (cases "length xs \<le> length (packed xs)")
    case True
    then show ?thesis using body by (simp add: decode_chunk_def chunk_body_def Let_def)
  next
    case False
    have "min (length xs) CB_MAX_MESSAGE_LEN = length xs" using xs by (simp add: CB_MAX_MESSAGE_LEN_def)
    then show ?thesis using False body decompress_len_law [OF xs] decompress_law [OF xs, of "vec_resize (cb_recv_chunk cb) (length xs) 0"]
      by (simp add: decode_chunk_def chunk_body_def Let_def)
  qed
qed

end

subsection \<open>The contract of message channels\<close>

text \<open>
  A unit of the stream is a chunk, a nonempty list of messages. A message must not serialize to nothing:
  such messages alone do not make a chunk.
\<close>

definition cbc_encode :: "('m, 'e) bincode \<Rightarrow> 'm \<Rightarrow> byte list" where
  "cbc_encode B m = fst (bc_serialize_into B CB_MAX_MESSAGE_LEN m)"

definition cbc_sendable :: "('m, 'e) bincode \<Rightarrow> 'm \<Rightarrow> bool" where
  "cbc_sendable B m \<longleftrightarrow> snd (bc_serialize_into B CB_MAX_MESSAGE_LEN m) = Inr () \<and> cbc_encode B m \<noteq> []"

definition chunk_bytes :: "('m, 'e) bincode \<Rightarrow> 'm list \<Rightarrow> byte list" where
  "chunk_bytes B ms = concat (map (cbc_encode B) ms)"

lemma chunk_bytes_simps [simp]:
  "chunk_bytes B [] = []" "chunk_bytes B (m # ms) = cbc_encode B m @ chunk_bytes B ms"
  "chunk_bytes B (ms @ ns) = chunk_bytes B ms @ chunk_bytes B ns"
  by (simp_all add: chunk_bytes_def)

lemma chunk_bytes_Nil: "\<forall>m\<in>set ms. cbc_sendable B m \<Longrightarrow> chunk_bytes B ms = [] \<longleftrightarrow> ms = []"
  by (cases ms) (auto simp: cbc_sendable_def)

definition cbc_chunk :: "('m, 'e) bincode \<Rightarrow> 'm list \<Rightarrow> bool" where
  "cbc_chunk B u \<longleftrightarrow> u \<noteq> [] \<and> (\<forall>m\<in>set u. cbc_sendable B m) \<and> length (chunk_bytes B u) \<le> u16_max"

definition cbc_sends :: "('m, 'e) bincode \<Rightarrow> 'i cbc \<Rightarrow> 'm list list \<Rightarrow> 'm list \<Rightarrow> bool" where
  "cbc_sends B cb us ms \<longleftrightarrow> (\<exists>tl. ms = concat us @ tl \<and> cb_send_chunk cb = chunk_bytes B tl) \<and>
     (\<forall>m\<in>set ms. cbc_sendable B m) \<and> (\<forall>u\<in>set us. cbc_chunk B u) \<and> length (cb_send_chunk cb) \<le> u16_max \<and>
     cb_write_pos cb \<le> length (cb_write_buffer cb) \<and> length (cb_write_buffer cb) \<le> usize_max"

definition chunk_stream :: "('m, 'e) bincode \<Rightarrow> (byte list \<Rightarrow> byte list) \<Rightarrow> 'm list list \<Rightarrow> byte list" where
  "chunk_stream B packed us = concat (map (\<lambda>u. chunk_frame packed (chunk_bytes B u)) us)"

lemma chunk_stream_simps [simp]:
  "chunk_stream B packed [] = []"
  "chunk_stream B packed (u # us) = chunk_frame packed (chunk_bytes B u) @ chunk_stream B packed us"
  "chunk_stream B packed (us @ vs) = chunk_stream B packed us @ chunk_stream B packed vs"
  by (simp_all add: chunk_stream_def)

text \<open>
  The receiver has consumed the chunks \<open>cs\<close>, returned all their messages but \<open>cur\<close>, which are in the
  current chunk, and holds the first bytes of the next chunk.
\<close>

definition cbc_reads ::
  "('m, 'e) bincode \<Rightarrow> (byte list \<Rightarrow> byte list) \<Rightarrow> 'i cbc \<Rightarrow> 'm list list \<Rightarrow> nat \<Rightarrow> 'm list \<Rightarrow> bool" where
  "cbc_reads B packed cb us b ns \<longleftrightarrow> cb_read_pos cb \<le> length (cb_read_buffer cb) \<and>
     cb_recv_pos cb \<le> length (cb_recv_chunk cb) \<and>
     (\<exists>cs cur rest. us = cs @ rest \<and> concat cs = ns @ cur \<and> b = length (chunk_stream B packed cs) + cb_read_pos cb \<and>
        drop (cb_recv_pos cb) (cb_recv_chunk cb) = chunk_bytes B cur \<and>
        prefix (take (cb_read_pos cb) (cb_read_buffer cb)) (chunk_stream B packed (take 1 rest)))"

definition cbc_ops :: "('m, 'e) bincode \<Rightarrow> 'x snap \<Rightarrow> ('i cbc, 'm, ('e, 'x) cbc_error) message_channel" where
  "cbc_ops B S = \<lparr>mc_poll_recv = cbc_poll_recv B S, mc_poll_send = cbc_poll_send B S,
     mc_poll_flush = (\<lambda>cb. map_option (apsnd (map_poll (map_sum Cb_reliable id))) (cbc_poll_flush S cb))\<rparr>"

definition cbc_coding ::
  "('m, 'e) bincode \<Rightarrow> (byte list \<Rightarrow> byte list) \<Rightarrow> ('i, 'i cbc, 'm, 'm list) message_coding" where
  "cbc_coding B packed = \<lparr>cd_new = CompressedBincodeChannel_new, cd_get = cb_channel, cd_put = (\<lambda>ch cb. cb\<lparr>cb_channel := ch\<rparr>),
     cd_good = cbc_sendable B, cd_cost = (\<lambda>m. length (cbc_encode B m) + 3), cd_valid = cbc_chunk B,
     cd_bytes = (\<lambda>u. chunk_frame packed (chunk_bytes B u)), cd_msgs = (\<lambda>u. u),
     cd_pending = (\<lambda>cb. drop (cb_write_pos cb) (cb_write_buffer cb)),
     cd_idle = (\<lambda>cb. cb_send_chunk cb = [] \<and> cb_write_pos cb = length (cb_write_buffer cb)),
     cd_sends = cbc_sends B, cd_reads = cbc_reads B packed\<rparr>"

lemma cbc_coding_sel [simp]:
  "cd_new (cbc_coding B packed) = CompressedBincodeChannel_new" "cd_get (cbc_coding B packed) = cb_channel"
  "cd_put (cbc_coding B packed) ch cb = cb\<lparr>cb_channel := ch\<rparr>" "cd_good (cbc_coding B packed) = cbc_sendable B"
  "cd_cost (cbc_coding B packed) m = length (cbc_encode B m) + 3" "cd_valid (cbc_coding B packed) = cbc_chunk B"
  "cd_bytes (cbc_coding B packed) u = chunk_frame packed (chunk_bytes B u)" "cd_msgs (cbc_coding B packed) u = u"
  "cd_pending (cbc_coding B packed) cb = drop (cb_write_pos cb) (cb_write_buffer cb)"
  "cd_idle (cbc_coding B packed) cb \<longleftrightarrow> cb_send_chunk cb = [] \<and> cb_write_pos cb = length (cb_write_buffer cb)"
  "cd_sends (cbc_coding B packed) = cbc_sends B" "cd_reads (cbc_coding B packed) = cbc_reads B packed"
  by (simp_all add: cbc_coding_def)

lemma cbc_units [simp]:
  "unit_stream (cbc_coding B packed) us = chunk_stream B packed us" "unit_msgs (cbc_coding B packed) us = concat us"
  by (induction us) simp_all

lemma cbc_cost: "msgs_cost (cbc_coding B packed) ms = length (chunk_bytes B ms) + 3 * length ms"
  by (induction ms) simp_all

lemma chunk_stream_cost:
  assumes "\<forall>u\<in>set us. cbc_chunk B u"
  shows "length (chunk_stream B packed us) \<le> length (chunk_bytes B (concat us)) + 3 * length (concat us)"
  using assms
proof (induction us)
  case (Cons u us)
  have "3 \<le> 3 * length u" using Cons.prems by (cases u) (auto simp: cbc_chunk_def)
  then show ?case using Cons length_chunk_body [of packed "chunk_bytes B u"] by simp
qed simp

lemma cbc_sends_cost:
  assumes "cbc_sends B cb us ms"
  shows "length (chunk_stream B packed us) + (if cb_send_chunk cb = [] then 0 else length (cb_send_chunk cb) + 3) \<le>
     length (chunk_bytes B ms) + 3 * length ms"
proof -
  obtain tl where t: "ms = concat us @ tl" "cb_send_chunk cb = chunk_bytes B tl" using assms by (auto simp: cbc_sends_def)
  have "\<forall>u\<in>set us. cbc_chunk B u" using assms by (simp add: cbc_sends_def)
  from chunk_stream_cost [OF this, of packed] t show ?thesis by (cases tl) auto
qed

lemma cbc_reads_cong:
  "cb_read_pos c' = cb_read_pos c \<Longrightarrow> cb_read_buffer c' = cb_read_buffer c \<Longrightarrow> cb_recv_pos c' = cb_recv_pos c \<Longrightarrow>
   cb_recv_chunk c' = cb_recv_chunk c \<Longrightarrow> cbc_reads B packed c' = cbc_reads B packed c"
  by (intro ext) (simp add: cbc_reads_def)

lemma cbc_reads_grow: "cbc_reads B packed cb us b ns \<Longrightarrow> cbc_reads B packed cb (us @ vs) b ns"
  unfolding cbc_reads_def
proof (elim conjE exE, intro conjI)
  fix cs cur rest
  assume a: "us = cs @ rest" "concat cs = ns @ cur" "b = length (chunk_stream B packed cs) + cb_read_pos cb"
    "drop (cb_recv_pos cb) (cb_recv_chunk cb) = chunk_bytes B cur"
    "prefix (take (cb_read_pos cb) (cb_read_buffer cb)) (chunk_stream B packed (take 1 rest))"
  have "prefix (chunk_stream B packed (take 1 rest)) (chunk_stream B packed (take 1 (rest @ vs)))"
    by (cases rest) simp_all
  with a show "\<exists>cs cur rest. us @ vs = cs @ rest \<and> concat cs = ns @ cur \<and> b = length (chunk_stream B packed cs) + cb_read_pos cb \<and>
      drop (cb_recv_pos cb) (cb_recv_chunk cb) = chunk_bytes B cur \<and>
      prefix (take (cb_read_pos cb) (cb_read_buffer cb)) (chunk_stream B packed (take 1 rest))"
    by (intro exI [of _ cs] exI [of _ cur] exI [of _ "rest @ vs"]) (auto intro: prefix_order.trans)
qed

subsection \<open>Sending\<close>

context bincode_laws
begin

lemma cbc_encode_law:
  assumes "cbc_sendable B m"
  shows "bc_serialize_into B CB_MAX_MESSAGE_LEN m = (cbc_encode B m, Inr ())"
    and "bc_serialized_size B CB_MAX_MESSAGE_LEN m = Inr (length (cbc_encode B m))"
    and "bc_deserialize_from B CB_MAX_MESSAGE_LEN (cbc_encode B m @ rest) = (rest, Inr m)"
    and "length (cbc_encode B m) \<le> u16_max" and "cbc_encode B m \<noteq> []"
proof -
  show e: "bc_serialize_into B CB_MAX_MESSAGE_LEN m = (cbc_encode B m, Inr ())"
    using assms by (cases "bc_serialize_into B CB_MAX_MESSAGE_LEN m") (simp add: cbc_sendable_def cbc_encode_def)
  show "bc_serialized_size B CB_MAX_MESSAGE_LEN m = Inr (length (cbc_encode B m))" by (rule size [OF e])
  show "bc_deserialize_from B CB_MAX_MESSAGE_LEN (cbc_encode B m @ rest) = (rest, Inr m)" by (rule read_front [OF e])
  show "length (cbc_encode B m) \<le> u16_max" using within_limit [OF e] by (simp add: CB_MAX_MESSAGE_LEN_def)
  show "cbc_encode B m \<noteq> []" using assms by (simp add: cbc_sendable_def)
qed

end

text \<open>The state of the sending side while the stream of the chunks \<open>us\<close> is written.\<close>

definition cbc_writing ::
  "('m, 'e) bincode \<Rightarrow> (byte list \<Rightarrow> byte list) \<Rightarrow> ('i reliable_channel \<Rightarrow> byte list \<Rightarrow> bool) \<Rightarrow> 'i cbc \<Rightarrow> 'm list list \<Rightarrow> 'm list \<Rightarrow> bool" where
  "cbc_writing B packed accepts cb us ms \<longleftrightarrow> cbc_sends B cb us ms \<and>
     (\<exists>xs. accepts (cb_channel cb) xs \<and> xs @ drop (cb_write_pos cb) (cb_write_buffer cb) = chunk_stream B packed us)"

lemma cbc_finish_write_law:
  assumes sink: "byte_sink (poll_write id) ReliableChannel_flush accepts write_room M"
    and w: "cbc_writing B packed accepts cb us ms" and M: "length (chunk_stream B packed us) \<le> M"
  shows "\<exists>c n r. cbc_poll_finish_write cb = Some (cb\<lparr>cb_channel := c, cb_write_pos := n\<rparr>, r) \<and>
     cbc_writing B packed accepts (cb\<lparr>cb_channel := c, cb_write_pos := n\<rparr>) us ms \<and>
     (r = Pending \<or> r = Ready (Inr ()) \<and> n = length (cb_write_buffer cb))"
proof -
  let ?buf = "cb_write_buffer cb" and ?pos = "cb_write_pos cb"
  obtain xs where xs: "accepts (cb_channel cb) xs" "xs @ drop ?pos ?buf = chunk_stream B packed us" and s: "cbc_sends B cb us ms"
    using w by (auto simp: cbc_writing_def)
  define n where "n = min (length ?buf - ?pos) (write_room (cb_channel cb))"
  have b: "?pos \<le> length ?buf" "length ?buf \<le> usize_max" using s by (auto simp: cbc_sends_def)
  have m: "length xs + length (drop ?pos ?buf) \<le> M" using M by (simp flip: xs(2))
  from byte_sink.finish_write_returns [OF sink xs(1) b m n_def] obtain c where
    f: "finish_write (poll_write id) (cb_channel cb) ?buf ?pos = Some (c, ?pos + n, if ?pos + n = length ?buf then Ready (Inr ()) else Pending)"
    "accepts c (xs @ take n (drop ?pos ?buf))" by blast
  have "(xs @ take n (drop ?pos ?buf)) @ drop (?pos + n) ?buf = chunk_stream B packed us"
    unfolding xs(2) [symmetric] by (simp add: add.commute flip: drop_drop)
  moreover have "?pos + n \<le> length ?buf" using b(1) by (simp add: n_def)
  then have "cbc_sends B (cb\<lparr>cb_channel := c, cb_write_pos := ?pos + n\<rparr>) us ms" using s by (simp add: cbc_sends_def)
  ultimately have "cbc_writing B packed accepts (cb\<lparr>cb_channel := c, cb_write_pos := ?pos + n\<rparr>) us ms"
    using f(2) unfolding cbc_writing_def by auto
  then show ?thesis using f(1)
    by (intro exI [of _ c] exI [of _ "?pos + n"] exI [of _ "if ?pos + n = length ?buf then Ready (Inr ()) else Pending"])
      (simp add: cbc_poll_finish_write_def)
qed

lemma cbc_write_chunk_law:
  assumes snap: "snap_laws S packed" and sink: "byte_sink (poll_write id) ReliableChannel_flush accepts write_room M"
    and w: "cbc_writing B packed accepts cb us ms" and M: "length (chunk_bytes B ms) + 3 * length ms \<le> M"
  shows "\<exists>cb' r vs. cbc_poll_write_send_chunk S cb = Some (cb', r) \<and> cbc_writing B packed accepts cb' (us @ vs) ms \<and>
     cbc_reads B packed cb' = cbc_reads B packed cb \<and> (r = Pending \<or> r = Ready (Inr ()) \<and> cb_send_chunk cb' = [])"
proof (cases "cb_send_chunk cb = []")
  case True
  then show ?thesis using w by (intro exI [of _ cb] exI [of _ "Ready (Inr ())"] exI [of _ "[]"]) (simp add: cbc_poll_write_send_chunk_def)
next
  case False
  have s: "cbc_sends B cb us ms" using w by (simp add: cbc_writing_def)
  have "length (chunk_stream B packed us) \<le> M" using cbc_sends_cost [OF s, of packed] M by simp
  from cbc_finish_write_law [OF sink w this] obtain c n r where
    f: "cbc_poll_finish_write cb = Some (cb\<lparr>cb_channel := c, cb_write_pos := n\<rparr>, r)"
    "cbc_writing B packed accepts (cb\<lparr>cb_channel := c, cb_write_pos := n\<rparr>) us ms"
    "r = Pending \<or> r = Ready (Inr ()) \<and> n = length (cb_write_buffer cb)" by blast
  from f(3) show ?thesis
  proof
    assume "r = Pending"
    then have "cbc_poll_write_send_chunk S cb = Some (cb\<lparr>cb_channel := c, cb_write_pos := n\<rparr>, Pending)"
      using False f(1) by (simp add: cbc_poll_write_send_chunk_def)
    then show ?thesis using f(2)
      by (intro exI [of _ "cb\<lparr>cb_channel := c, cb_write_pos := n\<rparr>"] exI [of _ Pending] exI [of _ "[]"])
        (simp add: cbc_reads_cong [of "cb\<lparr>cb_channel := c, cb_write_pos := n\<rparr>" cb])
  next
    assume r: "r = Ready (Inr ()) \<and> n = length (cb_write_buffer cb)"
    obtain tl where t: "ms = concat us @ tl" "cb_send_chunk cb = chunk_bytes B tl" using s by (auto simp: cbc_sends_def)
    have len: "length (chunk_bytes B tl) \<le> u16_max" using s t by (simp add: cbc_sends_def)
    let ?f = "chunk_frame packed (chunk_bytes B tl)"
    let ?cb = "cb\<lparr>cb_channel := c, cb_write_pos := 0, cb_write_buffer := ?f, cb_send_chunk := []\<rparr>"
    have code: "cbc_poll_write_send_chunk S cb = Some (?cb, Ready (Inr ()))"
      using False f(1) r snap_laws.encode_chunk_frame [OF snap len] t(2) by (simp add: cbc_poll_write_send_chunk_def)
    have "cbc_chunk B tl" using s t len False by (auto simp: cbc_chunk_def cbc_sends_def)
    moreover have "length ?f \<le> usize_max"
      using len length_chunk_body [of packed "chunk_bytes B tl"] by (simp add: u16_max_def usize_max_def)
    ultimately have "cbc_sends B ?cb (us @ [tl]) ms" using s t by (auto simp: cbc_sends_def)
    moreover have "\<exists>xs. accepts c xs \<and> xs @ ?f = chunk_stream B packed (us @ [tl])"
      using f(2) r by (auto simp: cbc_writing_def)
    ultimately have "cbc_writing B packed accepts ?cb (us @ [tl]) ms" by (simp add: cbc_writing_def)
    then show ?thesis using code
      by (intro exI [of _ ?cb] exI [of _ "Ready (Inr ())"] exI [of _ "[tl]"]) (simp add: cbc_reads_cong [of ?cb cb])
  qed
qed

lemma cbc_flush_law:
  assumes snap: "snap_laws S packed" and sink: "byte_sink (poll_write id) ReliableChannel_flush accepts write_room M"
    and w: "cbc_writing B packed accepts cb us ms" and M: "length (chunk_bytes B ms) + 3 * length ms \<le> M"
  shows "\<exists>cb' r vs. cbc_poll_flush S cb = Some (cb', r) \<and> cbc_writing B packed accepts cb' (us @ vs) ms \<and>
     cbc_reads B packed cb' = cbc_reads B packed cb \<and>
     (r = Pending \<or> r = Ready (Inr ()) \<and> cb_send_chunk cb' = [] \<and> cb_write_pos cb' = length (cb_write_buffer cb'))"
proof -
  from cbc_write_chunk_law [OF assms] obtain cb1 r vs where
    a: "cbc_poll_write_send_chunk S cb = Some (cb1, r)" "cbc_writing B packed accepts cb1 (us @ vs) ms"
    "cbc_reads B packed cb1 = cbc_reads B packed cb" "r = Pending \<or> r = Ready (Inr ()) \<and> cb_send_chunk cb1 = []" by blast
  have "length (chunk_stream B packed (us @ vs)) \<le> M"
    using cbc_sends_cost [of B cb1 "us @ vs" ms packed] a(2) M by (simp add: cbc_writing_def split: if_splits)
  from cbc_finish_write_law [OF sink a(2) this] obtain c n q where
    f: "cbc_poll_finish_write cb1 = Some (cb1\<lparr>cb_channel := c, cb_write_pos := n\<rparr>, q)"
    "cbc_writing B packed accepts (cb1\<lparr>cb_channel := c, cb_write_pos := n\<rparr>) (us @ vs) ms"
    "q = Pending \<or> q = Ready (Inr ()) \<and> n = length (cb_write_buffer cb1)" by blast
  obtain xs where "accepts c xs" "xs @ drop n (cb_write_buffer cb1) = chunk_stream B packed (us @ vs)"
    using f(2) by (auto simp: cbc_writing_def)
  from byte_sink.flush_law [OF sink this(1)] this(2) obtain c' where
    g: "ReliableChannel_flush c = (c', Inr ())" "accepts c' xs" "xs @ drop n (cb_write_buffer cb1) = chunk_stream B packed (us @ vs)" by blast
  consider "r = Pending" | "r = Ready (Inr ())" "q = Pending" | "r = Ready (Inr ())" "q = Ready (Inr ())" using a(4) f(3) by blast
  then show ?thesis
  proof cases
    case 1
    then have "cbc_poll_flush S cb = Some (cb1, Pending)" using a(1) by (simp add: cbc_poll_flush_def)
    then show ?thesis using a(2,3) by blast
  next
    case 2
    let ?cb = "cb1\<lparr>cb_channel := c, cb_write_pos := n\<rparr>"
    have "cbc_poll_flush S cb = Some (?cb, Pending)" using 2 a(1) f(1) by (simp add: cbc_poll_flush_def)
    moreover have "cbc_reads B packed ?cb = cbc_reads B packed cb" unfolding a(3) [symmetric] by (rule cbc_reads_cong) simp_all
    ultimately show ?thesis using f(2) by blast
  next
    case 3
    let ?cb = "cb1\<lparr>cb_channel := c', cb_write_pos := n\<rparr>"
    have "cbc_poll_flush S cb = Some (?cb, Ready (Inr ()))" using 3 a(1) f(1) g(1) by (simp add: cbc_poll_flush_def)
    moreover have "cbc_reads B packed ?cb = cbc_reads B packed cb" unfolding a(3) [symmetric] by (rule cbc_reads_cong) simp_all
    moreover have "cbc_writing B packed accepts ?cb (us @ vs) ms" using f(2) g(2,3) by (auto simp: cbc_writing_def cbc_sends_def)
    moreover have "cb_send_chunk ?cb = []" "cb_write_pos ?cb = length (cb_write_buffer ?cb)" using 3 a(4) f(3) by auto
    ultimately show ?thesis by (intro exI [of _ ?cb] exI [of _ "Ready (Inr ())"] exI [of _ vs] conjI disjI2) simp_all
  qed
qed

lemma cbc_send_law:
  assumes laws: "bincode_laws B" and snap: "snap_laws S packed" and good: "cbc_sendable B m"
    and sink: "byte_sink (poll_write id) ReliableChannel_flush accepts write_room M"
    and w: "cbc_writing B packed accepts cb us ms" and M: "length (chunk_bytes B ms) + 3 * length ms \<le> M"
  shows "\<exists>cb' r vs ms'. cbc_poll_send B S m cb = Some (cb', r) \<and> cbc_writing B packed accepts cb' (us @ vs) ms' \<and>
     cbc_reads B packed cb' = cbc_reads B packed cb \<and> (r = Pending \<and> ms' = ms \<or> r = Ready (Inr ()) \<and> ms' = ms @ [m])"
proof -
  note e = bincode_laws.cbc_encode_law [OF laws good]
  have s: "cbc_sends B cb us ms" using w by (simp add: cbc_writing_def)
  let ?total = "length (cb_send_chunk cb) + length (cbc_encode B m)"
  have u: "usize_add (length (cb_send_chunk cb)) (length (cbc_encode B m)) = Some ?total"
    using s e(4) by (simp add: usize_add_def cbc_sends_def u16_max_def usize_max_def)
  have add: "cbc_writing B packed accepts (cb1\<lparr>cb_send_chunk := cb_send_chunk cb1 @ cbc_encode B m\<rparr>) vs (ms @ [m])"
    if t: "cbc_writing B packed accepts cb1 vs ms" "length (cb_send_chunk cb1) + length (cbc_encode B m) \<le> u16_max" for cb1 vs
  proof -
    obtain tl where "ms = concat vs @ tl" "cb_send_chunk cb1 = chunk_bytes B tl"
      using t(1) by (auto simp: cbc_writing_def cbc_sends_def)
    then have "ms @ [m] = concat vs @ (tl @ [m])" "cb_send_chunk cb1 @ cbc_encode B m = chunk_bytes B (tl @ [m])" by simp_all
    then show ?thesis using t good unfolding cbc_writing_def cbc_sends_def by auto
  qed
  have "\<exists>cb1 r vs. (if CB_MAX_MESSAGE_LEN < ?total then cbc_poll_write_send_chunk S cb else Some (cb, Ready (Inr ()))) = Some (cb1, r) \<and>
     cbc_writing B packed accepts cb1 (us @ vs) ms \<and> cbc_reads B packed cb1 = cbc_reads B packed cb \<and>
     (r = Pending \<or> r = Ready (Inr ()) \<and> length (cb_send_chunk cb1) + length (cbc_encode B m) \<le> u16_max)"
  proof (cases "CB_MAX_MESSAGE_LEN < ?total")
    case True
    then show ?thesis using cbc_write_chunk_law [OF snap sink w M] e(4) by force
  next
    case False
    then show ?thesis using w
      by (intro exI [of _ cb] exI [of _ "Ready (Inr ())"] exI [of _ "[]"]) (simp add: CB_MAX_MESSAGE_LEN_def)
  qed
  then obtain cb1 r vs where
    a: "(if CB_MAX_MESSAGE_LEN < ?total then cbc_poll_write_send_chunk S cb else Some (cb, Ready (Inr ()))) = Some (cb1, r)"
    "cbc_writing B packed accepts cb1 (us @ vs) ms" "cbc_reads B packed cb1 = cbc_reads B packed cb"
    "r = Pending \<or> r = Ready (Inr ()) \<and> length (cb_send_chunk cb1) + length (cbc_encode B m) \<le> u16_max" by blast
  from a(4) show ?thesis
  proof
    assume "r = Pending"
    then have "cbc_poll_send B S m cb = Some (cb1, Pending)" using a(1) e(2) u by (simp add: cbc_poll_send_def)
    then show ?thesis using a(2,3) by blast
  next
    assume r: "r = Ready (Inr ()) \<and> length (cb_send_chunk cb1) + length (cbc_encode B m) \<le> u16_max"
    let ?cb = "cb1\<lparr>cb_send_chunk := cb_send_chunk cb1 @ cbc_encode B m\<rparr>"
    have "cbc_poll_send B S m cb = Some (?cb, Ready (Inr ()))" using a(1) e(1,2) u r by (simp add: cbc_poll_send_def)
    moreover have "cbc_writing B packed accepts ?cb (us @ vs) (ms @ [m])" using add [OF a(2)] r by blast
    moreover have "cbc_reads B packed ?cb = cbc_reads B packed cb" unfolding a(3) [symmetric] by (rule cbc_reads_cong) simp_all
    ultimately show ?thesis by blast
  qed
qed

subsection \<open>Receiving\<close>

text \<open>The chunks \<open>cs\<close> were consumed, and the buffer holds the first bytes of the next one.\<close>

definition cbc_filling ::
  "('m, 'e) bincode \<Rightarrow> (byte list \<Rightarrow> byte list) \<Rightarrow> ('i reliable_channel \<Rightarrow> byte list \<Rightarrow> nat \<Rightarrow> bool) \<Rightarrow> byte list \<Rightarrow>
   'i cbc \<Rightarrow> 'm list list \<Rightarrow> 'm list list \<Rightarrow> bool" where
  "cbc_filling B packed yields xs cb cs rest \<longleftrightarrow> cb_read_pos cb \<le> length (cb_read_buffer cb) \<and>
     yields (cb_channel cb) xs (length (chunk_stream B packed cs) + cb_read_pos cb) \<and>
     prefix (take (cb_read_pos cb) (cb_read_buffer cb)) (chunk_stream B packed (take 1 rest))"

abbreviation set_reader :: "'i cbc \<Rightarrow> 'i reliable_channel \<Rightarrow> byte list \<Rightarrow> nat \<Rightarrow> 'i cbc" where
  "set_reader cb c buf pos \<equiv> cb\<lparr>cb_channel := c, cb_read_buffer := buf, cb_read_pos := pos\<rparr>"

lemma cbc_fill:
  fixes B :: "('m, 'e) bincode" and cb :: "'i cbc"
  assumes src: "byte_source (poll_read id) yields readable" and pre: "prefix xs (chunk_stream B packed (cs @ rest))"
    and fl: "cbc_filling B packed yields xs cb cs rest" and n: "cb_read_pos cb \<le> n" "n \<le> usize_max"
    and fit: "\<And>u rs. rest = u # rs \<Longrightarrow> n \<le> length (chunk_frame packed (chunk_bytes B u))"
  shows "\<exists>c buf pos r. cbc_poll_finish_read (cb\<lparr>cb_read_buffer := vec_resize (cb_read_buffer cb) n 0\<rparr>) =
       Some (set_reader cb c buf pos, r) \<and> cbc_filling B packed yields xs (set_reader cb c buf pos) cs rest \<and> length buf = n \<and>
     (r = Pending \<and> pos < n \<and> readable c = 0 \<or> r = Ready (Inr ()) \<and> pos = n)"
proof -
  let ?pos = "cb_read_pos cb" and ?buf = "cb_read_buffer cb"
  let ?C = "cbc_coding B packed :: ('i, 'i cbc, 'm, 'm list) message_coding"
  have i: "?pos \<le> length ?buf" "prefix xs (unit_stream ?C (cs @ rest))" "yields (cb_channel cb) xs (length (unit_stream ?C cs) + ?pos)"
    "prefix (take ?pos ?buf) (unit_stream ?C (take 1 rest))" using pre fl by (simp_all add: cbc_filling_def)
  from unit_fill [OF src i(2,3,1,4) n] fit obtain c buf pos where
    f: "finish_read (poll_read id) (cb_channel cb) (vec_resize ?buf n 0) ?pos =
       Some (c, buf, pos, if pos = n then Ready (Inr ()) else Pending)" "pos \<le> n" "length buf = n"
    "yields c xs (length (chunk_stream B packed cs) + pos)" "prefix (take pos buf) (chunk_stream B packed (take 1 rest))"
    "pos \<noteq> n \<longrightarrow> readable c = 0" by auto
  then show ?thesis
    by (intro exI [of _ c] exI [of _ buf] exI [of _ pos] exI [of _ "if pos = n then Ready (Inr ()) else Pending"])
      (auto simp: cbc_poll_finish_read_def cbc_filling_def)
qed

lemma cbc_header:
  assumes fl: "cbc_filling B packed yields xs cb cs rest" and three: "3 \<le> cb_read_pos cb"
    and ok: "\<forall>u\<in>set rest. cbc_chunk B u"
  obtains u rs where "rest = u # rs" "cb_read_pos cb \<le> length (chunk_frame packed (chunk_bytes B u))"
    "vec_get (cb_read_buffer cb) 0 = Some (if length (chunk_bytes B u) \<le> length (packed (chunk_bytes B u)) then 0 else 1)"
    "slice (cb_read_buffer cb) 1 3 = Some (write_u16 (length (chunk_body packed (chunk_bytes B u))))"
    "length (chunk_bytes B u) \<le> u16_max"
proof -
  have i: "cb_read_pos cb \<le> length (cb_read_buffer cb)"
    "prefix (take (cb_read_pos cb) (cb_read_buffer cb)) (chunk_stream B packed (take 1 rest))" using fl by (simp_all add: cbc_filling_def)
  then obtain u rs where r: "rest = u # rs" using three by (cases rest) (auto simp: take_eq_Nil2)
  let ?x = "chunk_bytes B u"
  have p: "prefix (take (cb_read_pos cb) (cb_read_buffer cb)) (chunk_frame packed ?x)" using i(2) r by simp
  then obtain z where z: "chunk_frame packed ?x = take (cb_read_pos cb) (cb_read_buffer cb) @ z" by (auto simp: prefix_def)
  have h: "take 3 (cb_read_buffer cb) = take 3 (chunk_frame packed ?x)" unfolding z using three i(1) by (simp add: min_def)
  also have "\<dots> = (if length ?x \<le> length (packed ?x) then 0 else 1) # write_u16 (length (chunk_body packed ?x))"
    by (simp add: chunk_frame_split)
  finally have h: "take 3 (cb_read_buffer cb) = (if length ?x \<le> length (packed ?x) then 0 else 1) # write_u16 (length (chunk_body packed ?x))" .
  have len: "3 \<le> length (cb_read_buffer cb)" using three i(1) by simp
  have "vec_get (cb_read_buffer cb) 0 = Some (take 3 (cb_read_buffer cb) ! 0)"
    "slice (cb_read_buffer cb) 1 3 = Some (drop 1 (take 3 (cb_read_buffer cb)))"
    using len by (auto simp: vec_get_def slice_def drop_take)
  then show ?thesis using that r prefix_length_le [OF p] i(1) ok h by (simp add: cbc_chunk_def)
qed

text \<open>A poll with an exhausted chunk waits, or reads the next chunk.\<close>

lemma cbc_read_chunk:
  fixes B :: "('m, 'e) bincode"
  assumes snap: "snap_laws S packed" and src: "byte_source (poll_read id) yields readable"
    and pre: "prefix xs (chunk_stream B packed (cs @ rest))" and ok: "\<forall>u\<in>set rest. cbc_chunk B u"
    and fl: "cbc_filling B packed yields xs cb cs rest" and used: "\<not> cb_recv_pos cb < length (cb_recv_chunk cb)"
  shows "(\<exists>c buf pos. cbc_poll_recv_ready S cb = Some (set_reader cb c buf pos, Pending) \<and> readable c = 0 \<and>
       cbc_filling B packed yields xs (set_reader cb c buf pos) cs rest \<and>
       (\<forall>u rs. rest = u # rs \<longrightarrow> pos < length (chunk_frame packed (chunk_bytes B u)))) \<or>
     (\<exists>c buf u rs. rest = u # rs \<and>
       cbc_poll_recv_ready S cb = Some (cb\<lparr>cb_channel := c, cb_read_buffer := buf, cb_recv_chunk := chunk_bytes B u, cb_recv_pos := 0, cb_read_pos := 0\<rparr>, Ready (Inr ())) \<and>
       yields c xs (length (chunk_stream B packed (cs @ [u]))))"
proof -
  have "\<exists>c buf pos r. (if cb_read_pos cb < 3
         then cbc_poll_finish_read (cb\<lparr>cb_read_buffer := vec_resize (cb_read_buffer cb) 3 0\<rparr>)
         else Some (cb, Ready (Inr ()))) = Some (set_reader cb c buf pos, r) \<and>
       cbc_filling B packed yields xs (set_reader cb c buf pos) cs rest \<and>
       (r = Pending \<and> pos < 3 \<and> readable c = 0 \<or> r = Ready (Inr ()) \<and> 3 \<le> pos)"
  proof (cases "cb_read_pos cb < 3")
    case True
    then have "cb_read_pos cb \<le> 3" "3 \<le> usize_max" by (simp_all add: usize_max_def)
    from cbc_fill [OF src pre fl this] True show ?thesis by fastforce
  next
    case False
    then show ?thesis using fl
      by (intro exI [of _ "cb_channel cb"] exI [of _ "cb_read_buffer cb"] exI [of _ "cb_read_pos cb"] exI [of _ "Ready (Inr ())"]) simp
  qed
  then obtain c1 buf1 pos1 r1 where h: "(if cb_read_pos cb < 3
         then cbc_poll_finish_read (cb\<lparr>cb_read_buffer := vec_resize (cb_read_buffer cb) 3 0\<rparr>)
         else Some (cb, Ready (Inr ()))) = Some (set_reader cb c1 buf1 pos1, r1)"
    "cbc_filling B packed yields xs (set_reader cb c1 buf1 pos1) cs rest"
    "r1 = Pending \<and> pos1 < 3 \<and> readable c1 = 0 \<or> r1 = Ready (Inr ()) \<and> 3 \<le> pos1" by blast
  from h(3) show ?thesis
  proof
    assume r: "r1 = Pending \<and> pos1 < 3 \<and> readable c1 = 0"
    then have "cbc_poll_recv_ready S cb = Some (set_reader cb c1 buf1 pos1, Pending)"
      using used h(1) by (simp add: cbc_poll_recv_ready.simps [of S cb])
    then show ?thesis using r h(2) by (intro disjI1) force
  next
    assume r: "r1 = Ready (Inr ()) \<and> 3 \<le> pos1"
    let ?cb = "set_reader cb c1 buf1 pos1"
    from r have "3 \<le> cb_read_pos ?cb" by simp
    from cbc_header [OF h(2) this ok] obtain u rs where
      u: "rest = u # rs" "pos1 \<le> length (chunk_frame packed (chunk_bytes B u))"
      "vec_get buf1 0 = Some (if length (chunk_bytes B u) \<le> length (packed (chunk_bytes B u)) then 0 else 1)"
      "slice buf1 1 3 = Some (write_u16 (length (chunk_body packed (chunk_bytes B u))))"
      "length (chunk_bytes B u) \<le> u16_max" by (auto simp del: length_chunk_frame)
    let ?x = "chunk_bytes B u" and ?n = "length (chunk_body packed (chunk_bytes B u)) + 3"
    have len: "length (chunk_body packed ?x) \<le> u16_max" using u(5) length_chunk_body [of packed ?x] by simp
    have n: "cb_read_pos ?cb \<le> ?n" "?n \<le> usize_max" using u(2) len by (simp_all add: u16_max_def usize_max_def)
    from cbc_fill [OF src pre h(2) n] u(1) obtain c2 buf2 pos2 r2 where
      f: "cbc_poll_finish_read (?cb\<lparr>cb_read_buffer := vec_resize buf1 ?n 0\<rparr>) = Some (set_reader cb c2 buf2 pos2, r2)"
      "cbc_filling B packed yields xs (set_reader cb c2 buf2 pos2) cs rest" "length buf2 = ?n"
      "r2 = Pending \<and> pos2 < ?n \<and> readable c2 = 0 \<or> r2 = Ready (Inr ()) \<and> pos2 = ?n" by auto
    have ready: "cbc_poll_recv_ready S cb = (case r2 of Pending \<Rightarrow> Some (set_reader cb c2 buf2 pos2, Pending)
        | Ready (Inl e) \<Rightarrow> Some (set_reader cb c2 buf2 pos2, Ready (Inl (Cb_reliable e)))
        | Ready (Inr _) \<Rightarrow> do {
            (cb, r) \<leftarrow> decode_chunk S (\<not> length ?x \<le> length (packed ?x)) (length (chunk_body packed ?x)) (set_reader cb c2 buf2 pos2);
            (case r of Inl e \<Rightarrow> Some (cb, Ready (Inl (Cb_snap e))) | Inr _ \<Rightarrow> cbc_poll_recv_ready S cb)
          })"
      using used h(1) r u(3,4) len f(1)
      by (simp add: cbc_poll_recv_ready.simps [of S cb] split: poll.split sum.split)
    from f(4) show ?thesis
    proof
      assume p: "r2 = Pending \<and> pos2 < ?n \<and> readable c2 = 0"
      then show ?thesis using ready f(2) u(1) by (intro disjI1 exI [of _ c2] exI [of _ buf2] exI [of _ pos2]) simp
    next
      assume p: "r2 = Ready (Inr ()) \<and> pos2 = ?n"
      have "prefix buf2 (chunk_frame packed ?x)" using f(2,3) p u(1) by (simp add: cbc_filling_def)
      then have buf: "cb_read_buffer (set_reader cb c2 buf2 pos2) = chunk_frame packed ?x"
        using f(3) by (auto intro: prefix_same_length)
      have "u \<noteq> []" "\<forall>m\<in>set u. cbc_sendable B m" using ok u(1) by (auto simp: cbc_chunk_def)
      then have "?x \<noteq> []" using chunk_bytes_Nil by blast
      then have "cbc_poll_recv_ready S cb = Some (cb\<lparr>cb_channel := c2, cb_read_buffer := buf2, cb_recv_chunk := ?x, cb_recv_pos := 0, cb_read_pos := 0\<rparr>, Ready (Inr ()))"
        using ready p snap_laws.decode_chunk_frame [OF snap u(5) buf]
        by (simp add: cbc_poll_recv_ready.simps [of S "cb\<lparr>cb_channel := c2, cb_read_buffer := buf2,
          cb_recv_chunk := ?x, cb_recv_pos := 0, cb_read_pos := 0\<rparr>"])
      moreover have "yields c2 xs (length (chunk_stream B packed (cs @ [u])))" using f(2) p by (simp add: cbc_filling_def add.assoc)
      ultimately show ?thesis using u(1) by blast
    qed
  qed
qed

text \<open>Taking the next message from the current chunk.\<close>

lemma cbc_next_message:
  assumes laws: "bincode_laws B" and m: "cbc_sendable B m"
    and chunk: "cb_recv_pos cb \<le> length (cb_recv_chunk cb)" "drop (cb_recv_pos cb) (cb_recv_chunk cb) = chunk_bytes B (m # cur)"
  shows "\<exists>pos. cbc_recv_next B cb = Some (cb\<lparr>cb_recv_pos := pos\<rparr>, Inr m) \<and> pos \<le> length (cb_recv_chunk cb) \<and>
     drop pos (cb_recv_chunk cb) = chunk_bytes B cur"
proof -
  let ?pos = "length (cb_recv_chunk cb) - length (chunk_bytes B cur)"
  have "slice (cb_recv_chunk cb) (cb_recv_pos cb) (length (cb_recv_chunk cb)) = Some (cbc_encode B m @ chunk_bytes B cur)"
    using chunk(1) by (simp add: slice_def flip: chunk(2) chunk_bytes_simps(2))
  moreover have split: "cb_recv_chunk cb = (take (cb_recv_pos cb) (cb_recv_chunk cb) @ cbc_encode B m) @ chunk_bytes B cur"
    using chunk(2) append_take_drop_id [of "cb_recv_pos cb" "cb_recv_chunk cb"] by simp
  then have len: "length (chunk_bytes B cur) \<le> length (cb_recv_chunk cb)" by (metis length_append le_add2)
  ultimately have "cbc_recv_next B cb = Some (cb\<lparr>cb_recv_pos := ?pos\<rparr>, Inr m)"
    using bincode_laws.cbc_encode_law(3) [OF laws m, of "chunk_bytes B cur"] by (simp add: cbc_recv_next_def usize_sub_def)
  moreover have "drop ?pos (cb_recv_chunk cb) = chunk_bytes B cur" by (subst split) (subst (2) split, simp)
  ultimately show ?thesis by (intro exI [of _ ?pos]) simp
qed

lemma cbc_recv_law:
  fixes B :: "('m, 'e) bincode" and S :: "'x snap" and cb :: "'i cbc"
  assumes laws: "bincode_laws B" and snap: "snap_laws S packed" and src: "byte_source (poll_read id) yields readable"
    and y: "yields (cb_channel cb) xs b" and pre: "prefix xs (chunk_stream B packed us)"
    and ok: "\<forall>u\<in>set us. cbc_chunk B u" and rd: "cbc_reads B packed cb us b ns"
  shows "\<exists>cb' r b' ns'. cbc_poll_recv B S cb = Some (cb', r) \<and> yields (cb_channel cb') xs b' \<and> cbc_reads B packed cb' us b' ns' \<and>
     cb_send_chunk cb' = cb_send_chunk cb \<and> cb_write_buffer cb' = cb_write_buffer cb \<and> cb_write_pos cb' = cb_write_pos cb \<and>
     (r = Pending \<and> ns' = ns \<and> readable (cb_channel cb') = 0 \<and>
        ns = concat (units_within (cbc_coding B packed :: ('i, 'i cbc, 'm, 'm list) message_coding) us b') \<or>
      (\<exists>m. r = Ready (Inr m) \<and> ns' = ns @ [m]))"
proof -
  obtain cs cur rest where i: "cb_recv_pos cb \<le> length (cb_recv_chunk cb)" "us = cs @ rest" "concat cs = ns @ cur"
    "b = length (chunk_stream B packed cs) + cb_read_pos cb" "drop (cb_recv_pos cb) (cb_recv_chunk cb) = chunk_bytes B cur"
    "cb_read_pos cb \<le> length (cb_read_buffer cb)"
    "prefix (take (cb_read_pos cb) (cb_read_buffer cb)) (chunk_stream B packed (take 1 rest))"
    using rd unfolding cbc_reads_def by blast
  have send: "\<forall>m\<in>set (concat us). cbc_sendable B m" using ok by (auto simp: cbc_chunk_def)
  have msg: ?thesis
    if c: "cbc_poll_recv_ready S cb = Some (cb1, Ready (Inr ()) :: (('e, 'x) cbc_error + unit) poll)" "yields (cb_channel cb1) xs b1"
      "cb_send_chunk cb1 = cb_send_chunk cb" "cb_write_buffer cb1 = cb_write_buffer cb" "cb_write_pos cb1 = cb_write_pos cb"
      "cb_recv_pos cb1 \<le> length (cb_recv_chunk cb1)" "drop (cb_recv_pos cb1) (cb_recv_chunk cb1) = chunk_bytes B (m # cur1)"
      "us = cs1 @ rest1" "concat cs1 = ns @ m # cur1" "b1 = length (chunk_stream B packed cs1) + cb_read_pos cb1"
      "cb_read_pos cb1 \<le> length (cb_read_buffer cb1)"
      "prefix (take (cb_read_pos cb1) (cb_read_buffer cb1)) (chunk_stream B packed (take 1 rest1))"
    for cb1 b1 m cur1 cs1 rest1
  proof -
    have m: "cbc_sendable B m" using send c(8,9) by simp
    obtain pos where p: "cbc_recv_next B cb1 = Some (cb1\<lparr>cb_recv_pos := pos\<rparr>, Inr m)" "pos \<le> length (cb_recv_chunk cb1)"
      "drop pos (cb_recv_chunk cb1) = chunk_bytes B cur1" using cbc_next_message [OF laws m c(6,7)] by blast
    let ?cb = "cb1\<lparr>cb_recv_pos := pos\<rparr>"
    have "cbc_reads B packed ?cb us b1 (ns @ [m])"
      unfolding cbc_reads_def using c p(2,3)
      by (intro conjI exI [of _ cs1] exI [of _ cur1] exI [of _ rest1]) simp_all
    moreover have "cbc_poll_recv B S cb = Some (?cb, Ready (Inr m))" using c(1) p(1) by (simp add: cbc_poll_recv_def)
    ultimately show ?thesis using c(2-5) by (intro exI [of _ ?cb] exI [of _ "Ready (Inr m)"] exI [of _ b1] exI [of _ "ns @ [m]"]) simp
  qed
  show ?thesis
  proof (cases "cb_recv_pos cb < length (cb_recv_chunk cb)")
    case True
    then have "chunk_bytes B cur \<noteq> []" using i(5) by (metis drop_eq_Nil leD)
    then obtain m cur1 where cur: "cur = m # cur1" by (cases cur) auto
    have "cbc_poll_recv_ready S cb = Some (cb, Ready (Inr ()))" using True by (simp add: cbc_poll_recv_ready.simps [of S cb])
    then show ?thesis using y i cur by (intro msg [of cb b m cur1 cs rest]) simp_all
  next
    case False
    then have "chunk_bytes B cur = []" using i(1,5) by simp
    moreover have "\<forall>m\<in>set cur. cbc_sendable B m" using send i(2,3) by auto
    ultimately have cur: "cur = []" using chunk_bytes_Nil by blast
    have ns: "concat cs = ns" using i(3) cur by simp
    have pre': "prefix xs (chunk_stream B packed (cs @ rest))" and ok': "\<forall>u\<in>set rest. cbc_chunk B u" using pre ok i(2) by auto
    have fl: "cbc_filling B packed yields xs cb cs rest" using y i by (simp add: cbc_filling_def)
    from cbc_read_chunk [OF snap src pre' ok' fl False] show ?thesis
    proof (elim disjE exE conjE)
      fix c buf pos
      let ?cb = "set_reader cb c buf pos"
      assume p: "cbc_poll_recv_ready S cb = Some (?cb, Pending :: (('e, 'x) cbc_error + unit) poll)" "readable c = 0" "cbc_filling B packed yields xs ?cb cs rest"
        "\<forall>u rs. rest = u # rs \<longrightarrow> pos < length (chunk_frame packed (chunk_bytes B u))"
      let ?C = "cbc_coding B packed :: ('i, 'i cbc, 'm, 'm list) message_coding"
      have "units_within ?C (cs @ rest) (length (unit_stream ?C cs) + pos) = cs"
        by (rule units_within_incomplete) (use p(4) in simp)
      then have w: "concat (units_within ?C us (length (chunk_stream B packed cs) + pos)) = ns" using ns i(2) by simp
      have "cbc_poll_recv B S cb = Some (?cb, Pending)" using p(1) by (simp add: cbc_poll_recv_def)
      moreover have "cbc_reads B packed ?cb us (length (chunk_stream B packed cs) + pos) ns"
        unfolding cbc_reads_def using p(3) i(1,2,3,5)
        by (intro conjI exI [of _ cs] exI [of _ cur] exI [of _ rest]) (simp_all add: cbc_filling_def)
      ultimately show ?thesis using p(2,3) w
        by (intro exI [of _ ?cb] exI [of _ Pending] exI [of _ "length (chunk_stream B packed cs) + pos"] exI [of _ ns])
          (simp add: cbc_filling_def)
    next
      fix c buf u rs
      let ?cb = "cb\<lparr>cb_channel := c, cb_read_buffer := buf, cb_recv_chunk := chunk_bytes B u, cb_recv_pos := 0, cb_read_pos := 0\<rparr>"
      assume p: "rest = u # rs" "cbc_poll_recv_ready S cb = Some (?cb, Ready (Inr ()) :: (('e, 'x) cbc_error + unit) poll)"
        "yields c xs (length (chunk_stream B packed (cs @ [u])))"
      obtain m cur1 where u: "u = m # cur1" using ok' p(1) by (cases u) (auto simp: cbc_chunk_def)
      show ?thesis
        by (rule msg [of ?cb "length (chunk_stream B packed (cs @ [u]))" m cur1 "cs @ [u]" rs])
          (use p i(2) ns u in simp_all)
    qed
  qed
qed

lemma cbc_message_stream:
  fixes B :: "('m, 'e) bincode"
  assumes laws: "bincode_laws B" and snap: "snap_laws S packed"
  shows "message_stream (cbc_ops B S) (cbc_coding B packed :: ('i, 'i cbc, 'm, 'm list) message_coding)"
proof (unfold_locales, goal_cases)
  case (9 c us ms)
  then have s: "cbc_sends B c us ms" by simp
  then have "prefix (concat us) ms" "\<forall>u\<in>set us. cbc_chunk B u" by (auto simp: cbc_sends_def)
  then show ?case using cbc_sends_cost [OF s, of packed] by (simp add: cbc_cost)
next
  case (10 c us ms)
  then obtain tl where "ms = concat us @ tl" "chunk_bytes B tl = []" "\<forall>m\<in>set ms. cbc_sendable B m" by (auto simp: cbc_sends_def)
  then have "tl = []" using chunk_bytes_Nil [of tl B] by auto
  then show ?case using 10 \<open>ms = concat us @ tl\<close> by simp
next
  case (11 c us b ns vs)
  then have "prefix ns (concat us)" by (auto simp: cbc_reads_def)
  then show ?case using 11 cbc_reads_grow [of B packed c us b ns vs] by simp
next
  case (12 accepts M c xs us ms m)
  then have "cbc_writing B packed accepts c us ms" "cbc_sendable B m" "length (chunk_bytes B ms) + 3 * length ms \<le> M"
    by (auto simp: cbc_writing_def cbc_cost)
  from cbc_send_law [OF laws snap this(2) 12(1) this(1,3)] obtain c' r vs ms' where
    s: "cbc_poll_send B S m c = Some (c', r)" "cbc_writing B packed accepts c' (us @ vs) ms'"
    "cbc_reads B packed c' = cbc_reads B packed c" "r = Pending \<and> ms' = ms \<or> r = Ready (Inr ()) \<and> ms' = ms @ [m]" by blast
  obtain xs' where "accepts (cb_channel c') xs'" "xs' @ drop (cb_write_pos c') (cb_write_buffer c') = chunk_stream B packed (us @ vs)"
    "cbc_sends B c' (us @ vs) ms'" using s(2) by (auto simp: cbc_writing_def)
  with s show ?case
    by (intro exI [of _ c'] exI [of _ r] exI [of _ xs'] exI [of _ vs] exI [of _ ms']) (simp add: cbc_ops_def)
next
  case (13 accepts M c xs us ms)
  then have "cbc_writing B packed accepts c us ms" "length (chunk_bytes B ms) + 3 * length ms \<le> M"
    by (auto simp: cbc_writing_def cbc_cost)
  from cbc_flush_law [OF snap 13(1) this] obtain c' r vs where
    s: "cbc_poll_flush S c = Some (c', r)" "cbc_writing B packed accepts c' (us @ vs) ms"
    "cbc_reads B packed c' = cbc_reads B packed c"
    "r = Pending \<or> r = Ready (Inr ()) \<and> cb_send_chunk c' = [] \<and> cb_write_pos c' = length (cb_write_buffer c')" by blast
  obtain xs' where "accepts (cb_channel c') xs'" "xs' @ drop (cb_write_pos c') (cb_write_buffer c') = chunk_stream B packed (us @ vs)"
    "cbc_sends B c' (us @ vs) ms" using s(2) by (auto simp: cbc_writing_def)
  with s show ?case
    by (intro exI [of _ c'] exI [of _ "map_poll (map_sum Cb_reliable id) r"] exI [of _ xs'] exI [of _ vs]) (auto simp: cbc_ops_def)
next
  case (14 yields c xs b us ns)
  then have "yields (cb_channel c) xs b" "prefix xs (chunk_stream B packed us)" "\<forall>u\<in>set us. cbc_chunk B u" "cbc_reads B packed c us b ns"
    by simp_all
  from cbc_recv_law [OF laws snap 14(1) this] obtain c' r b' ns' where
    s: "cbc_poll_recv B S c = Some (c', r)" "yields (cb_channel c') xs b'" "cbc_reads B packed c' us b' ns'"
    "cb_send_chunk c' = cb_send_chunk c" "cb_write_buffer c' = cb_write_buffer c" "cb_write_pos c' = cb_write_pos c"
    "r = Pending \<and> ns' = ns \<and> readable (cb_channel c') = 0 \<and>
        ns = concat (units_within (cbc_coding B packed :: ('i, 'i cbc, 'm, 'm list) message_coding) us b') \<or>
      (\<exists>m. r = Ready (Inr m) \<and> ns' = ns @ [m])" by blast
  have "cbc_sends B c' = cbc_sends B c" using s(4-6) by (intro ext) (simp add: cbc_sends_def)
  with s show ?case
    by (intro exI [of _ c'] exI [of _ r] exI [of _ b'] exI [of _ ns']) (simp add: cbc_ops_def)
qed (simp_all add: CompressedBincodeChannel_new_def cbc_sends_def cbc_reads_def fun_eq_iff)

subsection \<open>Properties\<close>

text \<open>A package that shortens blocks of zeros, and stores other blocks with one byte more.\<close>

definition zero_packed :: "byte list \<Rightarrow> byte list" where
  "zero_packed xs = (if xs \<noteq> [] \<and> (\<forall>x\<in>set xs. x = 0) \<and> length xs \<le> 255 then [1, of_nat (length xs)] else 0 # xs)"

definition zero_unpacked :: "byte list \<Rightarrow> byte list" where
  "zero_unpacked ys = (if hd ys = 1 then replicate (unat (ys ! 1)) 0 else tl ys)"

definition zero_snap :: "unit snap" where
  "zero_snap = \<lparr>
     sn_max_compress_len = (\<lambda>n. if n < u32_max then n + 1 else 0),
     sn_compress = (\<lambda>xs out. let ys = zero_packed xs
       in if length ys \<le> length out then (ys @ drop (length ys) out, Inr (length ys)) else (out, Inl ())),
     sn_decompress_len = (\<lambda>ys. Inr (length (zero_unpacked ys))),
     sn_decompress = (\<lambda>ys out. let xs = zero_unpacked ys
       in if length xs \<le> length out then (xs @ drop (length xs) out, Inr (length xs)) else (out, Inl ()))\<rparr>"

lemma zero_unpack [simp]: "zero_unpacked (zero_packed xs) = xs"
proof (cases "xs \<noteq> [] \<and> (\<forall>x\<in>set xs. x = 0) \<and> length xs \<le> 255")
  case True
  then have "unat (of_nat (length xs) :: byte) = length xs" by (simp add: unat_of_nat)
  moreover have "xs = replicate (length xs) 0" using True by (simp add: replicate_length_same)
  ultimately show ?thesis using True by (simp add: zero_packed_def zero_unpacked_def)
qed (auto simp: zero_packed_def zero_unpacked_def)

interpretation zero_snap: snap_laws zero_snap zero_packed
proof unfold_locales
  fix xs out :: "byte list"
  assume "length xs \<le> u16_max" "sn_max_compress_len zero_snap (length xs) \<le> length out"
  moreover have "length (zero_packed xs) \<le> length xs + 1" by (cases xs) (auto simp: zero_packed_def)
  ultimately have "length (zero_packed xs) \<le> length out"
    by (simp add: zero_snap_def u16_max_def u32_max_def split: if_splits)
  then show "length (zero_packed xs) \<le> length out \<and>
      sn_compress zero_snap xs out = (zero_packed xs @ drop (length (zero_packed xs)) out, Inr (length (zero_packed xs)))"
    by (simp add: zero_snap_def Let_def)
qed (simp_all add: zero_snap_def)

interpretation byte_cbc: message_stream "cbc_ops byte_bincode zero_snap" "cbc_coding byte_bincode zero_packed"
  by (rule cbc_message_stream [OF byte_bincode.bincode_laws_axioms zero_snap.snap_laws_axioms])

text \<open>
  C5: compressed messages over a lossy network. As for the reliable bincode channel: every run of two
  fresh compressed channels returns without a panic or an error, each application has received a prefix
  of the messages the other sent, in order, and when the sender has no chunk and no bytes left and the
  receiver has to wait, it has received all of them; chunks that compress and chunks that do not are
  told apart. The messages must serialize to at least one byte.
\<close>

theorem compressed_messages_delivered:
  fixes B :: "('m, 'e) bincode" and a b :: "'i reliable_channel"
  assumes laws: "bincode_laws B" and snap: "snap_laws S packed"
    and A: "ReliableChannel_new tmA capA stA = Some a" "settings_ok capA stA"
    and B: "ReliableChannel_new tmB capB stB = Some b" "settings_ok capB stB"
    and "monotonic_timer tmA" "monotonic_timer tmB" "visits_entries visit"
    and ok: "\<forall>side m. (side, Msg_send m) \<in> set es \<longrightarrow> cbc_sendable B m"
    and cost: "int (length (chunk_bytes B (event_msgs True es)) + 3 * length (event_msgs True es)) + int (recv_window_size stB) < half_span"
      "int (length (chunk_bytes B (event_msgs False es)) + 3 * length (event_msgs False es)) + int (recv_window_size stA) < half_span"
  shows "\<exists>A' B' c r. msg_run (cbc_ops B S) cb_channel (\<lambda>ch cb. cb\<lparr>cb_channel := ch\<rparr>) tmA tmB visit
       (msg_start (CompressedBincodeChannel_new a)) (msg_start (CompressedBincodeChannel_new b)) es = Some (A', B') \<and>
     failures A' = [] \<and> failures B' = [] \<and>
     prefix (got_msgs B') (map Inr (sent_msgs A')) \<and> prefix (got_msgs A') (map Inr (sent_msgs B')) \<and>
     cbc_poll_recv B S (conn B') = Some (c, r) \<and>
     (r = Pending \<and> cb_send_chunk (conn A') = [] \<and> cb_write_pos (conn A') = length (cb_write_buffer (conn A')) \<and>
        rb_count (sw_ring (send_window (task (cb_channel (conn A'))))) = 0 \<longrightarrow> got_msgs B' = map Inr (sent_msgs A'))"
proof -
  let ?C = "cbc_coding B packed :: ('i, 'i cbc, 'm, 'm list) message_coding"
  have ok': "\<forall>(side, ev)\<in>set es. msg_event_ok ?C ev"
  proof clarify
    fix side ev assume "(side, ev) \<in> set es"
    with ok show "msg_event_ok ?C ev" by (cases ev) auto
  qed
  have c: "int (msgs_cost ?C (event_msgs True es)) + int (recv_window_size stB) < half_span"
    "int (msgs_cost ?C (event_msgs False es)) + int (recv_window_size stA) < half_span" using cost by (simp_all add: cbc_cost)
  have put: "cd_put ?C = (\<lambda>ch cb. cb\<lparr>cb_channel := ch\<rparr>)" by (intro ext) simp
  from message_stream.end_to_end [OF cbc_message_stream [OF laws snap] A B assms(7-9) ok' c]
  show ?thesis unfolding put by (simp add: cbc_ops_def)
qed

theorem compressed_messages_delivered_witness:
  "\<exists>a b A' B' c r. ReliableChannel_new nano_timer 100 small_settings = Some a \<and>
     ReliableChannel_new nano_timer 100 small_settings = Some b \<and>
     msg_run (cbc_ops byte_bincode zero_snap) cb_channel (\<lambda>ch cb. cb\<lparr>cb_channel := ch\<rparr>) nano_timer nano_timer (\<lambda>_ ks. ks)
       (msg_start (CompressedBincodeChannel_new a)) (msg_start (CompressedBincodeChannel_new b))
       [(True, Msg_send 0), (True, Msg_send 0), (True, Msg_send 0), (True, Msg_flush), (True, Msg_round (Can_send 0)),
        (False, Msg_round (Packet_arrives 0)), (False, Msg_recv)] = Some (A', B') \<and>
     failures A' = [] \<and> prefix (got_msgs B') (map Inr (sent_msgs A')) \<and>
     cbc_poll_recv byte_bincode zero_snap (conn B') = Some (c, r)"
proof -
  let ?es = "[(True, Msg_send 0), (True, Msg_send 0), (True, Msg_send 0), (True, Msg_flush), (True, Msg_round (Can_send 0)),
        (False, Msg_round (Packet_arrives 0)), (False, Msg_recv)]"
  obtain a where a: "ReliableChannel_new nano_timer 100 small_settings = Some a" using small_channel by blast
  have vis: "visits_entries (\<lambda>_ ks. ks)" by (simp add: visits_entries_def)
  have enc: "cbc_encode byte_bincode m = [m]" for m
    by (simp add: cbc_encode_def byte_bincode_def CB_MAX_MESSAGE_LEN_def u16_max_def)
  have ok: "\<forall>side m. (side, Msg_send m) \<in> set ?es \<longrightarrow> cbc_sendable byte_bincode m"
    using enc by (simp add: cbc_sendable_def byte_bincode_def CB_MAX_MESSAGE_LEN_def u16_max_def)
  have cost: "int (length (chunk_bytes byte_bincode (event_msgs True ?es)) + 3 * length (event_msgs True ?es)) + int (recv_window_size small_settings) < half_span"
    "int (length (chunk_bytes byte_bincode (event_msgs False ?es)) + 3 * length (event_msgs False ?es)) + int (recv_window_size small_settings) < half_span"
    by (simp_all add: enc small_settings_def)
  from compressed_messages_delivered [OF byte_bincode.bincode_laws_axioms zero_snap.snap_laws_axioms a small_settings_ok a
      small_settings_ok nano_timer_monotonic nano_timer_monotonic vis ok cost] a
  show ?thesis by blast
qed

text \<open>
  A message that serializes to nothing is accepted and never sent. On a channel with an empty chunk
  any number of such messages is taken with success, and a flush then reports success without writing
  a byte.
\<close>

theorem empty_messages_are_lost:
  assumes "bc_serialized_size B CB_MAX_MESSAGE_LEN m = Inr 0" and "bc_serialize_into B CB_MAX_MESSAGE_LEN m = ([], Inr ())"
    and "cb_send_chunk cb = []" and "cb_write_pos cb = length (cb_write_buffer cb)" and "handle (cb_channel cb) = Running"
  shows "cbc_poll_send B S m cb = Some (cb, Ready (Inr ())) \<and>
     (\<exists>c. cbc_poll_flush S cb = Some (cb\<lparr>cb_channel := c\<rparr>, Ready (Inr ())) \<and> send_window (task c) = send_window (task (cb_channel cb)))"
proof
  show "cbc_poll_send B S m cb = Some (cb, Ready (Inr ()))"
    using assms(1-3) by (simp add: cbc_poll_send_def usize_add_def CB_MAX_MESSAGE_LEN_def usize_max_def)
  have "finish_write (poll_write id) (cb_channel cb) (cb_write_buffer cb) (cb_write_pos cb) =
      Some (cb_channel cb, cb_write_pos cb, Ready (Inr ()))"
    using assms(4) by (subst finish_write.simps) simp
  then show "\<exists>c. cbc_poll_flush S cb = Some (cb\<lparr>cb_channel := c\<rparr>, Ready (Inr ())) \<and> send_window (task c) = send_window (task (cb_channel cb))"
    using assms(3,5)
    by (intro exI [of _ "fst (ReliableChannel_flush (cb_channel cb))"])
      (simp add: cbc_poll_flush_def cbc_poll_write_send_chunk_def cbc_poll_finish_write_def ReliableChannel_flush_def wake_up_def)
qed

text \<open>An encoding whose messages are empty.\<close>

definition unit_bincode :: "(unit, unit) bincode" where
  "unit_bincode = \<lparr>bc_serialize_into = (\<lambda>limit _. ([], Inr ())), bc_serialized_size = (\<lambda>limit _. Inr 0),
     bc_deserialize = (\<lambda>limit bs. Inr ()), bc_deserialize_from = (\<lambda>limit bs. (bs, Inr ()))\<rparr>"

interpretation unit_bincode: bincode_laws unit_bincode
  by unfold_locales (auto simp: unit_bincode_def)

theorem empty_messages_are_lost_witness:
  "\<exists>ch c. ReliableChannel_new nano_timer 100 small_settings = Some ch \<and>
     cbc_poll_send unit_bincode zero_snap () (CompressedBincodeChannel_new ch) =
       Some (CompressedBincodeChannel_new ch, Ready (Inr ())) \<and>
     cbc_poll_flush zero_snap (CompressedBincodeChannel_new ch) =
       Some ((CompressedBincodeChannel_new ch)\<lparr>cb_channel := c\<rparr>, Ready (Inr ()))"
proof -
  obtain ch where ch: "ReliableChannel_new nano_timer 100 small_settings = Some ch" using small_channel by blast
  then have "handle ch = Running" by (auto simp: ReliableChannel_new_def option_bind_eq_Some)
  then show ?thesis
    using ch empty_messages_are_lost [of unit_bincode "()" "CompressedBincodeChannel_new ch" zero_snap]
    by (auto simp: unit_bincode_def CompressedBincodeChannel_new_def)
qed

end
