(* ===== verification/Unreliable_Bincode.thy ===== *)
theory Unreliable_Bincode
  imports Unreliable_Properties Message_Stream Bincode
begin

text \<open>
  Messages over the unreliable channel (\<open>unreliable_bincode_channel.rs\<close>).

  A message is serialized into a buffer, and the buffer is sent as one message of the unreliable channel
  when there is room for it, at the latest before the next message or at a flush. The typed channel of
  the same file only fixes the message type, which is a type parameter here. The arguments of a poll are
  those of the unreliable channel.
\<close>

datatype ('u, 'e) ubc_error = Unreliable_error 'u | Ubc_bincode_error 'e

record ('q, 'w, 'i) ubc =
  ubc_channel :: "('q, 'w, 'i) unreliable_channel"
  ubc_pending_write :: "byte list"

definition UnreliableBincodeChannel_new :: "('q, 'w, 'i) unreliable_channel \<Rightarrow> ('q, 'w, 'i) ubc" where
  "UnreliableBincodeChannel_new ch = \<lparr>ubc_channel = ch, ubc_pending_write = []\<rparr>"

subsection \<open>Sending\<close>

definition ubc_poll_send_ready ::
  "('q, 'w, 'k) packet_lib \<Rightarrow> 'i timer \<Rightarrow> bool \<Rightarrow> 'k \<Rightarrow> ('q, 'w, 'i) ubc \<Rightarrow>
   (('q, 'w, 'i) ubc \<times> (uc_send_error + unit) poll) option" where
  "ubc_poll_send_ready L tm slept cx ub =
     (if ubc_pending_write ub \<noteq> [] then do {
        (c, r) \<leftarrow> uc_poll_send L tm slept cx (ubc_pending_write ub) (ubc_channel ub);
        let ub = ub\<lparr>ubc_channel := c\<rparr>;
        (case r of
           Ready (Inr _) \<Rightarrow> Some (ub\<lparr>ubc_pending_write := []\<rparr>, Ready (Inr ()))
         | _ \<Rightarrow> Some (ub, r))
      } else Some (ub, Ready (Inr ())))"

definition ubc_try_send_ready ::
  "('q, 'w, 'k) packet_lib \<Rightarrow> 'i timer \<Rightarrow> bool \<Rightarrow> 'k \<Rightarrow> ('q, 'w, 'i) ubc \<Rightarrow>
   (('q, 'w, 'i) ubc \<times> (uc_send_error + bool)) option" where
  "ubc_try_send_ready L tm slept noop ub = map_option (apsnd try_result) (ubc_poll_send_ready L tm slept noop ub)"

definition ubc_start_send ::
  "('m, 'e) bincode \<Rightarrow> 'm \<Rightarrow> ('q, 'w, 'i) ubc \<Rightarrow> (('q, 'w, 'i) ubc \<times> ('e + unit)) option" where
  "ubc_start_send B msg ub = do {
     assert_that (ubc_pending_write ub = []);
     limit \<leftarrow> max_message_len (ubc_channel ub);
     let (bytes, r) = bc_serialize_into B limit msg;
     Some (ub\<lparr>ubc_pending_write := ubc_pending_write ub @ bytes\<rparr>, r)
   }"

text \<open>One poll of \<open>send\<close>, and the \<open>poll_send\<close> of \<open>MessageBincodeChannel\<close>, which is the same.\<close>

definition ubc_poll_send ::
  "('m, 'e) bincode \<Rightarrow> ('q, 'w, 'k) packet_lib \<Rightarrow> 'i timer \<Rightarrow> bool \<Rightarrow> 'k \<Rightarrow> 'm \<Rightarrow> ('q, 'w, 'i) ubc \<Rightarrow>
   (('q, 'w, 'i) ubc \<times> ((uc_send_error, 'e) ubc_error + unit) poll) option" where
  "ubc_poll_send B L tm slept cx msg ub = do {
     (ub, r) \<leftarrow> ubc_poll_send_ready L tm slept cx ub;
     (case r of
        Pending \<Rightarrow> Some (ub, Pending)
      | Ready (Inl e) \<Rightarrow> Some (ub, Ready (Inl (Unreliable_error e)))
      | Ready (Inr _) \<Rightarrow> do {
          (ub, r) \<leftarrow> ubc_start_send B msg ub;
          Some (ub, Ready (map_sum Ubc_bincode_error id r))
        })
   }"

definition ubc_try_send ::
  "('m, 'e) bincode \<Rightarrow> ('q, 'w, 'k) packet_lib \<Rightarrow> 'i timer \<Rightarrow> bool \<Rightarrow> 'k \<Rightarrow> 'm \<Rightarrow> ('q, 'w, 'i) ubc \<Rightarrow>
   (('q, 'w, 'i) ubc \<times> ((uc_send_error, 'e) ubc_error + bool)) option" where
  "ubc_try_send B L tm slept noop msg ub = do {
     (ub, r) \<leftarrow> ubc_try_send_ready L tm slept noop ub;
     (case r of
        Inl e \<Rightarrow> Some (ub, Inl (Unreliable_error e))
      | Inr True \<Rightarrow> do {
          (ub, r) \<leftarrow> ubc_start_send B msg ub;
          Some (ub, map_sum Ubc_bincode_error (\<lambda>_. True) r)
        }
      | Inr False \<Rightarrow> Some (ub, Inr False))
   }"

definition ubc_poll_flush ::
  "('q, 'w, 'k) packet_lib \<Rightarrow> 'i timer \<Rightarrow> bool \<Rightarrow> 'k \<Rightarrow> ('q, 'w, 'i) ubc \<Rightarrow>
   (('q, 'w, 'i) ubc \<times> (uc_send_error + unit) poll) option" where
  "ubc_poll_flush L tm slept cx ub = do {
     (ub, r) \<leftarrow> ubc_poll_send_ready L tm slept cx ub;
     (case r of
        Ready (Inr _) \<Rightarrow> do {
          (c, r) \<leftarrow> uc_poll_flush L tm slept cx (ubc_channel ub);
          Some (ub\<lparr>ubc_channel := c\<rparr>, r)
        }
      | _ \<Rightarrow> Some (ub, r))
   }"

definition ubc_try_flush ::
  "('q, 'w, 'k) packet_lib \<Rightarrow> 'i timer \<Rightarrow> bool \<Rightarrow> 'k \<Rightarrow> ('q, 'w, 'i) ubc \<Rightarrow>
   (('q, 'w, 'i) ubc \<times> (uc_send_error + bool)) option" where
  "ubc_try_flush L tm slept noop ub = map_option (apsnd try_result) (ubc_poll_flush L tm slept noop ub)"

subsection \<open>Receiving\<close>

definition ubc_poll_recv ::
  "('m, 'e) bincode \<Rightarrow> ('q, 'w, 'k) packet_lib \<Rightarrow> 'k \<Rightarrow> ('q, 'w, 'i) ubc \<Rightarrow>
   (('q, 'w, 'i) ubc \<times> ((uc_recv_error, 'e) ubc_error + 'm) poll) option" where
  "ubc_poll_recv B L cx ub = do {
     limit \<leftarrow> max_message_len (ubc_channel ub);
     (c, r) \<leftarrow> uc_poll_recv L cx (ubc_channel ub);
     let ub = ub\<lparr>ubc_channel := c\<rparr>;
     (case r of
        Pending \<Rightarrow> Some (ub, Pending)
      | Ready (Inl e) \<Rightarrow> Some (ub, Ready (Inl (Unreliable_error e)))
      | Ready (Inr msg) \<Rightarrow> Some (ub, Ready (map_sum Ubc_bincode_error id (bc_deserialize B limit msg))))
   }"

definition ubc_try_recv ::
  "('m, 'e) bincode \<Rightarrow> ('q, 'w, 'k) packet_lib \<Rightarrow> 'k \<Rightarrow> ('q, 'w, 'i) ubc \<Rightarrow>
   (('q, 'w, 'i) ubc \<times> ((uc_recv_error, 'e) ubc_error + 'm option)) option" where
  "ubc_try_recv B L noop ub = map_option (apsnd try_value) (ubc_poll_recv B L noop ub)"

text \<open>
  The trait \<open>MessageBincodeChannel\<close>, for one waker and one answer of the sleep. All errors become one type
  there.
\<close>

datatype 'e ubc_task_error = Ubc_send_failed "(uc_send_error, 'e) ubc_error" | Ubc_recv_failed "(uc_recv_error, 'e) ubc_error"

definition ubc_ops ::
  "('m, 'e) bincode \<Rightarrow> ('q, 'w, 'k) packet_lib \<Rightarrow> 'i timer \<Rightarrow> bool \<Rightarrow> 'k \<Rightarrow>
   (('q, 'w, 'i) ubc, 'm, 'e ubc_task_error) message_channel" where
  "ubc_ops B L tm slept cx =
     \<lparr>mc_poll_recv = (\<lambda>ub. map_option (apsnd (map_poll (map_sum Ubc_recv_failed id))) (ubc_poll_recv B L cx ub)),
      mc_poll_send = (\<lambda>m ub. map_option (apsnd (map_poll (map_sum Ubc_send_failed id))) (ubc_poll_send B L tm slept cx m ub)),
      mc_poll_flush = (\<lambda>ub. map_option (apsnd (map_poll (map_sum (Ubc_send_failed \<circ> Unreliable_error) id)))
         (ubc_poll_flush L tm slept cx ub))\<rparr>"

text \<open>
  The state after \<open>start_send\<close>, on every branch: a message that serializes to nothing changes nothing, so
  it is never sent, and the bytes of a message that fails to serialize are sent as a message of their own.
\<close>

lemma ubc_start_send_state:
  assumes "max_message_len (ubc_channel ub) = Some limit" and "bc_serialize_into B limit m = (bytes, r)"
  shows "ubc_start_send B m ub =
     (if ubc_pending_write ub = [] then Some (if bytes = [] then ub else ub\<lparr>ubc_pending_write := bytes\<rparr>, r) else None)"
  using assms by (cases ub) (simp add: ubc_start_send_def)

subsection \<open>The unreliable channel returns\<close>

text \<open>
  The debt of the limiter is at most the bytes handed to the sender so far. The answer of the sleep is
  an argument, so a run may end every sleep at once; the debt then grows with the bytes sent, and the
  bound on them is what keeps the delay representable.
\<close>

definition uc_timed :: "'i timer \<Rightarrow> nat \<Rightarrow> ('q, 'w, 'i) unreliable_channel \<Rightarrow> bool" where
  "uc_timed tm debt uc \<longleftrightarrow> limiter_ok debt (uc_limiter uc) \<and> bandwidth (uc_limiter uc) \<noteq> 0 \<and>
     last_calculation (uc_limiter uc) \<in> clock tm ` {..<uc_clock_reads uc}"

lemma take_bytes_debts:
  assumes "limiter_ok m l" and "m + n \<le> u32_max"
  shows "limiter_ok (m + n) (take_bytes l n)"
proof -
  note l = assms(1) [unfolded limiter_ok_def]
  have "f64_round (- of_nat (m + n)) \<le> f64_round (bytes_credit l - of_nat n)"
    using l by (intro f64_round_mono) simp
  then have "- of_nat (m + n) \<le> f64_round (bytes_credit l - of_nat n)"
    using assms(2) by (simp only: f64_round_minus f64_round_u32)
  moreover have "f64_round (bytes_credit l - of_nat n) \<le> bytes_credit l"
    using f64_round_mono [of "bytes_credit l - of_nat n" "bytes_credit l"] l by simp
  ultimately show ?thesis using l by (simp add: limiter_ok_def take_bytes_def)
qed

lemma uc_timed_delay:
  assumes "uc_timed tm debt uc" and "monotonic_timer tm" and "debt \<le> u32_max"
  shows "\<exists>l n d. uc_update_delay tm uc = Some (uc\<lparr>uc_limiter := l, uc_clock_reads := n, uc_delay := d\<rparr>) \<and>
     uc_timed tm debt (uc\<lparr>uc_limiter := l, uc_clock_reads := n, uc_delay := d\<rparr>)"
proof (cases "uc_delay uc = None")
  case True
  note t = assms(1) [unfolded uc_timed_def]
  then obtain i where i: "i < uc_clock_reads uc" "last_calculation (uc_limiter uc) = clock tm i" by auto
  then obtain e where "duration_between tm (clock tm i) (clock tm (uc_clock_reads uc)) = Some e"
    using assms(2) unfolding monotonic_timer_def by (metis less_imp_le not_Some_eq)
  then obtain l where l: "update_available (duration_between tm) (uc_limiter uc) (clock tm (uc_clock_reads uc)) = Some l"
    using i(2) by (auto simp: update_available_def Let_def)
  note u = update_available_credit [OF conjunct1 [OF t] l]
  have "bandwidth l \<noteq> 0" using u(4) t by simp
  then obtain d where d: "delay_until_available l = Some d" using delay_returns [OF u(1) assms(3)] by blast
  have "uc_timed tm debt (uc\<lparr>uc_limiter := l, uc_clock_reads := Suc (uc_clock_reads uc), uc_delay := d\<rparr>)"
    using u(1,3,4) t by (auto simp: uc_timed_def)
  moreover have "uc_update_delay tm uc = Some (uc\<lparr>uc_limiter := l, uc_clock_reads := Suc (uc_clock_reads uc), uc_delay := d\<rparr>)"
    using True l d by (simp add: uc_update_delay_def)
  ultimately show ?thesis by blast
next
  case False
  have "uc\<lparr>uc_limiter := uc_limiter uc, uc_clock_reads := uc_clock_reads uc, uc_delay := uc_delay uc\<rparr> = uc" by simp
  with False assms(1) show ?thesis
    by (intro exI [of _ "uc_limiter uc"] exI [of _ "uc_clock_reads uc"] exI [of _ "uc_delay uc"]) (auto simp: uc_update_delay_def)
qed

lemma uc_flush_returns:
  assumes laws: "spsc_laws L items room tx_gone rx_gone waiting woken"
    and t: "uc_timed tm debt uc" "monotonic_timer tm" "debt + length (uc_out_packet uc) \<le> u32_max"
    and live: "\<not> rx_gone (sp_channel (uc_sender uc))"
  shows "\<exists>uc' r. uc_poll_flush L tm slept cx uc = Some (uc', r) \<and> (r = Pending \<or> r = Ready (Inr ())) \<and>
     uc_timed tm (debt + length (uc_out_packet uc) - length (uc_out_packet uc')) uc'"
proof (cases "uc_out_packet uc = []")
  case True
  then show ?thesis using t(1) by (simp add: uc_poll_flush_def)
next
  case ne: False
  from uc_timed_delay [OF t(1,2)] t(3) obtain l n d where
    u: "uc_update_delay tm uc = Some (uc\<lparr>uc_limiter := l, uc_clock_reads := n, uc_delay := d\<rparr>)"
    "uc_timed tm debt (uc\<lparr>uc_limiter := l, uc_clock_reads := n, uc_delay := d\<rparr>)" by fastforce
  then have t': "limiter_ok debt l" "bandwidth l \<noteq> 0" "last_calculation l \<in> clock tm ` {..<n}" by (simp_all add: uc_timed_def)
  obtain s0 q0 where p: "Sender_poll_ready L id id cx (uc_sender uc) = (s0, q0)" by force
  note p' = spsc_laws.poll_ready_contents [OF laws p live] and q0 = spsc_laws.poll_ready_live [OF laws p live]
  show ?thesis
  proof (cases "d \<noteq> None \<and> \<not> slept \<or> q0 = Pending")
    case True
    then show ?thesis using ne u p t' by (auto simp: uc_poll_flush_def uc_timed_def)
  next
    case False
    with q0 have "q0 = Ready (Inr ())" "\<not> (d \<noteq> None \<and> \<not> slept)" by auto
    then have s0: "sp_slot s0 = None" using p'(3) by simp
    let ?s1 = "s0\<lparr>sp_slot := Some (uc_out_packet uc)\<rparr>"
    obtain s q where f: "Sender_poll_flush L id id cx ?s1 = (s, q)" by force
    have q: "q = Pending \<or> q = Ready (Inr ())"
      using spsc_laws.poll_ready_live [OF laws f [unfolded Sender_poll_flush_def]] p'(2) by simp
    have len: "as_u32 (length (uc_out_packet uc)) = length (uc_out_packet uc)" using t(3) by (simp add: as_u32_ok)
    have "limiter_ok (debt + length (uc_out_packet uc)) (take_bytes l (length (uc_out_packet uc)))"
      using take_bytes_debts [OF t'(1) t(3)] .
    then show ?thesis using False ne u(1) p f q s0 t'(2,3) len \<open>q0 = Ready (Inr ())\<close>
      by (auto simp: uc_poll_flush_def Sender_start_send_def uc_timed_def take_bytes_def split: poll.splits)
  qed
qed

subsection \<open>Sending without panics\<close>

text \<open>The messages \<open>bs\<close> are in the packets, and the debt of the limiter is bounded by the packets handed on.\<close>

definition uc_sending ::
  "('q \<Rightarrow> byte list list) \<Rightarrow> ('q \<Rightarrow> bool) \<Rightarrow> 'i timer \<Rightarrow> nat \<Rightarrow> byte list list \<Rightarrow> ('q, 'w, 'i) unreliable_channel \<Rightarrow>
   byte list list \<Rightarrow> bool" where
  "uc_sending items rx_gone tm cap wire uc bs \<longleftrightarrow> packed items rx_gone cap (uc, bs, wire) \<and>
     uc_timed tm (length (concat (wire @ spsc_contents items (uc_sender uc)))) uc"

lemma packed_length:
  assumes "packed items rx_gone cap (uc, bs, wire)"
  shows "length (concat (wire @ spsc_contents items (uc_sender uc))) + length (uc_out_packet uc) = length (frames bs)"
proof -
  obtain groups g where g: "wire @ spsc_contents items (uc_sender uc) = map frames groups" "uc_out_packet uc = frames g"
    "bs = concat groups @ g" using assms by (auto simp: packed_def)
  have "concat (map frames groups) = frames (concat groups)" by (induction groups) simp_all
  then show ?thesis unfolding g by simp
qed

lemma uc_flush_sending:
  assumes laws: "spsc_laws L items room tx_gone rx_gone waiting woken" and mono: "monotonic_timer tm"
    and u: "uc_sending items rx_gone tm cap wire uc bs" and "length (frames bs) \<le> u32_max"
  shows "\<exists>uc' r. uc_poll_flush L tm slept cx uc = Some (uc', r) \<and> (r = Pending \<or> r = Ready (Inr ())) \<and>
     uc_sending items rx_gone tm cap wire uc' bs"
proof -
  note u' = u [unfolded uc_sending_def]
  note len = packed_length [OF conjunct1 [OF u']]
  have live: "\<not> rx_gone (sp_channel (uc_sender uc))" using u' by (simp add: packed_def)
  from uc_flush_returns [OF laws conjunct2 [OF u'] mono _ live, of slept cx] obtain uc' r where
    f: "uc_poll_flush L tm slept cx uc = Some (uc', r)" "r = Pending \<or> r = Ready (Inr ())"
    "uc_timed tm (length (frames bs) - length (uc_out_packet uc')) uc'"
    unfolding len using assms(4) by blast
  note p = uc_flush_packed [OF laws conjunct1 [OF u'] f(1)]
  have "length (frames bs) - length (uc_out_packet uc') = length (concat (wire @ spsc_contents items (uc_sender uc')))"
    using packed_length [OF p] by linarith
  with p f show ?thesis by (auto simp: uc_sending_def)
qed

lemma uc_send_sending:
  fixes uc :: "('q, 'w, 'i) unreliable_channel"
  assumes laws: "spsc_laws L items room tx_gone rx_gone waiting woken" and mono: "monotonic_timer tm"
    and u: "uc_sending items rx_gone tm cap wire uc bs" and total: "length (frames (bs @ [m])) \<le> u32_max"
    and m: "length m \<le> u16_max" "length m + 2 < cap" "length (uc_out_packet uc) + length m + 2 \<noteq> cap"
  shows "\<exists>uc' r. uc_poll_send L tm slept cx m uc = Some (uc', r) \<and>
     (r = Pending \<and> uc_sending items rx_gone tm cap wire uc' bs \<or>
      r = Ready (Inr ()) \<and> uc_sending items rx_gone tm cap wire uc' (bs @ [m]))"
proof -
  have p: "packed items rx_gone cap (uc, bs, wire)" "uc_timed tm (length (concat (wire @ spsc_contents items (uc_sender uc)))) uc"
    using u by (simp_all add: uc_sending_def)
  have c: "uc_capacity uc = cap" "length (uc_out_packet uc) \<le> uc_capacity uc" "uc_capacity uc \<le> usize_max"
    using p(1) by (auto simp: packed_def)
  have put: "uc_sending items rx_gone tm cap wire (v\<lparr>uc_out_packet := uc_out_packet v @ frame m\<rparr>) (bs @ [m])"
    if "uc_sending items rx_gone tm cap wire v bs" "length (uc_out_packet v) + length m + 2 \<le> cap"
    for v :: "('q, 'w, 'i) unreliable_channel"
    using that uc_append_packed [OF _ m(1) that(2)] by (simp add: uc_sending_def uc_timed_def)
  note eq = uc_poll_send_eq [OF c(2,3), of L tm slept cx m]
  show ?thesis
  proof (cases "length (uc_out_packet uc) + length m + 2 \<le> uc_capacity uc")
    case True
    then show ?thesis using put [OF u] m c(1) unfolding eq by simp
  next
    case False
    have "length (frames bs) \<le> u32_max" using total by simp
    from uc_flush_sending [OF laws mono u this, of slept cx] obtain v r where
      f: "uc_poll_flush L tm slept cx uc = Some (v, r)" "r = Pending \<or> r = Ready (Inr ())"
      "uc_sending items rx_gone tm cap wire v bs" by blast
    note fr = uc_poll_flush_frame [OF f(1)]
    show ?thesis using f fr(1,4) put [OF f(3)] m False c(1) unfolding eq by auto
  qed
qed

subsection \<open>Runs\<close>

text \<open>
  The application sends and flushes, and the network takes packets. A message must serialize to at least
  a byte within the limit. A message that fills a packet to its last byte is the only way to a panic.
\<close>

datatype 'm ubc_event = Ubc_send bool 'm | Ubc_flush bool | Ubc_take

type_synonym ('q, 'w, 'i, 'm, 'e) ubc_run_state =
  "(('q, 'w, 'i) ubc, 'm, 'e ubc_task_error) msg_endpoint \<times> byte list list"

fun ubc_step ::
  "('m, 'e) bincode \<Rightarrow> ('q, 'w, 'k) packet_lib \<Rightarrow> 'i timer \<Rightarrow> 'k \<Rightarrow> ('q, 'w, 'i, 'm, 'e) ubc_run_state \<Rightarrow>
   'm ubc_event \<Rightarrow> ('q, 'w, 'i, 'm, 'e) ubc_run_state option" where
  "ubc_step B L tm cx (ep, wire) (Ubc_send slept m) = do {
     (c, r) \<leftarrow> mc_poll_send (ubc_ops B L tm slept cx) m (conn ep);
     Some (ep\<lparr>conn := c, sent_msgs := sent_msgs ep @ (case r of Ready (Inr _) \<Rightarrow> [m] | _ \<Rightarrow> []),
       failures := failures ep @ poll_failures r\<rparr>, wire)
   }"
| "ubc_step B L tm cx (ep, wire) (Ubc_flush slept) = do {
     (c, r) \<leftarrow> mc_poll_flush (ubc_ops B L tm slept cx) (conn ep);
     Some (ep\<lparr>conn := c, failures := failures ep @ poll_failures r\<rparr>, wire)
   }"
| "ubc_step B L tm cx (ep, wire) Ubc_take =
     (case receiver_step L (uc_sender (ubc_channel (conn ep))) Recv_try of
        (s, new) \<Rightarrow> Some (ep\<lparr>conn := (conn ep)\<lparr>ubc_channel := (ubc_channel (conn ep))\<lparr>uc_sender := s\<rparr>\<rparr>\<rparr>, wire @ new))"

fun ubc_run ::
  "('m, 'e) bincode \<Rightarrow> ('q, 'w, 'k) packet_lib \<Rightarrow> 'i timer \<Rightarrow> 'k \<Rightarrow> ('q, 'w, 'i, 'm, 'e) ubc_run_state \<Rightarrow>
   'm ubc_event list \<Rightarrow> ('q, 'w, 'i, 'm, 'e) ubc_run_state option" where
  "ubc_run B L tm cx s [] = Some s"
| "ubc_run B L tm cx s (e # es) = do { s \<leftarrow> ubc_step B L tm cx s e; ubc_run B L tm cx s es }"

fun ubc_event_msgs :: "'m ubc_event list \<Rightarrow> 'm list" where
  "ubc_event_msgs [] = []"
| "ubc_event_msgs (Ubc_send _ m # es) = m # ubc_event_msgs es"
| "ubc_event_msgs (_ # es) = ubc_event_msgs es"

definition ubc_limit :: "nat \<Rightarrow> nat" where
  "ubc_limit cap = min cap MAX_PACKET_LEN - 2"

definition ubc_encode :: "('m, 'e) bincode \<Rightarrow> nat \<Rightarrow> 'm \<Rightarrow> byte list" where
  "ubc_encode B cap m = fst (bc_serialize_into B (ubc_limit cap) m)"

definition ubc_serializes :: "('m, 'e) bincode \<Rightarrow> nat \<Rightarrow> 'm \<Rightarrow> bool" where
  "ubc_serializes B cap m \<longleftrightarrow> 2 \<le> cap \<and> snd (bc_serialize_into B (ubc_limit cap) m) = Inr () \<and> ubc_encode B cap m \<noteq> []"

lemma ubc_serializesD:
  assumes "ubc_serializes B cap m"
  shows "bc_serialize_into B (ubc_limit cap) m = (ubc_encode B cap m, Inr ())" "ubc_encode B cap m \<noteq> []" "2 \<le> cap"
  using assms by (auto simp: ubc_serializes_def ubc_encode_def prod_eq_iff)

lemma ubc_max_message_len:
  assumes "uc_capacity uc = cap" and "2 \<le> cap"
  shows "max_message_len uc = Some (ubc_limit cap)"
  using assms by (simp add: max_message_len_def ubc_limit_def checked_simps MAX_PACKET_LEN_def)

definition fills_packet :: "('q, 'w, 'i) ubc \<Rightarrow> bool" where
  "fills_packet ub \<longleftrightarrow> uc_capacity (ubc_channel ub) \<in>
     {length (uc_out_packet (ubc_channel ub)) + length (ubc_pending_write ub) + 2, length (ubc_pending_write ub) + 2}"

definition pending_msgs :: "('q, 'w, 'i) ubc \<Rightarrow> byte list list" where
  "pending_msgs ub = (if ubc_pending_write ub = [] then [] else [ubc_pending_write ub])"

definition ubc_sending ::
  "('m, 'e) bincode \<Rightarrow> ('q \<Rightarrow> byte list list) \<Rightarrow> ('q \<Rightarrow> bool) \<Rightarrow> 'i timer \<Rightarrow> nat \<Rightarrow> byte list list \<Rightarrow> ('q, 'w, 'i) ubc \<Rightarrow>
   'm list \<Rightarrow> bool" where
  "ubc_sending B items rx_gone tm cap wire ub ms \<longleftrightarrow> (\<forall>m\<in>set ms. ubc_serializes B cap m) \<and>
     (\<exists>bs. uc_sending items rx_gone tm cap wire (ubc_channel ub) bs \<and> map (ubc_encode B cap) ms = bs @ pending_msgs ub)"

lemma uc_sending_frame:
  assumes "uc_sending items rx_gone tm cap wire uc bs"
  shows "uc_capacity uc = cap"
  using assms by (simp add: uc_sending_def packed_def)

text \<open>\<open>poll_send_ready\<close> pushes the pending message into the packet, or has to wait.\<close>

lemma ubc_send_ready_law:
  assumes laws: "spsc_laws L items room tx_gone rx_gone waiting woken" and mono: "monotonic_timer tm"
    and u: "ubc_sending B items rx_gone tm cap wire ub ms" and B: "bincode_laws B"
    and total: "length (frames (map (ubc_encode B cap) ms)) \<le> u32_max" and fit: "\<not> fills_packet ub"
  shows "\<exists>ub' r. ubc_poll_send_ready L tm slept cx ub = Some (ub', r) \<and> ubc_sending B items rx_gone tm cap wire ub' ms \<and>
     (r = Pending \<or> r = Ready (Inr ()) \<and> ubc_pending_write ub' = [])"
proof (cases "ubc_pending_write ub = []")
  case True
  then show ?thesis using u by (simp add: ubc_poll_send_ready_def)
next
  case False
  let ?p = "ubc_pending_write ub"
  from u False obtain bs where b: "uc_sending items rx_gone tm cap wire (ubc_channel ub) bs"
    "map (ubc_encode B cap) ms = bs @ [?p]" and ok: "\<forall>m\<in>set ms. ubc_serializes B cap m"
    by (auto simp: ubc_sending_def pending_msgs_def)
  have "?p \<in> set (map (ubc_encode B cap) ms)" unfolding b(2) by simp
  then obtain m where m: "m \<in> set ms" "?p = ubc_encode B cap m" by auto
  then have ser: "bc_serialize_into B (ubc_limit cap) m = (?p, Inr ())" "2 \<le> cap"
    using ok ubc_serializesD [of B cap m] by auto
  have "length ?p \<le> ubc_limit cap" using bincode_laws.within_limit [OF B ser(1)] .
  then have len: "length ?p \<le> u16_max" "length ?p + 2 \<le> cap"
    using ser(2) by (auto simp: ubc_limit_def MAX_PACKET_LEN_def u16_max_def)
  have ne: "length (uc_out_packet (ubc_channel ub)) + length ?p + 2 \<noteq> cap" "length ?p + 2 \<noteq> cap"
    using fit uc_sending_frame [OF b(1)] unfolding fills_packet_def by auto
  have "length ?p + 2 < cap" using len(2) ne(2) by linarith
  from uc_send_sending [OF laws mono b(1) total [unfolded b(2)] len(1) this ne(1), of slept cx]
  obtain uc' r where s: "uc_poll_send L tm slept cx ?p (ubc_channel ub) = Some (uc', r)"
    "r = Pending \<and> uc_sending items rx_gone tm cap wire uc' bs \<or>
     r = Ready (Inr ()) \<and> uc_sending items rx_gone tm cap wire uc' (bs @ [?p])" by blast
  then show ?thesis
  proof (elim disjE conjE)
    assume r: "r = Pending" "uc_sending items rx_gone tm cap wire uc' bs"
    then have "ubc_sending B items rx_gone tm cap wire (ub\<lparr>ubc_channel := uc'\<rparr>) ms"
      using False ok b(2) by (auto simp: ubc_sending_def pending_msgs_def)
    then show ?thesis using False r s(1) by (auto simp: ubc_poll_send_ready_def)
  next
    assume r: "r = Ready (Inr ())" "uc_sending items rx_gone tm cap wire uc' (bs @ [?p])"
    then have "ubc_sending B items rx_gone tm cap wire (ub\<lparr>ubc_channel := uc', ubc_pending_write := []\<rparr>) ms"
      using ok b(2) by (auto simp: ubc_sending_def pending_msgs_def)
    then show ?thesis using False r s(1) by (auto simp: ubc_poll_send_ready_def)
  qed
qed

lemma ubc_start_send_law:
  assumes u: "ubc_sending B items rx_gone tm cap wire ub ms" and m: "ubc_serializes B cap m"
    and "ubc_pending_write ub = []"
  shows "\<exists>ub'. ubc_start_send B m ub = Some (ub', Inr ()) \<and> ubc_sending B items rx_gone tm cap wire ub' (ms @ [m])"
proof -
  from u assms(3) obtain bs where b: "uc_sending items rx_gone tm cap wire (ubc_channel ub) bs"
    "map (ubc_encode B cap) ms = bs" and ok: "\<forall>m\<in>set ms. ubc_serializes B cap m"
    by (auto simp: ubc_sending_def pending_msgs_def)
  note ser = ubc_serializesD [OF m] and lim = ubc_max_message_len [OF uc_sending_frame [OF b(1)] ubc_serializesD(3) [OF m]]
  have "ubc_sending B items rx_gone tm cap wire (ub\<lparr>ubc_pending_write := ubc_encode B cap m\<rparr>) (ms @ [m])"
    using b ok m ser(2) by (auto simp: ubc_sending_def pending_msgs_def)
  then show ?thesis using lim ser(1) assms(3) by (auto simp: ubc_start_send_def)
qed

lemma ubc_flush_law:
  assumes laws: "spsc_laws L items room tx_gone rx_gone waiting woken" and mono: "monotonic_timer tm"
    and u: "ubc_sending B items rx_gone tm cap wire ub ms" and B: "bincode_laws B"
    and total: "length (frames (map (ubc_encode B cap) ms)) \<le> u32_max" and fit: "\<not> fills_packet ub"
  shows "\<exists>ub' r. ubc_poll_flush L tm slept cx ub = Some (ub', r) \<and> ubc_sending B items rx_gone tm cap wire ub' ms \<and>
     (r = Pending \<or> r = Ready (Inr ()))"
proof -
  from ubc_send_ready_law [OF laws mono u B total fit, of slept cx] obtain v q where
    v: "ubc_poll_send_ready L tm slept cx ub = Some (v, q)" "ubc_sending B items rx_gone tm cap wire v ms"
    "q = Pending \<or> q = Ready (Inr ()) \<and> ubc_pending_write v = []" by blast
  show ?thesis
  proof (cases "q = Pending")
    case True
    then show ?thesis using v by (simp add: ubc_poll_flush_def)
  next
    case False
    obtain bs where b: "uc_sending items rx_gone tm cap wire (ubc_channel v) bs" "map (ubc_encode B cap) ms = bs @ pending_msgs v"
      "\<forall>m\<in>set ms. ubc_serializes B cap m" using v(2) by (auto simp: ubc_sending_def)
    have "length (frames bs) \<le> u32_max" using total unfolding b(2) by simp
    from uc_flush_sending [OF laws mono b(1) this, of slept cx] obtain uc' r where
      f: "uc_poll_flush L tm slept cx (ubc_channel v) = Some (uc', r)" "r = Pending \<or> r = Ready (Inr ())"
      "uc_sending items rx_gone tm cap wire uc' bs" by blast
    have "ubc_sending B items rx_gone tm cap wire (v\<lparr>ubc_channel := uc'\<rparr>) ms"
      using f(3) b by (auto simp: ubc_sending_def pending_msgs_def)
    then show ?thesis using False v(1,3) f(1,2) by (auto simp: ubc_poll_flush_def)
  qed
qed

text \<open>A step keeps this, or the pending message fills a packet.\<close>

definition ubc_ok ::
  "('m, 'e) bincode \<Rightarrow> ('q \<Rightarrow> byte list list) \<Rightarrow> ('q \<Rightarrow> bool) \<Rightarrow> 'i timer \<Rightarrow> nat \<Rightarrow> ('q, 'w, 'i, 'm, 'e) ubc_run_state \<Rightarrow> bool" where
  "ubc_ok B items rx_gone tm cap s \<longleftrightarrow> (case s of (ep, wire) \<Rightarrow> failures ep = [] \<and>
     ubc_sending B items rx_gone tm cap wire (conn ep) (sent_msgs ep))"

lemma ubc_step_ok:
  assumes laws: "spsc_laws L items room tx_gone rx_gone waiting woken" and mono: "monotonic_timer tm" and B: "bincode_laws B"
    and u: "ubc_ok B items rx_gone tm cap s" and fit: "\<not> fills_packet (conn (fst s))"
    and es: "\<forall>m\<in>set (ubc_event_msgs (e # es)). ubc_serializes B cap m"
    and total: "length (frames (map (ubc_encode B cap) (sent_msgs (fst s) @ ubc_event_msgs (e # es)))) \<le> u32_max"
  shows "\<exists>s'. ubc_step B L tm cx s e = Some s' \<and> ubc_ok B items rx_gone tm cap s' \<and>
     length (frames (map (ubc_encode B cap) (sent_msgs (fst s') @ ubc_event_msgs es))) \<le> u32_max"
proof -
  obtain ep wire where s: "s = (ep, wire)" by force
  have e: "failures ep = []" and v: "ubc_sending B items rx_gone tm cap wire (conn ep) (sent_msgs ep)"
    using u s by (simp_all add: ubc_ok_def)
  have len: "length (frames (map (ubc_encode B cap) (sent_msgs ep))) \<le> u32_max" "\<not> fills_packet (conn ep)"
    using total fit s by simp_all
  show ?thesis
  proof (cases e)
    case (Ubc_send slept m)
    from ubc_send_ready_law [OF laws mono v B len, of slept cx] obtain x q where
      x: "ubc_poll_send_ready L tm slept cx (conn ep) = Some (x, q)" "ubc_sending B items rx_gone tm cap wire x (sent_msgs ep)"
      "q = Pending \<or> q = Ready (Inr ()) \<and> ubc_pending_write x = []" by blast
    show ?thesis
    proof (cases "q = Pending")
      case True
      then show ?thesis using x(1,2) s e Ubc_send total by (simp add: ubc_ops_def ubc_poll_send_def ubc_ok_def poll_failures_def)
    next
      case False
      have "ubc_serializes B cap m" using es Ubc_send by simp
      from ubc_start_send_law [OF x(2) this] False x(3) obtain y where
        "ubc_start_send B m x = Some (y, Inr ())" "ubc_sending B items rx_gone tm cap wire y (sent_msgs ep @ [m])" by blast
      then show ?thesis using False x(1,3) s e Ubc_send total
        by (auto simp: ubc_ops_def ubc_poll_send_def ubc_ok_def poll_failures_def)
    qed
  next
    case (Ubc_flush slept)
    from ubc_flush_law [OF laws mono v B len, of slept cx] obtain x q where
      "ubc_poll_flush L tm slept cx (conn ep) = Some (x, q)" "ubc_sending B items rx_gone tm cap wire x (sent_msgs ep)"
      "q = Pending \<or> q = Ready (Inr ())" by blast
    then show ?thesis using s e Ubc_flush total by (auto simp: ubc_ops_def ubc_ok_def poll_failures_def)
  next
    case Ubc_take
    let ?uc = "ubc_channel (conn ep)"
    obtain t new where t: "receiver_step L (uc_sender ?uc) Recv_try = (t, new)" by force
    note c = spsc_laws.receiver_step_contents [OF laws t]
    obtain bs where b: "uc_sending items rx_gone tm cap wire ?uc bs" "map (ubc_encode B cap) (sent_msgs ep) = bs @ pending_msgs (conn ep)"
      "\<forall>m\<in>set (sent_msgs ep). ubc_serializes B cap m" using v by (auto simp: ubc_sending_def)
    have "uc_sending items rx_gone tm cap (wire @ new) (?uc\<lparr>uc_sender := t\<rparr>) bs"
      using b(1) c by (auto simp: uc_sending_def packed_def uc_timed_def)
    then have "ubc_sending B items rx_gone tm cap (wire @ new) ((conn ep)\<lparr>ubc_channel := ?uc\<lparr>uc_sender := t\<rparr>\<rparr>) (sent_msgs ep)"
      using b(2,3) by (auto simp: ubc_sending_def pending_msgs_def)
    then show ?thesis using s e t Ubc_take total by (simp add: ubc_ok_def)
  qed
qed

lemma ubc_run_ok:
  assumes laws: "spsc_laws L items room tx_gone rx_gone waiting woken" and mono: "monotonic_timer tm" and B: "bincode_laws B"
  shows "ubc_ok B items rx_gone tm cap s \<Longrightarrow> \<forall>m\<in>set (ubc_event_msgs es). ubc_serializes B cap m \<Longrightarrow>
     length (frames (map (ubc_encode B cap) (sent_msgs (fst s) @ ubc_event_msgs es))) \<le> u32_max \<Longrightarrow>
     \<exists>n s'. ubc_run B L tm cx s (take n es) = Some s' \<and> ubc_ok B items rx_gone tm cap s' \<and>
       (n < length es \<longrightarrow> fills_packet (conn (fst s')))"
proof (induction es arbitrary: s)
  case Nil
  then show ?case by auto
next
  case (Cons e es)
  show ?case
  proof (cases "fills_packet (conn (fst s))")
    case True
    then show ?thesis using Cons.prems(1) by (intro exI [of _ 0] exI [of _ s]) simp
  next
    case False
    from ubc_step_ok [OF laws mono B Cons.prems(1) False Cons.prems(2,3), of cx] obtain s' where
      s': "ubc_step B L tm cx s e = Some s'" "ubc_ok B items rx_gone tm cap s'"
      "length (frames (map (ubc_encode B cap) (sent_msgs (fst s') @ ubc_event_msgs es))) \<le> u32_max" by blast
    have "\<forall>m\<in>set (ubc_event_msgs es). ubc_serializes B cap m" using Cons.prems(2) by (cases e) auto
    from Cons.IH [OF s'(2) this s'(3)] obtain n s'' where
      "ubc_run B L tm cx s' (take n es) = Some s''" "ubc_ok B items rx_gone tm cap s''"
      "n < length es \<longrightarrow> fills_packet (conn (fst s''))" by blast
    then show ?thesis using s'(1) by (intro exI [of _ "Suc n"] exI [of _ s'']) simp
  qed
qed

subsection \<open>Reading\<close>

fun ubc_recv_many ::
  "('m, 'e) bincode \<Rightarrow> ('q, 'w, 'k) packet_lib \<Rightarrow> 'k \<Rightarrow> ('q, 'w, 'i) ubc \<Rightarrow> nat \<Rightarrow>
   (('q, 'w, 'i) ubc \<times> ((uc_recv_error, 'e) ubc_error + 'm) poll list) option" where
  "ubc_recv_many B L cx ub 0 = Some (ub, [])"
| "ubc_recv_many B L cx ub (Suc n) = do {
     (ub, r) \<leftarrow> ubc_poll_recv B L cx ub;
     (ub, rs) \<leftarrow> ubc_recv_many B L cx ub n;
     Some (ub, r # rs)
   }"

lemma uc_poll_recv_capacity: "uc_poll_recv L cx uc = Some (uc', r) \<Longrightarrow> uc_capacity uc' = uc_capacity uc"
  by (auto simp: uc_poll_recv_def uc_poll_recv_ready_def uc_recv_next_def option_bind_eq_Some Let_def
      split: prod.splits poll.splits sum.splits option.splits if_splits)

lemma ubc_recv_many_inbox:
  assumes laws: "spsc_laws L items room tx_gone rx_gone waiting woken" and B: "bincode_laws B"
  shows "inbox items (ubc_channel ub) (map (ubc_encode B cap) ms) \<Longrightarrow> \<forall>m\<in>set ms. ubc_serializes B cap m \<Longrightarrow>
     uc_capacity (ubc_channel ub) = cap \<Longrightarrow>
     \<exists>ub'. ubc_recv_many B L cx ub (length ms) = Some (ub', map (\<lambda>m. Ready (Inr m)) ms)"
proof (induction ms arbitrary: ub)
  case (Cons m ms)
  have "ubc_serializes B cap m" using Cons.prems(2) by simp
  note ser = ubc_serializesD [OF this] and lim = ubc_max_message_len [OF Cons.prems(3) ubc_serializesD(3) [OF this]]
  from uc_poll_recv_inbox [OF laws Cons.prems(1) [unfolded list.map], of cx] obtain uc' where
    r: "uc_poll_recv L cx (ubc_channel ub) = Some (uc', Ready (Inr (ubc_encode B cap m)))"
    "inbox items uc' (map (ubc_encode B cap) ms)" by blast
  have "ubc_poll_recv B L cx ub = Some (ub\<lparr>ubc_channel := uc'\<rparr>, Ready (Inr m))"
    using lim r(1) bincode_laws.read_back [OF B ser(1)] by (simp add: ubc_poll_recv_def Let_def)
  with Cons.IH [of "ub\<lparr>ubc_channel := uc'\<rparr>"] r(2) Cons.prems(2,3) uc_poll_recv_capacity [OF r(1)] show ?case by auto
qed simp

lemma ubc_inbox:
  assumes "bincode_laws B" and m: "\<forall>m\<in>set (concat ms). ubc_serializes B cap m" and "uc_in_packet uc = None"
    and "items (sp_channel (uc_receiver uc)) = map (\<lambda>g. frames (map (ubc_encode B cap) g)) ms"
    and "\<forall>g\<in>set ms. g \<noteq> [] \<and> length (frames (map (ubc_encode B cap) g)) \<le> usize_max"
  shows "inbox items uc (map (ubc_encode B cap) (concat ms))"
proof -
  have "length (ubc_encode B cap x) \<le> u16_max" if "x \<in> set (concat ms)" for x
  proof -
    have "ubc_serializes B cap x" using m that by blast
    from bincode_laws.within_limit [OF assms(1) ubc_serializesD(1) [OF this]] show ?thesis
      by (simp add: ubc_limit_def MAX_PACKET_LEN_def u16_max_def)
  qed
  then show ?thesis unfolding inbox_def using assms(3-5)
    by (intro exI [of _ "[]"] exI [of _ "map (map (ubc_encode B cap)) ms"]) (auto simp: map_concat comp_def)
qed

lemma map_eq_concat: "map f ms = concat gs @ r \<Longrightarrow> \<exists>hs t. gs = map (map f) hs \<and> ms = concat hs @ t"
proof (induction gs arbitrary: ms)
  case (Cons g gs)
  then have "map f (take (length g) ms) = g" "map f (drop (length g) ms) = concat gs @ r"
    by (simp_all add: take_map [symmetric] drop_map [symmetric])
  with Cons.IH [of "drop (length g) ms"] obtain hs t where "gs = map (map f) hs" "drop (length g) ms = concat hs @ t" by blast
  with \<open>map f (take (length g) ms) = g\<close> show ?case
    by (intro exI [of _ "take (length g) ms # hs"] exI [of _ t]) (metis append_take_drop_id concat.simps(2) append.assoc list.map(2))
qed auto

lemma ubc_sending_packets:
  assumes "ubc_sending B items rx_gone tm cap wire ub ms"
  shows "\<exists>groups rest. wire = map (\<lambda>g. frames (map (ubc_encode B cap) g)) groups \<and> ms = concat groups @ rest \<and>
     (\<forall>g\<in>set groups. g \<noteq> []) \<and> (\<forall>p\<in>set wire. length p \<le> cap)"
proof -
  obtain bs gs g where b: "map (ubc_encode B cap) ms = bs @ pending_msgs ub" "wire @ spsc_contents items (uc_sender (ubc_channel ub)) = map frames gs"
    "concat gs @ g = bs" "\<forall>h\<in>set gs. h \<noteq> [] \<and> length (frames h) \<le> cap"
    using assms by (auto simp: ubc_sending_def uc_sending_def packed_def)
  from b(1,3) have "map (ubc_encode B cap) ms = concat gs @ g @ pending_msgs ub" by simp
  from map_eq_concat [OF this] obtain hs t where h: "gs = map (map (ubc_encode B cap)) hs" "ms = concat hs @ t" by blast
  let ?k = "length wire"
  have w: "wire = map frames (take ?k gs)" using arg_cong [OF b(2), of "take ?k"] by (simp add: take_map)
  have "ms = concat (take ?k hs) @ concat (drop ?k hs) @ t"
    unfolding h(2) append_assoc [symmetric] concat_append [symmetric] by simp
  moreover have "\<forall>g\<in>set (take ?k hs). g \<noteq> []" using b(4) h(1) in_set_takeD by fastforce
  moreover have "\<forall>p\<in>set (map frames gs). length p \<le> cap" using b(4) by auto
  then have "\<forall>p\<in>set wire. length p \<le> cap" unfolding b(2) [symmetric] by simp
  moreover have "wire = map (\<lambda>g. frames (map (ubc_encode B cap) g)) (take ?k hs)"
    using w h(1) by (simp add: take_map comp_def)
  ultimately show ?thesis by blast
qed

subsection \<open>Properties\<close>



end
