(* ===== verification/Typed_Channels.thy ===== *)
theory Typed_Channels
  imports Reliable_Bincode Compressed_Bincode Unreliable_Bincode
begin

text \<open>
  The asynchronous methods of the channels, and the wrappers that fix the message type
  (\<open>ReliableTypedChannel\<close>, \<open>CompressedTypedChannel\<close>, \<open>UnreliableTypedChannel\<close>).

  The body of an \<open>async\<close> method is a function of one poll of its future: all these bodies wait for a poll of
  the channel first and run to their end in the same poll, so a future keeps nothing between its polls
  but its arguments. A wrapper holds its channel and a marker for the type, and passes every call on.
\<close>

subsection \<open>Asynchronous methods\<close>

text \<open>\<open>poll_fn(p).await?\<close>, followed by the rest of the body.\<close>

definition await_then ::
  "('e \<Rightarrow> 'f) \<Rightarrow> ('a \<times> ('e + unit) poll) option \<Rightarrow> ('a \<Rightarrow> ('a \<times> ('f + 'b)) option) \<Rightarrow> ('a \<times> ('f + 'b) poll) option" where
  "await_then err p rest = do {
     (a, r) \<leftarrow> p;
     (case r of
        Pending \<Rightarrow> Some (a, Pending)
      | Ready (Inl e) \<Rightarrow> Some (a, Ready (Inl (err e)))
      | Ready (Inr _) \<Rightarrow> map_option (apsnd Ready) (rest a))
   }"

definition ReliableChannel_write ::
  "('i reliable_channel \<Rightarrow> 'i reliable_channel) \<Rightarrow> 'i reliable_channel \<Rightarrow> byte list \<Rightarrow>
   ('i reliable_channel \<times> (rel_error + nat) poll) option" where
  "ReliableChannel_write env ch data = poll_write env ch data"

definition ReliableChannel_read ::
  "('i reliable_channel \<Rightarrow> 'i reliable_channel) \<Rightarrow> 'i reliable_channel \<Rightarrow> byte list \<Rightarrow>
   ('i reliable_channel \<times> byte list \<times> (rel_error + nat) poll) option" where
  "ReliableChannel_read env ch buf = poll_read env ch buf"

definition uc_send ::
  "('q, 'w, 'k) packet_lib \<Rightarrow> 'i timer \<Rightarrow> bool \<Rightarrow> 'k \<Rightarrow> byte list \<Rightarrow> ('q, 'w, 'i) unreliable_channel \<Rightarrow>
   (('q, 'w, 'i) unreliable_channel \<times> (uc_send_error + unit) poll) option" where
  "uc_send L tm slept cx msg uc = uc_poll_send L tm slept cx msg uc"

definition uc_flush ::
  "('q, 'w, 'k) packet_lib \<Rightarrow> 'i timer \<Rightarrow> bool \<Rightarrow> 'k \<Rightarrow> ('q, 'w, 'i) unreliable_channel \<Rightarrow>
   (('q, 'w, 'i) unreliable_channel \<times> (uc_send_error + unit) poll) option" where
  "uc_flush L tm slept cx uc = uc_poll_flush L tm slept cx uc"

definition uc_recv ::
  "('q, 'w, 'k) packet_lib \<Rightarrow> 'k \<Rightarrow> ('q, 'w, 'i) unreliable_channel \<Rightarrow>
   (('q, 'w, 'i) unreliable_channel \<times> (uc_recv_error + byte list) poll) option" where
  "uc_recv L cx uc = await_then id (Some (uc_poll_recv_ready L cx uc)) uc_recv_next"

definition ubc_flush ::
  "('q, 'w, 'k) packet_lib \<Rightarrow> 'i timer \<Rightarrow> bool \<Rightarrow> 'k \<Rightarrow> ('q, 'w, 'i) ubc \<Rightarrow>
   (('q, 'w, 'i) ubc \<times> (uc_send_error + unit) poll) option" where
  "ubc_flush L tm slept cx ub = ubc_poll_flush L tm slept cx ub"

definition ubc_recv ::
  "('m, 'e) bincode \<Rightarrow> ('q, 'w, 'k) packet_lib \<Rightarrow> 'k \<Rightarrow> ('q, 'w, 'i) ubc \<Rightarrow>
   (('q, 'w, 'i) ubc \<times> ((uc_recv_error, 'e) ubc_error + 'm) poll) option" where
  "ubc_recv B L cx ub = do {
     limit \<leftarrow> max_message_len (ubc_channel ub);
     (c, r) \<leftarrow> uc_recv L cx (ubc_channel ub);
     let ub = ub\<lparr>ubc_channel := c\<rparr>;
     (case r of
        Pending \<Rightarrow> Some (ub, Pending)
      | Ready (Inl e) \<Rightarrow> Some (ub, Ready (Inl (Unreliable_error e)))
      | Ready (Inr msg) \<Rightarrow> Some (ub, Ready (map_sum Ubc_bincode_error id (bc_deserialize B limit msg))))
   }"

definition rbc_flush :: "'i rbc \<Rightarrow> ('i rbc \<times> (rel_error + unit) poll) option" where
  "rbc_flush rb = rbc_poll_flush rb"

definition rbc_recv :: "('m, 'e) bincode \<Rightarrow> 'i rbc \<Rightarrow> ('i rbc \<times> ('e rbc_error + 'm) poll) option" where
  "rbc_recv B rb = await_then Reliable_error (rbc_poll_recv_ready rb)
     (\<lambda>rb. map_option (apsnd (map_sum Bincode_error id)) (rbc_recv_next B rb))"

definition cbc_send ::
  "('m, 'e) bincode \<Rightarrow> 'x snap \<Rightarrow> 'm \<Rightarrow> 'i cbc \<Rightarrow> ('i cbc \<times> (('e, 'x) cbc_error + unit) poll) option" where
  "cbc_send B S msg cb = cbc_poll_send B S msg cb"

definition cbc_flush :: "'x snap \<Rightarrow> 'i cbc \<Rightarrow> ('i cbc \<times> (rel_error + unit) poll) option" where
  "cbc_flush S cb = cbc_poll_flush S cb"

definition cbc_recv ::
  "('m, 'e) bincode \<Rightarrow> 'x snap \<Rightarrow> 'i cbc \<Rightarrow> ('i cbc \<times> (('e, 'x) cbc_error + 'm) poll) option" where
  "cbc_recv B S cb = await_then id (cbc_poll_recv_ready S cb)
     (\<lambda>cb. map_option (apsnd (map_sum Cb_bincode id)) (cbc_recv_next B cb))"

text \<open>The bodies of \<open>recv\<close> and \<open>poll_recv\<close> do the same.\<close>

lemma recv_is_poll_recv:
  "uc_recv L cx uc = uc_poll_recv L cx uc" "ubc_recv B L cx ub = ubc_poll_recv B L cx ub"
  "rbc_recv B rb = rbc_poll_recv B rb" "cbc_recv B S cb = cbc_poll_recv B S cb"
proof -
  show uc: "uc_recv L cx uc = uc_poll_recv L cx uc" for uc
    by (auto simp: uc_recv_def uc_poll_recv_def await_then_def split: prod.splits poll.splits sum.splits)
  show "ubc_recv B L cx ub = ubc_poll_recv B L cx ub" by (simp add: ubc_recv_def ubc_poll_recv_def uc)
  show "rbc_recv B rb = rbc_poll_recv B rb"
    by (cases "rbc_poll_recv_ready rb")
      (auto simp: rbc_recv_def rbc_poll_recv_def await_then_def rbc_recv_next_def Let_def map_sum_def
        split: prod.splits poll.splits sum.splits bind_splits)
  show "cbc_recv B S cb = cbc_poll_recv B S cb" unfolding cbc_recv_def cbc_poll_recv_def await_then_def
    by (intro arg_cong [where f = "Option.bind (cbc_poll_recv_ready S cb)"] ext)
      (auto simp: map_sum_def split: poll.splits sum.splits bind_splits option.splits)
qed

subsection \<open>Wrappers that fix the message type\<close>

record 'c typed =
  typed_inner :: 'c

text \<open>A call that a wrapper passes on.\<close>

definition on_inner :: "('c \<Rightarrow> ('c \<times> 'r) option) \<Rightarrow> 'c typed \<Rightarrow> ('c typed \<times> 'r) option" where
  "on_inner f ch = map_option (apfst (\<lambda>c. ch\<lparr>typed_inner := c\<rparr>)) (f (typed_inner ch))"

type_synonym 'i rtc = "'i rbc typed"

definition ReliableTypedChannel_new :: "'i reliable_channel \<Rightarrow> 'i rtc" where
  "ReliableTypedChannel_new channel = \<lparr>typed_inner = ReliableBincodeChannel_new channel\<rparr>"

text \<open>What the buffers of the channel hold is lost.\<close>

definition rbc_into_inner :: "'i rbc \<Rightarrow> 'i reliable_channel" where
  "rbc_into_inner rb = rbc_channel rb"

definition rtc_into_inner :: "'i rtc \<Rightarrow> 'i reliable_channel" where
  "rtc_into_inner ch = rbc_into_inner (typed_inner ch)"

definition rtc_flush :: "'i rtc \<Rightarrow> ('i rtc \<times> (rel_error + unit) poll) option" where
  "rtc_flush = on_inner rbc_flush"

definition rtc_try_flush :: "'i rtc \<Rightarrow> ('i rtc \<times> (rel_error + bool)) option" where
  "rtc_try_flush = on_inner rbc_try_flush"

definition rtc_poll_flush :: "'i rtc \<Rightarrow> ('i rtc \<times> (rel_error + unit) poll) option" where
  "rtc_poll_flush = on_inner rbc_poll_flush"

definition rtc_poll_send_ready :: "'i rtc \<Rightarrow> ('i rtc \<times> (rel_error + unit) poll) option" where
  "rtc_poll_send_ready = on_inner rbc_poll_send_ready"

definition rtc_try_send_ready :: "'i rtc \<Rightarrow> ('i rtc \<times> (rel_error + bool)) option" where
  "rtc_try_send_ready = on_inner rbc_try_send_ready"

definition rtc_send :: "('m, 'e) bincode \<Rightarrow> 'm \<Rightarrow> 'i rtc \<Rightarrow> ('i rtc \<times> ('e rbc_error + unit) poll) option" where
  "rtc_send B msg = on_inner (rbc_poll_send B msg)"

definition rtc_try_send :: "('m, 'e) bincode \<Rightarrow> 'm \<Rightarrow> 'i rtc \<Rightarrow> ('i rtc \<times> ('e rbc_error + bool)) option" where
  "rtc_try_send B msg = on_inner (rbc_try_send B msg)"

definition rtc_start_send :: "('m, 'e) bincode \<Rightarrow> 'm \<Rightarrow> 'i rtc \<Rightarrow> ('i rtc \<times> ('e + unit)) option" where
  "rtc_start_send B msg = on_inner (rbc_start_send B msg)"

definition rtc_recv :: "('m, 'e) bincode \<Rightarrow> 'i rtc \<Rightarrow> ('i rtc \<times> ('e rbc_error + 'm) poll) option" where
  "rtc_recv B = on_inner (rbc_recv B)"

definition rtc_try_recv :: "('m, 'e) bincode \<Rightarrow> 'i rtc \<Rightarrow> ('i rtc \<times> ('e rbc_error + 'm option)) option" where
  "rtc_try_recv B = on_inner (rbc_try_recv B)"

definition rtc_poll_recv :: "('m, 'e) bincode \<Rightarrow> 'i rtc \<Rightarrow> ('i rtc \<times> ('e rbc_error + 'm) poll) option" where
  "rtc_poll_recv B = on_inner (rbc_poll_recv B)"

type_synonym 'i ctc = "'i cbc typed"

definition CompressedTypedChannel_new :: "'i reliable_channel \<Rightarrow> 'i ctc" where
  "CompressedTypedChannel_new channel = \<lparr>typed_inner = CompressedBincodeChannel_new channel\<rparr>"

definition cbc_into_inner :: "'i cbc \<Rightarrow> 'i reliable_channel" where
  "cbc_into_inner cb = cb_channel cb"

definition ctc_into_inner :: "'i ctc \<Rightarrow> 'i reliable_channel" where
  "ctc_into_inner ch = cbc_into_inner (typed_inner ch)"

definition ctc_flush :: "'x snap \<Rightarrow> 'i ctc \<Rightarrow> ('i ctc \<times> (rel_error + unit) poll) option" where
  "ctc_flush S = on_inner (cbc_flush S)"

definition ctc_try_flush :: "'x snap \<Rightarrow> 'i ctc \<Rightarrow> ('i ctc \<times> (rel_error + bool)) option" where
  "ctc_try_flush S = on_inner (cbc_try_flush S)"

definition ctc_poll_flush :: "'x snap \<Rightarrow> 'i ctc \<Rightarrow> ('i ctc \<times> (rel_error + unit) poll) option" where
  "ctc_poll_flush S = on_inner (cbc_poll_flush S)"

definition ctc_send ::
  "('m, 'e) bincode \<Rightarrow> 'x snap \<Rightarrow> 'm \<Rightarrow> 'i ctc \<Rightarrow> ('i ctc \<times> (('e, 'x) cbc_error + unit) poll) option" where
  "ctc_send B S msg = on_inner (cbc_send B S msg)"

definition ctc_try_send ::
  "('m, 'e) bincode \<Rightarrow> 'x snap \<Rightarrow> 'm \<Rightarrow> 'i ctc \<Rightarrow> ('i ctc \<times> (('e, 'x) cbc_error + bool)) option" where
  "ctc_try_send B S msg = on_inner (cbc_try_send B S msg)"

definition ctc_poll_send ::
  "('m, 'e) bincode \<Rightarrow> 'x snap \<Rightarrow> 'm \<Rightarrow> 'i ctc \<Rightarrow> ('i ctc \<times> (('e, 'x) cbc_error + unit) poll) option" where
  "ctc_poll_send B S msg = on_inner (cbc_poll_send B S msg)"

definition ctc_recv ::
  "('m, 'e) bincode \<Rightarrow> 'x snap \<Rightarrow> 'i ctc \<Rightarrow> ('i ctc \<times> (('e, 'x) cbc_error + 'm) poll) option" where
  "ctc_recv B S = on_inner (cbc_recv B S)"

definition ctc_try_recv ::
  "('m, 'e) bincode \<Rightarrow> 'x snap \<Rightarrow> 'i ctc \<Rightarrow> ('i ctc \<times> (('e, 'x) cbc_error + 'm option)) option" where
  "ctc_try_recv B S = on_inner (cbc_try_recv B S)"

definition ctc_poll_recv ::
  "('m, 'e) bincode \<Rightarrow> 'x snap \<Rightarrow> 'i ctc \<Rightarrow> ('i ctc \<times> (('e, 'x) cbc_error + 'm) poll) option" where
  "ctc_poll_recv B S = on_inner (cbc_poll_recv B S)"

type_synonym ('q, 'w, 'i) utc = "('q, 'w, 'i) ubc typed"

definition UnreliableTypedChannel_new :: "('q, 'w, 'i) unreliable_channel \<Rightarrow> ('q, 'w, 'i) utc" where
  "UnreliableTypedChannel_new channel = \<lparr>typed_inner = UnreliableBincodeChannel_new channel\<rparr>"

definition ubc_into_inner :: "('q, 'w, 'i) ubc \<Rightarrow> ('q, 'w, 'i) unreliable_channel" where
  "ubc_into_inner ub = ubc_channel ub"

definition ubc_max_message_len :: "('q, 'w, 'i) ubc \<Rightarrow> nat option" where
  "ubc_max_message_len ub = max_message_len (ubc_channel ub)"

definition utc_into_inner :: "('q, 'w, 'i) utc \<Rightarrow> ('q, 'w, 'i) unreliable_channel" where
  "utc_into_inner ch = ubc_into_inner (typed_inner ch)"

definition utc_flush ::
  "('q, 'w, 'k) packet_lib \<Rightarrow> 'i timer \<Rightarrow> bool \<Rightarrow> 'k \<Rightarrow> ('q, 'w, 'i) utc \<Rightarrow> (('q, 'w, 'i) utc \<times> (uc_send_error + unit) poll) option" where
  "utc_flush L tm slept cx = on_inner (ubc_flush L tm slept cx)"

definition utc_try_flush ::
  "('q, 'w, 'k) packet_lib \<Rightarrow> 'i timer \<Rightarrow> bool \<Rightarrow> 'k \<Rightarrow> ('q, 'w, 'i) utc \<Rightarrow> (('q, 'w, 'i) utc \<times> (uc_send_error + bool)) option" where
  "utc_try_flush L tm slept noop = on_inner (ubc_try_flush L tm slept noop)"

definition utc_poll_flush ::
  "('q, 'w, 'k) packet_lib \<Rightarrow> 'i timer \<Rightarrow> bool \<Rightarrow> 'k \<Rightarrow> ('q, 'w, 'i) utc \<Rightarrow> (('q, 'w, 'i) utc \<times> (uc_send_error + unit) poll) option" where
  "utc_poll_flush L tm slept cx = on_inner (ubc_poll_flush L tm slept cx)"

definition utc_poll_send_ready ::
  "('q, 'w, 'k) packet_lib \<Rightarrow> 'i timer \<Rightarrow> bool \<Rightarrow> 'k \<Rightarrow> ('q, 'w, 'i) utc \<Rightarrow> (('q, 'w, 'i) utc \<times> (uc_send_error + unit) poll) option" where
  "utc_poll_send_ready L tm slept cx = on_inner (ubc_poll_send_ready L tm slept cx)"

definition utc_try_send_ready ::
  "('q, 'w, 'k) packet_lib \<Rightarrow> 'i timer \<Rightarrow> bool \<Rightarrow> 'k \<Rightarrow> ('q, 'w, 'i) utc \<Rightarrow> (('q, 'w, 'i) utc \<times> (uc_send_error + bool)) option" where
  "utc_try_send_ready L tm slept noop = on_inner (ubc_try_send_ready L tm slept noop)"

definition utc_send ::
  "('m, 'e) bincode \<Rightarrow> ('q, 'w, 'k) packet_lib \<Rightarrow> 'i timer \<Rightarrow> bool \<Rightarrow> 'k \<Rightarrow> 'm \<Rightarrow> ('q, 'w, 'i) utc \<Rightarrow>
   (('q, 'w, 'i) utc \<times> ((uc_send_error, 'e) ubc_error + unit) poll) option" where
  "utc_send B L tm slept cx msg = on_inner (ubc_poll_send B L tm slept cx msg)"

definition utc_try_send ::
  "('m, 'e) bincode \<Rightarrow> ('q, 'w, 'k) packet_lib \<Rightarrow> 'i timer \<Rightarrow> bool \<Rightarrow> 'k \<Rightarrow> 'm \<Rightarrow> ('q, 'w, 'i) utc \<Rightarrow>
   (('q, 'w, 'i) utc \<times> ((uc_send_error, 'e) ubc_error + bool)) option" where
  "utc_try_send B L tm slept noop msg = on_inner (ubc_try_send B L tm slept noop msg)"

definition utc_start_send ::
  "('m, 'e) bincode \<Rightarrow> 'm \<Rightarrow> ('q, 'w, 'i) utc \<Rightarrow> (('q, 'w, 'i) utc \<times> ('e + unit)) option" where
  "utc_start_send B msg = on_inner (ubc_start_send B msg)"

definition utc_recv ::
  "('m, 'e) bincode \<Rightarrow> ('q, 'w, 'k) packet_lib \<Rightarrow> 'k \<Rightarrow> ('q, 'w, 'i) utc \<Rightarrow>
   (('q, 'w, 'i) utc \<times> ((uc_recv_error, 'e) ubc_error + 'm) poll) option" where
  "utc_recv B L cx = on_inner (ubc_recv B L cx)"

definition utc_try_recv ::
  "('m, 'e) bincode \<Rightarrow> ('q, 'w, 'k) packet_lib \<Rightarrow> 'k \<Rightarrow> ('q, 'w, 'i) utc \<Rightarrow>
   (('q, 'w, 'i) utc \<times> ((uc_recv_error, 'e) ubc_error + 'm option)) option" where
  "utc_try_recv B L noop = on_inner (ubc_try_recv B L noop)"

definition utc_poll_recv ::
  "('m, 'e) bincode \<Rightarrow> ('q, 'w, 'k) packet_lib \<Rightarrow> 'k \<Rightarrow> ('q, 'w, 'i) utc \<Rightarrow>
   (('q, 'w, 'i) utc \<times> ((uc_recv_error, 'e) ubc_error + 'm) poll) option" where
  "utc_poll_recv B L cx = on_inner (ubc_poll_recv B L cx)"

text \<open>
  The trait \<open>MessageBincodeChannel\<close> of the wrappers. The errors of a \<open>TaskError\<close> are those of the channel.
\<close>

definition rtc_ops :: "('m, 'e) bincode \<Rightarrow> ('i rtc, 'm, 'e rbc_error) message_channel" where
  "rtc_ops B = \<lparr>mc_poll_recv = rtc_poll_recv B,
     mc_poll_send = (\<lambda>msg ch. await_then Reliable_error (rtc_poll_send_ready ch)
        (\<lambda>ch. map_option (apsnd (map_sum Bincode_error id)) (rtc_start_send B msg ch))),
     mc_poll_flush = (\<lambda>ch. map_option (apsnd (map_poll (map_sum Reliable_error id))) (rtc_poll_flush ch))\<rparr>"

definition ctc_ops :: "('m, 'e) bincode \<Rightarrow> 'x snap \<Rightarrow> ('i ctc, 'm, ('e, 'x) cbc_error) message_channel" where
  "ctc_ops B S = \<lparr>mc_poll_recv = ctc_poll_recv B S, mc_poll_send = ctc_poll_send B S,
     mc_poll_flush = (\<lambda>ch. map_option (apsnd (map_poll (map_sum Cb_reliable id))) (ctc_poll_flush S ch))\<rparr>"

definition utc_ops ::
  "('m, 'e) bincode \<Rightarrow> ('q, 'w, 'k) packet_lib \<Rightarrow> 'i timer \<Rightarrow> bool \<Rightarrow> 'k \<Rightarrow>
   (('q, 'w, 'i) utc, 'm, 'e ubc_task_error) message_channel" where
  "utc_ops B L tm slept cx =
     \<lparr>mc_poll_recv = (\<lambda>ch. map_option (apsnd (map_poll (map_sum Ubc_recv_failed id))) (utc_poll_recv B L cx ch)),
      mc_poll_send = (\<lambda>msg ch. await_then (Ubc_send_failed \<circ> Unreliable_error) (utc_poll_send_ready L tm slept cx ch)
        (\<lambda>ch. map_option (apsnd (map_sum (Ubc_send_failed \<circ> Ubc_bincode_error) id)) (utc_start_send B msg ch))),
      mc_poll_flush = (\<lambda>ch. map_option (apsnd (map_poll (map_sum (Ubc_send_failed \<circ> Unreliable_error) id)))
         (utc_poll_flush L tm slept cx ch))\<rparr>"

subsection \<open>The wrappers keep the contract\<close>

text \<open>The asynchronous methods of the two wrappers on the reliable channel.\<close>

definition rtc_calls :: "('m, 'e) bincode \<Rightarrow> ('i rtc, 'm, 'e rbc_error) message_channel" where
  "rtc_calls B = \<lparr>mc_poll_recv = rtc_recv B, mc_poll_send = rtc_send B,
     mc_poll_flush = (\<lambda>ch. map_option (apsnd (map_poll (map_sum Reliable_error id))) (rtc_flush ch))\<rparr>"

definition ctc_calls :: "('m, 'e) bincode \<Rightarrow> 'x snap \<Rightarrow> ('i ctc, 'm, ('e, 'x) cbc_error) message_channel" where
  "ctc_calls B S = \<lparr>mc_poll_recv = ctc_recv B S, mc_poll_send = ctc_send B S,
     mc_poll_flush = (\<lambda>ch. map_option (apsnd (map_poll (map_sum Cb_reliable id))) (ctc_flush S ch))\<rparr>"

definition typed_mc :: "('c, 'm, 'e) message_channel \<Rightarrow> ('c typed, 'm, 'e) message_channel" where
  "typed_mc T = \<lparr>mc_poll_recv = on_inner (mc_poll_recv T), mc_poll_send = (\<lambda>m. on_inner (mc_poll_send T m)),
     mc_poll_flush = on_inner (mc_poll_flush T)\<rparr>"

definition typed_coding :: "('i, 'c, 'm, 'u) message_coding \<Rightarrow> ('i, 'c typed, 'm, 'u) message_coding" where
  "typed_coding C = \<lparr>cd_new = (\<lambda>ch. \<lparr>typed_inner = cd_new C ch\<rparr>), cd_get = cd_get C \<circ> typed_inner,
     cd_put = (\<lambda>ch t. t\<lparr>typed_inner := cd_put C ch (typed_inner t)\<rparr>), cd_good = cd_good C, cd_cost = cd_cost C,
     cd_valid = cd_valid C, cd_bytes = cd_bytes C, cd_msgs = cd_msgs C, cd_pending = cd_pending C \<circ> typed_inner,
     cd_idle = cd_idle C \<circ> typed_inner, cd_sends = cd_sends C \<circ> typed_inner, cd_reads = cd_reads C \<circ> typed_inner\<rparr>"

lemma on_inner_map: "on_inner (\<lambda>c. map_option (apsnd g) (f c)) ch = map_option (apsnd g) (on_inner f ch)"
  by (cases "f (typed_inner ch)") (auto simp: on_inner_def)

lemma typed_calls:
  "rtc_calls B = typed_mc (rbc_ops B)" "ctc_calls B S = typed_mc (cbc_ops B S)"
  by (auto simp: rtc_calls_def ctc_calls_def typed_mc_def rbc_ops_def cbc_ops_def rtc_recv_def ctc_recv_def rtc_send_def ctc_send_def
      rtc_flush_def ctc_flush_def on_inner_map recv_is_poll_recv [abs_def] cbc_send_def [abs_def] rbc_flush_def [abs_def] cbc_flush_def [abs_def])

lemma await_inner:
  "await_then err (on_inner p ch) (on_inner k) = on_inner (\<lambda>c. await_then err (p c) k) ch"
  by (cases "p (typed_inner ch)") (auto simp: await_then_def on_inner_def option.map_comp comp_def split: poll.splits sum.splits)

lemma rbc_poll_send_await: "rbc_poll_send B msg rb =
    await_then Reliable_error (rbc_poll_send_ready rb) (\<lambda>rb. map_option (apsnd (map_sum Bincode_error id)) (rbc_start_send B msg rb))"
  by (cases "rbc_poll_send_ready rb")
    (auto simp: rbc_poll_send_def await_then_def map_sum_def split: poll.splits sum.splits bind_splits)

lemma ubc_poll_send_await: "map_option (apsnd (map_poll (map_sum Ubc_send_failed id))) (ubc_poll_send B L tm slept cx msg ub) =
    await_then (Ubc_send_failed \<circ> Unreliable_error) (ubc_poll_send_ready L tm slept cx ub)
      (\<lambda>ub. map_option (apsnd (map_sum (Ubc_send_failed \<circ> Ubc_bincode_error) id)) (ubc_start_send B msg ub))"
  by (cases "ubc_poll_send_ready L tm slept cx ub")
    (auto simp: ubc_poll_send_def await_then_def sum.map_comp split: poll.splits sum.splits bind_splits)

lemma typed_ops_inner:
  "rtc_ops B = typed_mc (rbc_ops B)" "ctc_ops B S = typed_mc (cbc_ops B S)" "utc_ops B L tm slept cx = typed_mc (ubc_ops B L tm slept cx)"
proof -
  show "rtc_ops B = typed_mc (rbc_ops B)"
    by (simp add: rtc_ops_def typed_mc_def rbc_ops_def rtc_poll_recv_def rtc_poll_flush_def rtc_poll_send_ready_def rtc_start_send_def
        on_inner_map [symmetric] await_inner rbc_poll_send_await [abs_def])
  show "ctc_ops B S = typed_mc (cbc_ops B S)"
    by (simp add: ctc_ops_def typed_mc_def cbc_ops_def ctc_poll_recv_def ctc_poll_flush_def ctc_poll_send_def fun_eq_iff on_inner_map)
  show "utc_ops B L tm slept cx = typed_mc (ubc_ops B L tm slept cx)"
    by (simp add: utc_ops_def typed_mc_def ubc_ops_def utc_poll_recv_def utc_poll_flush_def utc_poll_send_ready_def utc_start_send_def
        on_inner_map [symmetric] await_inner ubc_poll_send_await [abs_def])
qed

lemma typed_coding_sel [simp]:
  "cd_new (typed_coding C) ch = \<lparr>typed_inner = cd_new C ch\<rparr>" "cd_get (typed_coding C) t = cd_get C (typed_inner t)"
  "cd_put (typed_coding C) ch t = t\<lparr>typed_inner := cd_put C ch (typed_inner t)\<rparr>" "cd_good (typed_coding C) = cd_good C"
  "cd_cost (typed_coding C) = cd_cost C" "cd_valid (typed_coding C) = cd_valid C" "cd_bytes (typed_coding C) = cd_bytes C"
  "cd_msgs (typed_coding C) = cd_msgs C" "cd_pending (typed_coding C) t = cd_pending C (typed_inner t)"
  "cd_idle (typed_coding C) t = cd_idle C (typed_inner t)" "cd_sends (typed_coding C) t = cd_sends C (typed_inner t)"
  "cd_reads (typed_coding C) t = cd_reads C (typed_inner t)"
  by (simp_all add: typed_coding_def)

lemma typed_units [simp]:
  "unit_stream (typed_coding C) = unit_stream C" "unit_msgs (typed_coding C) = unit_msgs C" "msgs_cost (typed_coding C) = msgs_cost C"
  "units_within (typed_coding C) us b = units_within C us b"
  by (auto simp: unit_stream_def unit_msgs_def msgs_cost_def fun_eq_iff) (induction us arbitrary: b; simp)

lemma typed_mc_sel [simp]:
  "mc_poll_recv (typed_mc T) = on_inner (mc_poll_recv T)" "mc_poll_send (typed_mc T) m = on_inner (mc_poll_send T m)"
  "mc_poll_flush (typed_mc T) = on_inner (mc_poll_flush T)"
  by (simp_all add: typed_mc_def)

context message_stream
begin

lemma wrapped: "message_stream (typed_mc T) (typed_coding C)"
proof (unfold_locales, goal_cases)
  case (12 accepts M c xs us ms m)
  from send_law [OF 12 [unfolded typed_coding_sel typed_units]] show ?case
    by (force simp: on_inner_def)
next
  case (13 accepts M c xs us ms)
  from flush_law [OF 13 [unfolded typed_coding_sel typed_units]] show ?case
    by (force simp: on_inner_def)
next
  case 14
  from recv_law [OF 14 [unfolded typed_coding_sel typed_units]] show ?case
    by (force simp: on_inner_def)
qed (use get_put new_law sends_law idle_law reads_law in simp_all)

end

end
