(* ===== verification/Async_Calls.thy ===== *)
theory Async_Calls
  imports Typed_Channels
begin

text \<open>
  Asynchronous calls that may be dropped.

  An application has at most one call on a channel at a time, since its future borrows the channel. It
  may poll the future until it resolves, or drop it, as a \<open>select!\<close> of the application does with the futures
  that did not win, and then call again. Between the polls the tasks of the reliable channels run. The
  documentation calls every asynchronous method cancel safe: a dropped \<open>send\<close> has not sent its message,
  not even a part of it, and a dropped \<open>recv\<close> loses no message.
\<close>

datatype 'm call = Call_send 'm | Call_flush | Call_recv

text \<open>A poll of the future of a call; \<open>recv\<close> resolves to the message.\<close>

definition call_poll ::
  "('c, 'm, 'e) message_channel \<Rightarrow> 'm call \<Rightarrow> 'c \<Rightarrow> ('c \<times> ('e + 'm option) poll) option" where
  "call_poll T k c = (case k of
       Call_send m \<Rightarrow> map_option (apsnd (map_poll (map_sum id Map.empty))) (mc_poll_send T m c)
     | Call_flush \<Rightarrow> map_option (apsnd (map_poll (map_sum id Map.empty))) (mc_poll_flush T c)
     | Call_recv \<Rightarrow> map_option (apsnd (map_poll (map_sum id Some))) (mc_poll_recv T c))"

text \<open>One end: the channel, the call that has not resolved yet, and the calls that have, with their results.\<close>

record ('c, 'm, 'e) caller =
  cl_conn :: 'c
  cl_future :: "'m call option"
  cl_log :: "('m call \<times> ('e + 'm option)) list"

datatype 'm caller_event = Call "'m call" | Poll_call | Drop_call | Caller_round round_event

fun caller_step ::
  "('c, 'm, 'e) message_channel \<Rightarrow> ('c \<Rightarrow> 'i reliable_channel) \<Rightarrow> ('i reliable_channel \<Rightarrow> 'c \<Rightarrow> 'c) \<Rightarrow>
   'i timer \<Rightarrow> visit_order \<Rightarrow> byte list list \<Rightarrow> ('c, 'm, 'e) caller \<Rightarrow> 'm caller_event \<Rightarrow> ('c, 'm, 'e) caller option" where
  "caller_step T get put tm visit arrived cl (Call k) = Some (cl\<lparr>cl_future := Some k\<rparr>)"
| "caller_step T get put tm visit arrived cl Poll_call =
     (case cl_future cl of
        None \<Rightarrow> Some cl
      | Some k \<Rightarrow> do {
          (c, r) \<leftarrow> call_poll T k (cl_conn cl);
          Some (case r of
              Pending \<Rightarrow> cl\<lparr>cl_conn := c\<rparr>
            | Ready x \<Rightarrow> cl\<lparr>cl_conn := c, cl_future := None, cl_log := cl_log cl @ [(k, x)]\<rparr>)
        })"
| "caller_step T get put tm visit arrived cl Drop_call = Some (cl\<lparr>cl_future := None\<rparr>)"
| "caller_step T get put tm visit arrived cl (Caller_round ev) = do {
     ch \<leftarrow> channel_event tm visit arrived (get (cl_conn cl)) ev;
     Some (cl\<lparr>cl_conn := put ch (cl_conn cl)\<rparr>)
   }"

fun caller_run ::
  "('c, 'm, 'e) message_channel \<Rightarrow> ('c \<Rightarrow> 'i reliable_channel) \<Rightarrow> ('i reliable_channel \<Rightarrow> 'c \<Rightarrow> 'c) \<Rightarrow>
   'i timer \<Rightarrow> 'i timer \<Rightarrow> visit_order \<Rightarrow> ('c, 'm, 'e) caller \<Rightarrow> ('c, 'm, 'e) caller \<Rightarrow>
   (bool \<times> 'm caller_event) list \<Rightarrow> (('c, 'm, 'e) caller \<times> ('c, 'm, 'e) caller) option" where
  "caller_run T get put tmA tmB visit A B [] = Some (A, B)"
| "caller_run T get put tmA tmB visit A B ((True, ev) # es) = do {
     A \<leftarrow> caller_step T get put tmA visit (outgoing (task (get (cl_conn B)))) A ev;
     caller_run T get put tmA tmB visit A B es
   }"
| "caller_run T get put tmA tmB visit A B ((False, ev) # es) = do {
     B \<leftarrow> caller_step T get put tmB visit (outgoing (task (get (cl_conn A)))) B ev;
     caller_run T get put tmA tmB visit A B es
   }"

definition caller_start :: "'c \<Rightarrow> ('c, 'm, 'e) caller" where
  "caller_start c = \<lparr>cl_conn = c, cl_future = None, cl_log = []\<rparr>"

text \<open>The messages whose \<open>send\<close> resolved without an error, and those that \<open>recv\<close> resolved to.\<close>

fun call_sent :: "('m call \<times> ('e + 'm option)) \<Rightarrow> 'm list" where
  "call_sent (Call_send m, Inr _) = [m]"
| "call_sent _ = []"

fun call_got :: "('m call \<times> ('e + 'm option)) \<Rightarrow> 'm list" where
  "call_got (Call_recv, Inr (Some m)) = [m]"
| "call_got _ = []"

definition log_sent :: "('c, 'm, 'e) caller \<Rightarrow> 'm list" where "log_sent cl = concat (map call_sent (cl_log cl))"

definition log_got :: "('c, 'm, 'e) caller \<Rightarrow> 'm list" where "log_got cl = concat (map call_got (cl_log cl))"

text \<open>The messages that the application called \<open>send\<close> with.\<close>

fun called :: "'m caller_event \<Rightarrow> 'm list" where
  "called (Call (Call_send m)) = [m]"
| "called _ = []"

definition all_called :: "bool \<Rightarrow> (bool \<times> 'm caller_event) list \<Rightarrow> 'm list" where
  "all_called side es = concat (map (\<lambda>(s, ev). if s = side then called ev else []) es)"

lemma all_called_simps [simp]: "all_called side [] = []"
  "all_called side (e # es) = (if fst e = side then called (snd e) else []) @ all_called side es"
  by (cases e; simp add: all_called_def)+

lemma in_called [simp]: "m \<in> set (called ev) \<longleftrightarrow> ev = Call (Call_send m)"
  by (cases ev rule: called.cases) auto

subsection \<open>Under the contract of a message channel\<close>

definition log_ok :: "('c, 'm, 'e) caller \<Rightarrow> bool" where
  "log_ok cl \<longleftrightarrow> (\<forall>(k, x)\<in>set (cl_log cl). \<exists>y. x = Inr y)"

text \<open>The end as an end of a run of polls: a dropped call leaves no trace in it.\<close>

definition ep_of :: "('c, 'm, 'e) caller \<Rightarrow> ('c, 'm, 'e) msg_endpoint" where
  "ep_of cl = \<lparr>conn = cl_conn cl, sent_msgs = log_sent cl, got_msgs = map Inr (log_got cl), failures = []\<rparr>"

definition waiting_msgs :: "('c, 'm, 'e) caller \<Rightarrow> 'm list" where
  "waiting_msgs cl = (case cl_future cl of Some (Call_send m) \<Rightarrow> [m] | _ \<Rightarrow> [])"

lemmas caller_defs = log_sent_def log_got_def log_ok_def ep_of_def waiting_msgs_def

lemma msgs_cost_subseq: "subseq xs ys \<Longrightarrow> msgs_cost C xs \<le> msgs_cost C ys"
  by (induction rule: list_emb.induct) simp_all

definition caller_inv ::
  "('i, 'c, 'm, 'u) message_coding \<Rightarrow> 'i timer \<Rightarrow> 'i timer \<Rightarrow> nat \<Rightarrow> nat \<Rightarrow> ('c, 'm, 'e) caller \<Rightarrow> ('c, 'm, 'e) caller \<Rightarrow> bool" where
  "caller_inv C tmA tmB M N A B \<longleftrightarrow> msg_inv C tmA tmB M N (ep_of A) (ep_of B) \<and> log_ok A \<and> log_ok B"

lemma caller_inv_sym: "caller_inv C tmA tmB M N A B \<longleftrightarrow> caller_inv C tmB tmA N M B A"
  unfolding caller_inv_def using msg_inv_sym by blast

context message_stream
begin

lemma caller_poll:
  assumes inv: "caller_inv C tmA tmB M N A B" and good: "\<forall>m\<in>set (waiting_msgs A). cd_good C m"
    and M: "msgs_cost C (log_sent A @ waiting_msgs A) \<le> M"
  shows "\<exists>A'. caller_step T get put tm visit arrived A Poll_call = Some A' \<and> caller_inv C tmA tmB M N A' B \<and>
     subseq (log_sent A' @ waiting_msgs A') (log_sent A @ waiting_msgs A)"
proof (cases "cl_future A")
  case None
  then show ?thesis using inv by simp
next
  case (Some k)
  have msg: "msg_inv C tmA tmB M N (ep_of A) (ep_of B)" and ok: "log_ok A" "log_ok B" using inv by (simp_all add: caller_inv_def)
  show ?thesis
  proof (cases k)
    case (Call_send m)
    then have "cd_good C m" "msgs_cost C (sent_msgs (ep_of A) @ [m]) \<le> M"
      using good M Some by (simp_all add: waiting_msgs_def ep_of_def)
    from msg_send_step [OF msg this] Call_send Some ok show ?thesis
      by (auto simp: caller_inv_def caller_defs call_poll_def)
  next
    case Call_flush
    from msg_flush_step [OF msg] Call_flush Some ok show ?thesis
      by (auto simp: caller_inv_def caller_defs call_poll_def)
  next
    case Call_recv
    from msg_recv_step [OF msg] obtain c r where r: "mc_poll_recv T (cl_conn A) = Some (c, r)"
      "msg_inv C tmA tmB M N ((ep_of A)\<lparr>conn := c, got_msgs := got_msgs (ep_of A) @ (case r of Ready x \<Rightarrow> [x] | Pending \<Rightarrow> [])\<rparr>) (ep_of B)"
      by (auto simp: ep_of_def)
    have "prefix (map Inr (log_got A) @ (case r of Ready x \<Rightarrow> [x] | Pending \<Rightarrow> [])) (map Inr (log_sent B))"
      using msg_inv_prefix(4) [OF r(2)] by (simp add: ep_of_def)
    then have "set (case r of Ready x \<Rightarrow> [x] | Pending \<Rightarrow> []) \<subseteq> Inr ` set (log_sent B)" using set_mono_prefix by fastforce
    then consider "r = Pending" | m where "r = Ready (Inr m)" by (cases r) auto
    then show ?thesis using r Call_recv Some ok by cases (auto simp: caller_inv_def caller_defs call_poll_def)
  qed
qed

lemma caller_step_inv:
  assumes inv: "caller_inv C tmA tmB M N A B" and mono: "monotonic_timer tmA" and vis: "visits_entries visit"
    and good: "\<forall>m\<in>set (waiting_msgs A). cd_good C m" and M: "msgs_cost C (log_sent A @ waiting_msgs A) \<le> M"
  shows "\<exists>A'. caller_step T (cd_get C) (cd_put C) tmA visit (outgoing (task (cd_get C (cl_conn B)))) A ev = Some A' \<and>
     caller_inv C tmA tmB M N A' B \<and>
     subseq (log_sent A' @ waiting_msgs A') (log_sent A @ waiting_msgs A @ called ev)"
proof (cases ev)
  case (Call k)
  have "subseq (log_sent A @ ys) (log_sent A @ xs @ ys)" for xs ys :: "'m list"
    by (auto simp: subseq_append' intro: list_emb_append2)
  then show ?thesis using Call inv by (cases k) (auto simp: caller_inv_def caller_defs)
next
  case Poll_call
  then show ?thesis using caller_poll [OF inv good M] by simp
next
  case Drop_call
  then show ?thesis using inv by (auto simp: caller_inv_def caller_defs)
next
  case (Caller_round r)
  from inv have msg: "msg_inv C tmA tmB M N (ep_of A) (ep_of B)" by (simp add: caller_inv_def)
  from msg_round_step [OF msg mono vis, of r] obtain ch where
    "channel_event tmA visit (outgoing (task (cd_get C (cl_conn B)))) (cd_get C (cl_conn A)) r = Some ch"
    "msg_inv C tmA tmB M N ((ep_of A)\<lparr>conn := cd_put C ch (cl_conn A)\<rparr>) (ep_of B)" by (auto simp: ep_of_def)
  then show ?thesis using Caller_round inv by (auto simp: caller_inv_def caller_defs)
qed

text \<open>The messages an end may still send, with those it has sent.\<close>

lemma caller_step_all:
  assumes inv: "caller_inv C tmA tmB M N A B" and mono: "monotonic_timer tmA" and vis: "visits_entries visit"
    and good: "\<forall>m\<in>set (log_sent A @ waiting_msgs A @ called ev @ rest). cd_good C m"
    and M: "msgs_cost C (log_sent A @ waiting_msgs A @ called ev @ rest) \<le> M"
  shows "\<exists>A'. caller_step T (cd_get C) (cd_put C) tmA visit (outgoing (task (cd_get C (cl_conn B)))) A ev = Some A' \<and>
     caller_inv C tmA tmB M N A' B \<and>
     subseq (log_sent A' @ waiting_msgs A' @ rest) (log_sent A @ waiting_msgs A @ called ev @ rest) \<and>
     (\<forall>m\<in>set (log_sent A' @ waiting_msgs A' @ rest). cd_good C m) \<and> msgs_cost C (log_sent A' @ waiting_msgs A' @ rest) \<le> M"
proof -
  have "\<forall>m\<in>set (waiting_msgs A). cd_good C m" "msgs_cost C (log_sent A @ waiting_msgs A) \<le> M" using good M by simp_all
  from caller_step_inv [OF inv mono vis this, of ev] obtain A' where
    a: "caller_step T (cd_get C) (cd_put C) tmA visit (outgoing (task (cd_get C (cl_conn B)))) A ev = Some A'"
    "caller_inv C tmA tmB M N A' B" "subseq (log_sent A' @ waiting_msgs A') (log_sent A @ waiting_msgs A @ called ev)" by blast
  from list_emb_append_mono [OF a(3) subseq_order.order_refl, of rest]
  have s: "subseq (log_sent A' @ waiting_msgs A' @ rest) (log_sent A @ waiting_msgs A @ called ev @ rest)" by simp
  have "\<forall>m\<in>set (log_sent A' @ waiting_msgs A' @ rest). cd_good C m" using good list_emb_set [OF s] by blast
  moreover have "msgs_cost C (log_sent A' @ waiting_msgs A' @ rest) \<le> M" using msgs_cost_subseq [OF s] M by (rule order_trans)
  ultimately show ?thesis using a(1,2) s by blast
qed

lemma caller_run_inv:
  assumes "caller_inv C tmA tmB M N A B" and "monotonic_timer tmA" and "monotonic_timer tmB" and "visits_entries visit"
    and "\<forall>m\<in>set (log_sent A @ waiting_msgs A @ all_called True es). cd_good C m"
    and "\<forall>m\<in>set (log_sent B @ waiting_msgs B @ all_called False es). cd_good C m"
    and "msgs_cost C (log_sent A @ waiting_msgs A @ all_called True es) \<le> M"
    and "msgs_cost C (log_sent B @ waiting_msgs B @ all_called False es) \<le> N"
  shows "\<exists>A' B'. caller_run T (cd_get C) (cd_put C) tmA tmB visit A B es = Some (A', B') \<and> caller_inv C tmA tmB M N A' B' \<and>
     subseq (log_sent A') (log_sent A @ waiting_msgs A @ all_called True es) \<and>
     subseq (log_sent B') (log_sent B @ waiting_msgs B @ all_called False es)"
  using assms
proof (induction es arbitrary: A B)
  case Nil
  have "subseq xs (xs @ ys)" for xs ys :: "'m list" using list_emb_append_mono [of "(=)" xs xs "[]" ys] by simp
  with Nil show ?case by simp
next
  case (Cons e es)
  obtain side ev where e: "e = (side, ev)" by (cases e)
  show ?case
  proof (cases side)
    case True
    from Cons.prems(5-8) True e have p: "\<forall>m\<in>set (log_sent A @ waiting_msgs A @ called ev @ all_called True es). cd_good C m"
      "msgs_cost C (log_sent A @ waiting_msgs A @ called ev @ all_called True es) \<le> M"
      "\<forall>m\<in>set (log_sent B @ waiting_msgs B @ all_called False es). cd_good C m"
      "msgs_cost C (log_sent B @ waiting_msgs B @ all_called False es) \<le> N" by auto
    from caller_step_all [OF Cons.prems(1,2,4) p(1,2)] obtain A' where
      a: "caller_step T (cd_get C) (cd_put C) tmA visit (outgoing (task (cd_get C (cl_conn B)))) A ev = Some A'"
      "caller_inv C tmA tmB M N A' B"
      "subseq (log_sent A' @ waiting_msgs A' @ all_called True es) (log_sent A @ waiting_msgs A @ called ev @ all_called True es)"
      "\<forall>m\<in>set (log_sent A' @ waiting_msgs A' @ all_called True es). cd_good C m"
      "msgs_cost C (log_sent A' @ waiting_msgs A' @ all_called True es) \<le> M" by blast
    from Cons.IH [OF a(2) Cons.prems(2-4) a(4) p(3) a(5) p(4)] a(1,3) e True show ?thesis
      by (auto intro: subseq_order.order_trans)
  next
    case False
    from Cons.prems(5-8) False e have p: "\<forall>m\<in>set (log_sent B @ waiting_msgs B @ called ev @ all_called False es). cd_good C m"
      "msgs_cost C (log_sent B @ waiting_msgs B @ called ev @ all_called False es) \<le> N"
      "\<forall>m\<in>set (log_sent A @ waiting_msgs A @ all_called True es). cd_good C m"
      "msgs_cost C (log_sent A @ waiting_msgs A @ all_called True es) \<le> M" by auto
    from caller_step_all [OF Cons.prems(1) [unfolded caller_inv_sym [of C tmA]] Cons.prems(3,4) p(1,2)] obtain B' where
      b: "caller_step T (cd_get C) (cd_put C) tmB visit (outgoing (task (cd_get C (cl_conn A)))) B ev = Some B'"
      "caller_inv C tmA tmB M N A B'"
      "subseq (log_sent B' @ waiting_msgs B' @ all_called False es) (log_sent B @ waiting_msgs B @ called ev @ all_called False es)"
      "\<forall>m\<in>set (log_sent B' @ waiting_msgs B' @ all_called False es). cd_good C m"
      "msgs_cost C (log_sent B' @ waiting_msgs B' @ all_called False es) \<le> N"
      unfolding caller_inv_sym [of C tmB] by blast
    from Cons.IH [OF b(2) Cons.prems(2-4) p(3) b(4) p(4) b(5)] b(1,3) e False show ?thesis
      by (auto intro: subseq_order.order_trans)
  qed
qed

lemma calls_end_to_end:
  assumes A: "ReliableChannel_new tmA capA stA = Some a" "settings_ok capA stA"
    and B: "ReliableChannel_new tmB capB stB = Some b" "settings_ok capB stB"
    and "monotonic_timer tmA" "monotonic_timer tmB" "visits_entries visit"
    and good: "\<forall>m\<in>set (all_called True es) \<union> set (all_called False es). cd_good C m"
    and "int (msgs_cost C (all_called True es)) + int (recv_window_size stB) < half_span"
    and "int (msgs_cost C (all_called False es)) + int (recv_window_size stA) < half_span"
  shows "\<exists>A' B' c r. caller_run T (cd_get C) (cd_put C) tmA tmB visit (caller_start (cd_new C a)) (caller_start (cd_new C b)) es =
       Some (A', B') \<and> log_ok A' \<and> log_ok B' \<and>
     subseq (log_sent A') (all_called True es) \<and> subseq (log_sent B') (all_called False es) \<and>
     prefix (log_got B') (log_sent A') \<and> prefix (log_got A') (log_sent B') \<and>
     mc_poll_recv T (cl_conn B') = Some (c, r) \<and>
     (r = Pending \<and> cd_idle C (cl_conn A') \<and> rb_count (sw_ring (send_window (task (cd_get C (cl_conn A'))))) = 0 \<longrightarrow>
        log_got B' = log_sent A')"
proof -
  let ?M = "msgs_cost C (all_called True es)" and ?N = "msgs_cost C (all_called False es)"
  let ?A = "caller_start (cd_new C a) :: ('c, 'm, 'e) caller" and ?B = "caller_start (cd_new C b) :: ('c, 'm, 'e) caller"
  have "ep_of ?A = msg_start (cd_new C a)" "ep_of ?B = msg_start (cd_new C b)"
    by (simp_all add: ep_of_def caller_start_def msg_start_def log_sent_def log_got_def)
  then have inv: "caller_inv C tmA tmB ?M ?N ?A ?B"
    using msg_inv_new [OF A B assms(9,10)] by (simp add: caller_inv_def log_ok_def caller_start_def)
  have new: "log_sent ?A = []" "waiting_msgs ?A = []" "log_sent ?B = []" "waiting_msgs ?B = []"
    by (simp_all add: caller_defs caller_start_def)
  have g: "\<forall>m\<in>set (log_sent ?A @ waiting_msgs ?A @ all_called True es). cd_good C m"
    "\<forall>m\<in>set (log_sent ?B @ waiting_msgs ?B @ all_called False es). cd_good C m"
    "msgs_cost C (log_sent ?A @ waiting_msgs ?A @ all_called True es) \<le> ?M"
    "msgs_cost C (log_sent ?B @ waiting_msgs ?B @ all_called False es) \<le> ?N" using good new by simp_all
  from caller_run_inv [OF inv assms(5-7) g] new obtain A' B' where
    r: "caller_run T (cd_get C) (cd_put C) tmA tmB visit ?A ?B es = Some (A', B')" "caller_inv C tmA tmB ?M ?N A' B'"
    "subseq (log_sent A') (all_called True es)" "subseq (log_sent B') (all_called False es)" by auto
  from r(2) have m: "msg_inv C tmA tmB ?M ?N (ep_of A') (ep_of B')" and ok: "log_ok A'" "log_ok B'" by (simp_all add: caller_inv_def)
  have pre: "prefix (log_got B') (log_sent A')" "prefix (log_got A') (log_sent B')"
    using msg_inv_prefix(3,4) [OF m] by (auto simp: ep_of_def prefix_def map_eq_append_conv inj_map_eq_map [OF inj_Inr])
  from msg_recv_step [OF m [unfolded msg_inv_sym [of C tmA]]] obtain c q where
    "mc_poll_recv T (cl_conn B') = Some (c, q)"
    "q = Pending \<longrightarrow> cd_idle C (cl_conn A') \<and> rb_count (sw_ring (send_window (task (cd_get C (cl_conn A'))))) = 0 \<longrightarrow>
       log_got B' = log_sent A'" by (auto simp: ep_of_def inj_map_eq_map [OF inj_Inr])
  with r(1,3,4) ok pre show ?thesis by (intro exI [of _ c] exI [of _ q] exI [of _ A'] exI [of _ B']) simp
qed

end

interpretation typed_rbc: message_stream "rtc_calls byte_bincode" "typed_coding (rbc_coding byte_bincode)"
  unfolding typed_calls by (rule byte_rbc.wrapped)

interpretation typed_cbc: message_stream "ctc_calls byte_bincode zero_snap" "typed_coding (cbc_coding byte_bincode zero_packed)"
  unfolding typed_calls by (rule byte_cbc.wrapped)

subsection \<open>Property\<close>

text \<open>
  C7: asynchronous calls are cancel safe. Two applications call \<open>send\<close>, \<open>flush\<close> and \<open>recv\<close> on typed
  reliable channels over a lossy network, poll the futures as they like and drop them at any time, while
  the tasks take their rounds. Nothing panics and every call that resolves, resolves without an error. A
  call sends its message at most once, and only when it resolves: each application receives a prefix of
  the messages whose \<open>send\<close> resolved, in their order, so a dropped \<open>send\<close> sends nothing, not even a part of
  a frame, and a dropped \<open>recv\<close> loses nothing. When the sender's buffers are empty and a \<open>recv\<close> would have
  to wait, every message whose \<open>send\<close> resolved has been received.
\<close>

theorem async_calls_cancel_safe:
  fixes B :: "('m, 'e) bincode" and a b :: "'i reliable_channel"
  assumes laws: "bincode_laws B"
    and A: "ReliableChannel_new tmA capA stA = Some a" "settings_ok capA stA"
    and B: "ReliableChannel_new tmB capB stB = Some b" "settings_ok capB stB"
    and "monotonic_timer tmA" "monotonic_timer tmB" "visits_entries visit"
    and good: "\<forall>side m. (side, Call (Call_send m)) \<in> set es \<longrightarrow> rbc_serializes B m"
    and "int (length (rbc_stream B (all_called True es))) + int (recv_window_size stB) < half_span"
    and "int (length (rbc_stream B (all_called False es))) + int (recv_window_size stA) < half_span"
  shows "\<exists>A' B' c r. caller_run (rtc_calls B) rtc_into_inner
       (\<lambda>ch t. t\<lparr>typed_inner := (typed_inner t)\<lparr>rbc_channel := ch\<rparr>\<rparr>) tmA tmB visit
       (caller_start (ReliableTypedChannel_new a)) (caller_start (ReliableTypedChannel_new b)) es = Some (A', B') \<and>
     (\<forall>(k, x)\<in>set (cl_log A') \<union> set (cl_log B'). \<exists>y. x = Inr y) \<and>
     subseq (log_sent A') (all_called True es) \<and> subseq (log_sent B') (all_called False es) \<and>
     prefix (log_got B') (log_sent A') \<and> prefix (log_got A') (log_sent B') \<and>
     rtc_recv B (cl_conn B') = Some (c, r) \<and>
     (r = Pending \<and> rbc_write_buffer (typed_inner (cl_conn A')) = [] \<and>
        rb_count (sw_ring (send_window (task (rtc_into_inner (cl_conn A'))))) = 0 \<longrightarrow> log_got B' = log_sent A')"
proof -
  let ?C = "typed_coding (rbc_coding B) :: ('i, 'i rtc, 'm, 'm) message_coding"
  have "m \<in> set (all_called side es) \<Longrightarrow> (side, Call (Call_send m)) \<in> set es" for side m
    by (auto simp: all_called_def split: if_splits)
  then have good': "\<forall>m\<in>set (all_called True es) \<union> set (all_called False es). cd_good ?C m" using good by auto
  have cost: "int (msgs_cost ?C (all_called True es)) + int (recv_window_size stB) < half_span"
    "int (msgs_cost ?C (all_called False es)) + int (recv_window_size stA) < half_span" using assms(10,11) by simp_all
  have sel: "cd_get ?C = rtc_into_inner" "cd_put ?C = (\<lambda>ch t. t\<lparr>typed_inner := (typed_inner t)\<lparr>rbc_channel := ch\<rparr>\<rparr>)"
    by (intro ext; simp add: rtc_into_inner_def rbc_into_inner_def)+
  have new: "cd_new ?C = ReliableTypedChannel_new" by (intro ext) (simp add: ReliableTypedChannel_new_def)
  have recv: "mc_poll_recv (rtc_calls B) = rtc_recv B" by (simp add: rtc_calls_def)
  from message_stream.calls_end_to_end [OF message_stream.wrapped [OF bincode_laws.rbc_message_stream [OF laws]]
      A B assms(6-8) good' cost, folded typed_calls, unfolded sel new recv]
  show ?thesis by (simp add: log_ok_def ball_Un)
qed

theorem async_calls_cancel_safe_witness:
  "\<exists>a A' B'. ReliableChannel_new nano_timer 100 small_settings = Some a \<and>
     caller_run (rtc_calls byte_bincode) rtc_into_inner
       (\<lambda>ch t. t\<lparr>typed_inner := (typed_inner t)\<lparr>rbc_channel := ch\<rparr>\<rparr>) nano_timer nano_timer (\<lambda>_ ks. ks)
       (caller_start (ReliableTypedChannel_new a)) (caller_start (ReliableTypedChannel_new a))
       [(True, Call (Call_send 7)), (True, Poll_call), (False, Call Call_recv), (True, Call (Call_send 9)), (True, Drop_call),
        (False, Drop_call)] = Some (A', B') \<and>
     log_sent A' = [7] \<and> prefix (log_got B') [7]"
proof -
  let ?es = "[(True, Call (Call_send 7)), (True, Poll_call), (False, Call Call_recv), (True, Call (Call_send 9)), (True, Drop_call),
    (False, Drop_call)] :: (bool \<times> byte caller_event) list"
  let ?put = "\<lambda>ch t. t\<lparr>typed_inner := (typed_inner t)\<lparr>rbc_channel := ch\<rparr>\<rparr> :: nat rtc"
  obtain a where a: "ReliableChannel_new nano_timer 100 small_settings = Some a" using small_channel by blast
  have vis: "visits_entries (\<lambda>_ ks. ks)" by (simp add: visits_entries_def)
  have ok: "\<forall>side m. (side, Call (Call_send m)) \<in> set ?es \<longrightarrow> rbc_serializes byte_bincode m"
    by (auto simp: rbc_serializes_def byte_bincode_def RB_MAX_MESSAGE_LEN_def u16_max_def)
  have cost: "int (length (rbc_stream byte_bincode (all_called True ?es))) + int (recv_window_size small_settings) < half_span"
    "int (length (rbc_stream byte_bincode (all_called False ?es))) + int (recv_window_size small_settings) < half_span"
    by (simp_all add: rbc_encode_def byte_bincode_def RB_MAX_MESSAGE_LEN_def u16_max_def small_settings_def)
  have sent: "log_sent A' = [7]" if "caller_run (rtc_calls byte_bincode) rtc_into_inner ?put nano_timer nano_timer (\<lambda>_ ks. ks)
       (caller_start (ReliableTypedChannel_new a)) (caller_start (ReliableTypedChannel_new a)) ?es = Some (A', B')" for A' B'
    using that by (simp add: caller_start_def call_poll_def rtc_calls_def rtc_send_def on_inner_def ReliableTypedChannel_new_def
        ReliableBincodeChannel_new_def rbc_poll_send_def rbc_poll_send_ready_def rbc_start_send_def send_ready_loop.simps
        byte_bincode_def vec_resize_def copy_at_def write_u16_def le_encode_def usize_sub_def Let_def log_sent_def
        RB_MAX_MESSAGE_LEN_def u16_max_def
        split: bind_splits option.splits) auto
  from async_calls_cancel_safe [OF byte_bincode.bincode_laws_axioms a small_settings_ok a small_settings_ok
      nano_timer_monotonic nano_timer_monotonic vis ok cost]
  obtain A' B' where r: "caller_run (rtc_calls byte_bincode) rtc_into_inner ?put nano_timer nano_timer (\<lambda>_ ks. ks)
       (caller_start (ReliableTypedChannel_new a)) (caller_start (ReliableTypedChannel_new a)) ?es = Some (A', B')"
    "prefix (log_got B') (log_sent A')" by blast
  with a sent [OF r(1)] show ?thesis by (intro exI conjI) auto
qed

end
