(* ===== verification/Channel_Task.thy ===== *)
theory Channel_Task
  imports Message_Stream Event_Watch
begin

text \<open>
  The task that serves one message type (\<open>channel_task\<close> of \<open>message_channels.rs\<close>).

  The application and the task share a \<open>ChannelSet\<close>: a queue of outgoing messages, a queue of incoming
  ones and the flush signal. The task moves messages between the queues and the message channel, which
  is any implementation of the trait \<open>MessageBincodeChannel\<close>.

  The future of the task is a state machine over its suspension points, \<open>task_pc\<close>. A step polls the one
  thing the task awaits there; at the \<open>select!\<close> the branch that is polled is an argument, since the macro
  polls its branches in a random order until one is ready. \<open>SinkExt::send\<close> waits until the sink is ready,
  starts the send and flushes the sink.
\<close>

record ('q, 'w, 'm, 's) channel_set =
  cs_outgoing :: "('q, 'w, 'm) spsc"
  cs_incoming :: "('q, 'w, 'm) spsc"
  cs_flush :: "'w watch_state"
  cs_statistics :: 's

datatype 'e task_error = Channel_error 'e | Channel_disconnected | Incoming_dropped

datatype ('m, 'e) task_pc =
    Selecting
  | Delivering "'m option"
  | Sending 'm
  | Draining
  | Flush_sending 'm
  | Flushing
  | Ended "'e task_error"

datatype select_branch = Incoming_branch | Outgoing_branch | Flush_branch

record ('c, 'm, 'e) channel_task =
  ct_channel :: 'c
  ct_pc :: "('m, 'e) task_pc"

type_synonym ('q, 'w, 'm, 's, 'c, 'e) served = "('q, 'w, 'm, 's) channel_set \<times> ('c, 'm, 'e) channel_task"

text \<open>The three branches of the \<open>select!\<close>.\<close>

fun channel_task_select ::
  "('c, 'm, 'e) message_channel \<Rightarrow> ('q, 'w, 'm, 'k) spsc_lib \<Rightarrow> 'k \<Rightarrow> select_branch \<Rightarrow> ('q, 'w, 'm, 's, 'c, 'e) served \<Rightarrow>
   ('q, 'w, 'm, 's, 'c, 'e) served option" where
  "channel_task_select T L cx Incoming_branch (cs, ct) = do {
     (c, r) \<leftarrow> mc_poll_recv T (ct_channel ct);
     let ct = ct\<lparr>ct_channel := c\<rparr>;
     Some (cs, case r of
         Pending \<Rightarrow> ct
       | Ready (Inl e) \<Rightarrow> ct\<lparr>ct_pc := Ended (Channel_error e)\<rparr>
       | Ready (Inr m) \<Rightarrow> ct\<lparr>ct_pc := Delivering (Some m)\<rparr>)
   }"
| "channel_task_select T L cx Outgoing_branch (cs, ct) =
     (case Receiver_poll_next L id id cx (cs_outgoing cs) of
        (s, r) \<Rightarrow> Some (cs\<lparr>cs_outgoing := s\<rparr>, case r of
            Pending \<Rightarrow> ct
          | Ready None \<Rightarrow> ct\<lparr>ct_pc := Ended Channel_disconnected\<rparr>
          | Ready (Some m) \<Rightarrow> ct\<lparr>ct_pc := Sending m\<rparr>))"
| "channel_task_select T L cx Flush_branch (cs, ct) =
     (case Receiver_wait L id id cx (cs_flush cs) of
        (s, r) \<Rightarrow> Some (cs\<lparr>cs_flush := s\<rparr>, case r of Pending \<Rightarrow> ct | Ready _ \<Rightarrow> ct\<lparr>ct_pc := Draining\<rparr>))"

text \<open>A poll of \<open>channel.poll_send\<close> or \<open>channel.poll_flush\<close>, and where the task goes when it is done.\<close>

definition task_await ::
  "('c \<times> ('e + unit) poll) option \<Rightarrow> ('m, 'e) task_pc \<Rightarrow> ('q, 'w, 'm, 's, 'c, 'e) served \<Rightarrow>
   ('q, 'w, 'm, 's, 'c, 'e) served option" where
  "task_await poll next_pc s = (case s of (cs, ct) \<Rightarrow> do {
     (c, r) \<leftarrow> poll;
     let ct = ct\<lparr>ct_channel := c\<rparr>;
     Some (cs, case r of
         Pending \<Rightarrow> ct
       | Ready (Inl e) \<Rightarrow> ct\<lparr>ct_pc := Ended (Channel_error e)\<rparr>
       | Ready (Inr _) \<Rightarrow> ct\<lparr>ct_pc := next_pc\<rparr>)
   })"

definition channel_task_step ::
  "('c, 'm, 'e) message_channel \<Rightarrow> ('q, 'w, 'm, 'k) spsc_lib \<Rightarrow> 'k \<Rightarrow> select_branch \<Rightarrow> ('q, 'w, 'm, 's, 'c, 'e) served \<Rightarrow>
   ('q, 'w, 'm, 's, 'c, 'e) served option" where
  "channel_task_step T L cx branch s = (case s of (cs, ct) \<Rightarrow>
     (case ct_pc ct of
        Selecting \<Rightarrow> channel_task_select T L cx branch (cs, ct)
      | Delivering (Some m) \<Rightarrow>
          (case Sender_poll_ready L id id cx (cs_incoming cs) of
             (s, Pending) \<Rightarrow> Some (cs\<lparr>cs_incoming := s\<rparr>, ct)
           | (s, Ready (Inl _)) \<Rightarrow> Some (cs\<lparr>cs_incoming := s\<rparr>, ct\<lparr>ct_pc := Ended Incoming_dropped\<rparr>)
           | (s, Ready (Inr _)) \<Rightarrow> do {
               s \<leftarrow> Sender_start_send s m;
               Some (cs\<lparr>cs_incoming := s\<rparr>, ct\<lparr>ct_pc := Delivering None\<rparr>)
             })
      | Delivering None \<Rightarrow>
          (case Sender_poll_flush L id id cx (cs_incoming cs) of
             (s, r) \<Rightarrow> Some (cs\<lparr>cs_incoming := s\<rparr>, case r of
                 Pending \<Rightarrow> ct
               | Ready (Inl _) \<Rightarrow> ct\<lparr>ct_pc := Ended Incoming_dropped\<rparr>
               | Ready (Inr _) \<Rightarrow> ct\<lparr>ct_pc := Selecting\<rparr>))
      | Sending m \<Rightarrow> task_await (mc_poll_send T m (ct_channel ct)) Selecting (cs, ct)
      | Draining \<Rightarrow>
          (case Receiver_try_recv L (cs_outgoing cs) of
             (s, r) \<Rightarrow> Some (cs\<lparr>cs_outgoing := s\<rparr>, case r of
                 Inr m \<Rightarrow> ct\<lparr>ct_pc := Flush_sending m\<rparr>
               | Inl Disconnected_recv \<Rightarrow> ct\<lparr>ct_pc := Ended Channel_disconnected\<rparr>
               | Inl Empty \<Rightarrow> ct\<lparr>ct_pc := Flushing\<rparr>))
      | Flush_sending m \<Rightarrow> task_await (mc_poll_send T m (ct_channel ct)) Draining (cs, ct)
      | Flushing \<Rightarrow> task_await (mc_poll_flush T (ct_channel ct)) Selecting (cs, ct)
      | Ended e \<Rightarrow> Some (cs, ct)))"

definition channel_task_new :: "'c \<Rightarrow> ('c, 'm, 'e) channel_task" where
  "channel_task_new c = \<lparr>ct_channel = c, ct_pc = Selecting\<rparr>"

text \<open>The queues and the signal of a new message type, as \<open>register_message_type\<close> creates them.\<close>

definition channel_set_new :: "('q, 'w, 'm, 'k) spsc_lib \<Rightarrow> nat \<Rightarrow> 's \<Rightarrow> ('q, 'w, 'm, 's) channel_set" where
  "channel_set_new L message_buffer_size statistics =
     \<lparr>cs_outgoing = spsc_channel L message_buffer_size, cs_incoming = spsc_channel L message_buffer_size,
      cs_flush = event_channel L, cs_statistics = statistics\<rparr>"

subsection \<open>Runs\<close>

text \<open>
  The application sends, receives and asks for a flush, and the task is polled. A run keeps the messages
  the application handed over and got, those the task handed to the message channel and got from it, and
  for the flushes the number of messages handed over at the last request and the number that the
  message channel had been given at its last completed flush.
\<close>

datatype ('m, 'k) serve_event = Ask_send 'm | Ask_recv | Ask_flush | Task_poll 'k select_branch

record ('q, 'w, 'm, 's, 'c, 'e) serve_state =
  sr_set :: "('q, 'w, 'm, 's) channel_set"
  sr_task :: "('c, 'm, 'e) channel_task"
  sr_asked :: "'m list"
  sr_received :: "'m list"
  sr_sent :: "'m list"
  sr_got :: "'m list"
  sr_flush_asked :: nat
  sr_flushed :: nat

definition serve_start :: "('q, 'w, 'm, 's) channel_set \<Rightarrow> 'c \<Rightarrow> ('q, 'w, 'm, 's, 'c, 'e) serve_state" where
  "serve_start cs c = \<lparr>sr_set = cs, sr_task = channel_task_new c, sr_asked = [], sr_received = [], sr_sent = [], sr_got = [],
     sr_flush_asked = 0, sr_flushed = 0\<rparr>"

text \<open>What a step of the task handed to the message channel, got from it, and whether it completed a flush.\<close>

fun pc_sent :: "('m, 'e) task_pc \<Rightarrow> ('m, 'e) task_pc \<Rightarrow> 'm list" where
  "pc_sent (Sending m) Selecting = [m]"
| "pc_sent (Flush_sending m) Draining = [m]"
| "pc_sent _ _ = []"

fun pc_got :: "('m, 'e) task_pc \<Rightarrow> ('m, 'e) task_pc \<Rightarrow> 'm list" where
  "pc_got Selecting (Delivering (Some m)) = [m]"
| "pc_got _ _ = []"

fun pc_flushed :: "('m, 'e) task_pc \<Rightarrow> ('m, 'e) task_pc \<Rightarrow> bool" where
  "pc_flushed Flushing Selecting = True"
| "pc_flushed _ _ = False"

fun serve_step ::
  "('c, 'm, 'e) message_channel \<Rightarrow> ('q, 'w, 'm, 'k) spsc_lib \<Rightarrow> ('q, 'w, 'm, 's, 'c, 'e) serve_state \<Rightarrow> ('m, 'k) serve_event \<Rightarrow>
   ('q, 'w, 'm, 's, 'c, 'e) serve_state option" where
  "serve_step T L sr (Ask_send m) =
     (case Sender_try_send L (cs_outgoing (sr_set sr)) m of
        (s, r) \<Rightarrow> Some (sr\<lparr>sr_set := (sr_set sr)\<lparr>cs_outgoing := s\<rparr>, sr_asked := sr_asked sr @ (case r of Inr _ \<Rightarrow> [m] | Inl _ \<Rightarrow> [])\<rparr>))"
| "serve_step T L sr Ask_recv =
     (case Receiver_try_recv L (cs_incoming (sr_set sr)) of
        (s, r) \<Rightarrow> Some (sr\<lparr>sr_set := (sr_set sr)\<lparr>cs_incoming := s\<rparr>, sr_received := sr_received sr @ (case r of Inr m \<Rightarrow> [m] | Inl _ \<Rightarrow> [])\<rparr>))"
| "serve_step T L sr Ask_flush =
     Some (sr\<lparr>sr_set := (sr_set sr)\<lparr>cs_flush := Sender_signal L (cs_flush (sr_set sr))\<rparr>, sr_flush_asked := length (sr_asked sr)\<rparr>)"
| "serve_step T L sr (Task_poll cx branch) = do {
     (cs, ct) \<leftarrow> channel_task_step T L cx branch (sr_set sr, sr_task sr);
     let pc = ct_pc (sr_task sr);
     let pc' = ct_pc ct;
     let handed = sr_sent sr @ pc_sent pc pc';
     Some (sr\<lparr>sr_set := cs, sr_task := ct, sr_sent := handed, sr_got := sr_got sr @ pc_got pc pc',
       sr_flushed := (if pc_flushed pc pc' then length handed else sr_flushed sr)\<rparr>)
   }"

fun serve_run ::
  "('c, 'm, 'e) message_channel \<Rightarrow> ('q, 'w, 'm, 'k) spsc_lib \<Rightarrow> ('q, 'w, 'm, 's, 'c, 'e) serve_state \<Rightarrow> ('m, 'k) serve_event list \<Rightarrow>
   ('q, 'w, 'm, 's, 'c, 'e) serve_state option" where
  "serve_run T L sr [] = Some sr"
| "serve_run T L sr (e # es) = do { sr \<leftarrow> serve_step T L sr e; serve_run T L sr es }"

subsection \<open>The task is a pipe\<close>

text \<open>
  The messages the application handed over are those the task has handed on, the one it holds, and those
  in the queue. After the task has failed, the one it held may be gone.
\<close>

fun in_hand :: "('m, 'e) task_pc \<Rightarrow> 'm list \<Rightarrow> bool" where
  "in_hand (Sending m) ms \<longleftrightarrow> ms = [m]"
| "in_hand (Flush_sending m) ms \<longleftrightarrow> ms = [m]"
| "in_hand (Ended e) ms \<longleftrightarrow> length ms \<le> 1"
| "in_hand _ ms \<longleftrightarrow> ms = []"

fun delivering :: "('m, 'e) task_pc \<Rightarrow> 'm list" where
  "delivering (Delivering (Some m)) = [m]"
| "delivering _ = []"

text \<open>
  A request for a flush is pending until the message channel has been flushed after it was given all
  messages of the time of the request.
\<close>

fun flush_owed :: "('m, 'e) task_pc \<Rightarrow> nat \<Rightarrow> nat \<Rightarrow> bool" where
  "flush_owed Draining asked handed \<longleftrightarrow> True"
| "flush_owed (Flush_sending m) asked handed \<longleftrightarrow> True"
| "flush_owed Flushing asked handed \<longleftrightarrow> asked \<le> handed"
| "flush_owed (Ended e) asked handed \<longleftrightarrow> True"
| "flush_owed _ asked handed \<longleftrightarrow> False"

definition serve_inv ::
  "('q \<Rightarrow> 'm list) \<Rightarrow> ('q \<Rightarrow> bool) \<Rightarrow> ('q \<Rightarrow> bool) \<Rightarrow> ('q, 'w, 'm, 's, 'c, 'e) serve_state \<Rightarrow> bool" where
  "serve_inv items tx_gone rx_gone sr \<longleftrightarrow> (let cs = sr_set sr; pc = ct_pc (sr_task sr) in
     \<not> tx_gone (sp_channel (cs_outgoing cs)) \<and> \<not> rx_gone (sp_channel (cs_outgoing cs)) \<and>
     \<not> rx_gone (sp_channel (cs_incoming cs)) \<and> sp_slot (cs_outgoing cs) = None \<and>
     (\<exists>hand. sr_asked sr = sr_sent sr @ hand @ items (sp_channel (cs_outgoing cs)) \<and> in_hand pc hand) \<and>
     sr_got sr = sr_received sr @ spsc_contents items (cs_incoming cs) @ delivering pc \<and>
     sr_flush_asked sr \<le> length (sr_asked sr) \<and> sr_flushed sr \<le> length (sr_sent sr) \<and>
     (sr_flush_asked sr \<le> sr_flushed sr \<or> ev_signaled (cs_flush cs) \<or> flush_owed pc (sr_flush_asked sr) (length (sr_sent sr))) \<and>
     (\<forall>e. pc = Ended e \<longrightarrow> (\<exists>x. e = Channel_error x)))"

text \<open>The outcomes of a poll of the message channel, for case analysis.\<close>

lemma task_await_cases:
  assumes "task_await p pc (cs, ct) = Some (cs', ct')"
  obtains (waits) c where "p = Some (c, Pending)" "cs' = cs" "ct' = ct\<lparr>ct_channel := c\<rparr>"
  | (fails) c e where "p = Some (c, Ready (Inl e))" "cs' = cs" "ct' = ct\<lparr>ct_channel := c, ct_pc := Ended (Channel_error e)\<rparr>"
  | (completes) c where "p = Some (c, Ready (Inr ()))" "cs' = cs" "ct' = ct\<lparr>ct_channel := c, ct_pc := pc\<rparr>"
proof -
  obtain c r where p: "p = Some (c, r)" using assms by (auto simp: task_await_def option_bind_eq_Some)
  consider "r = Pending" | e where "r = Ready (Inl e)" | "r = Ready (Inr ())"
    by (cases r) (metis (full_types) old.unit.exhaust sumE)+
  then show ?thesis using assms p that by cases (auto simp: task_await_def Let_def)
qed

lemma select_incoming_cases:
  assumes "channel_task_select T L cx Incoming_branch (cs, ct) = Some (cs', ct')"
  obtains (waits) c where "mc_poll_recv T (ct_channel ct) = Some (c, Pending)" "cs' = cs" "ct' = ct\<lparr>ct_channel := c\<rparr>"
  | (fails) c e where "mc_poll_recv T (ct_channel ct) = Some (c, Ready (Inl e))" "cs' = cs"
      "ct' = ct\<lparr>ct_channel := c, ct_pc := Ended (Channel_error e)\<rparr>"
  | (message) c m where "mc_poll_recv T (ct_channel ct) = Some (c, Ready (Inr m))" "cs' = cs"
      "ct' = ct\<lparr>ct_channel := c, ct_pc := Delivering (Some m)\<rparr>"
proof -
  obtain c r where p: "mc_poll_recv T (ct_channel ct) = Some (c, r)" using assms by (auto simp: option_bind_eq_Some)
  consider "r = Pending" | e where "r = Ready (Inl e)" | m where "r = Ready (Inr m)"
    by (cases r) (metis sumE)+
  then show ?thesis using assms p that by cases (auto simp: Let_def)
qed

context spsc_laws
begin

lemma serve_inv_new: "serve_inv items tx_gone rx_gone (serve_start (channel_set_new L n st) c)"
  by (simp add: serve_inv_def serve_start_def channel_set_new_def channel_task_new_def spsc_channel_def spsc_contents_def bounded)

lemma serve_ask:
  assumes inv: "serve_inv items tx_gone rx_gone sr" and e: "\<forall>cx br. e \<noteq> Task_poll cx br" and "serve_step T L sr e = Some sr'"
  shows "serve_inv items tx_gone rx_gone sr'"
proof (cases e)
  case (Ask_send m)
  show ?thesis
    using assms(1,3) Ask_send
    by (cases rule: push_cases [of "cs_outgoing (sr_set sr)" m]) (auto simp: serve_inv_def Let_def Sender_try_send_def)
next
  case Ask_recv
  show ?thesis
    using assms(1,3) Ask_recv
    by (cases rule: try_recv_cases [of "cs_incoming (sr_set sr)"])
      (auto simp: serve_inv_def Let_def spsc_contents_def split: if_splits)
next
  case Ask_flush
  then show ?thesis using assms(1,3)
    by (auto simp: serve_inv_def Let_def Sender_signal_def signal_store_def signal_wake_def)
qed (use e in simp)

lemma serve_task:
  assumes inv: "serve_inv items tx_gone rx_gone sr" and "serve_step T L sr (Task_poll cx br) = Some sr'"
  shows "serve_inv items tx_gone rx_gone sr'"
proof -
  obtain cs ct where st: "channel_task_step T L cx br (sr_set sr, sr_task sr) = Some (cs, ct)"
    "sr' = sr\<lparr>sr_set := cs, sr_task := ct, sr_sent := sr_sent sr @ pc_sent (ct_pc (sr_task sr)) (ct_pc ct),
       sr_got := sr_got sr @ pc_got (ct_pc (sr_task sr)) (ct_pc ct),
       sr_flushed := (if pc_flushed (ct_pc (sr_task sr)) (ct_pc ct) then length (sr_sent sr @ pc_sent (ct_pc (sr_task sr)) (ct_pc ct))
         else sr_flushed sr)\<rparr>"
    using assms(2) by (auto simp: option_bind_eq_Some Let_def)
  show ?thesis
  proof (cases "ct_pc (sr_task sr)")
    case Selecting
    show ?thesis
    proof (cases br)
      case Incoming_branch
      then have "channel_task_select T L cx Incoming_branch (sr_set sr, sr_task sr) = Some (cs, ct)"
        using st(1) Selecting by (simp add: channel_task_step_def del: channel_task_select.simps)
      then show ?thesis using st(2) inv Selecting
        by (cases rule: select_incoming_cases) (auto simp: serve_inv_def Let_def)
    next
      case Outgoing_branch
      then show ?thesis using st inv Selecting
        by (cases rule: try_recv_cases [of "cs_outgoing (sr_set sr)"])
          (auto simp: channel_task_step_def serve_inv_def Let_def poll_next_quiet)
    next
      case Flush_branch
      then show ?thesis using st inv Selecting
        by (auto simp: channel_task_step_def serve_inv_def Let_def Receiver_wait_def swap_signaled_def wait_register_def split: bool.splits)
    qed
  next
    case (Delivering mo)
    obtain s r where p: "Sender_poll_ready L id id cx (cs_incoming (sr_set sr)) = (s, r)" by force
    have live: "\<not> rx_gone (sp_channel (cs_incoming (sr_set sr)))" using inv by (simp add: serve_inv_def Let_def)
    note c = poll_ready_contents [OF p live] and r = poll_ready_live [OF p live]
    show ?thesis
    proof (cases mo)
      case None
      then show ?thesis using st inv Delivering p c r
        by (auto simp: channel_task_step_def serve_inv_def Let_def Sender_poll_flush_def)
    next
      case (Some m)
      then show ?thesis using st inv Delivering p c r
        by (auto simp: channel_task_step_def serve_inv_def Let_def Sender_start_send_def spsc_contents_def)
    qed
  next
    case (Sending m)
    then have "task_await (mc_poll_send T m (ct_channel (sr_task sr))) Selecting (sr_set sr, sr_task sr) = Some (cs, ct)"
      using st(1) by (simp add: channel_task_step_def)
    then show ?thesis using st(2) inv Sending
      by (cases rule: task_await_cases) (auto simp: serve_inv_def Let_def)
  next
    case Draining
    then show ?thesis using st inv
      by (cases rule: try_recv_cases [of "cs_outgoing (sr_set sr)"])
        (auto simp: channel_task_step_def serve_inv_def Let_def)
  next
    case (Flush_sending m)
    then have "task_await (mc_poll_send T m (ct_channel (sr_task sr))) Draining (sr_set sr, sr_task sr) = Some (cs, ct)"
      using st(1) by (simp add: channel_task_step_def)
    then show ?thesis using st(2) inv Flush_sending
      by (cases rule: task_await_cases) (auto simp: serve_inv_def Let_def)
  next
    case Flushing
    then have "task_await (mc_poll_flush T (ct_channel (sr_task sr))) Selecting (sr_set sr, sr_task sr) = Some (cs, ct)"
      using st(1) by (simp add: channel_task_step_def)
    then show ?thesis using st(2) inv Flushing
      by (cases rule: task_await_cases) (auto simp: serve_inv_def Let_def)
  next
    case (Ended e)
    then show ?thesis using st inv by (auto simp: channel_task_step_def serve_inv_def Let_def)
  qed
qed

lemma serve_run_inv:
  assumes "serve_run T L sr es = Some sr'" and "serve_inv items tx_gone rx_gone sr"
  shows "serve_inv items tx_gone rx_gone sr'"
  using assms
proof (induction es arbitrary: sr)
  case (Cons e es)
  then obtain x where x: "serve_step T L sr e = Some x" "serve_run T L x es = Some sr'" by (auto simp: option_bind_eq_Some)
  have "serve_inv items tx_gone rx_gone x"
    using serve_ask [OF Cons.prems(2) _ x(1)] serve_task [OF Cons.prems(2), of T _ _ x] x(1) by (cases e) auto
  with Cons.IH [OF x(2)] show ?case .
qed simp

text \<open>Only the message channel can panic.\<close>

lemma channel_task_step_panics:
  assumes live: "\<not> rx_gone (sp_channel (cs_incoming cs))" and n: "channel_task_step T L cx br (cs, ct) = None"
  shows "mc_poll_recv T (ct_channel ct) = None \<or> (\<exists>m. mc_poll_send T m (ct_channel ct) = None) \<or> mc_poll_flush T (ct_channel ct) = None"
proof (cases "ct_pc ct")
  case Selecting
  then show ?thesis using n by (cases br) (auto simp: channel_task_step_def Let_def split: prod.splits bind_splits)
next
  case (Delivering mo)
  obtain s r where p: "Sender_poll_ready L id id cx (cs_incoming cs) = (s, r)" by force
  from poll_ready_contents(3) [OF p live] poll_ready_live [OF p live] n Delivering p show ?thesis
    by (cases mo) (auto simp: channel_task_step_def Sender_poll_flush_def Sender_start_send_def)
qed (use n in \<open>auto simp: channel_task_step_def task_await_def Let_def split: prod.splits bind_splits\<close>)

lemma serve_step_panics:
  assumes inv: "serve_inv items tx_gone rx_gone sr" and "serve_step T L sr e = None"
  shows "mc_poll_recv T (ct_channel (sr_task sr)) = None \<or> (\<exists>m. mc_poll_send T m (ct_channel (sr_task sr)) = None) \<or>
     mc_poll_flush T (ct_channel (sr_task sr)) = None"
proof (cases e)
  case (Task_poll cx br)
  then have n: "channel_task_step T L cx br (sr_set sr, sr_task sr) = None"
    using assms(2) by (auto simp: Let_def split: bind_splits)
  have live: "\<not> rx_gone (sp_channel (cs_incoming (sr_set sr)))" using inv by (simp add: serve_inv_def Let_def)
  show ?thesis by (rule channel_task_step_panics [OF live n])
qed (use assms(2) in \<open>auto split: prod.splits\<close>)

text \<open>With a message channel that takes every message, a request is carried out in a bounded number of polls.\<close>

lemma drain_terminates:
  assumes send: "\<And>c m. \<exists>c'. mc_poll_send T m c = Some (c', Ready (Inr ()))"
    and flush: "\<And>c. \<exists>c'. mc_poll_flush T c = Some (c', Ready (Inr ()))"
  shows "ct_pc (sr_task sr) = Draining \<Longrightarrow> \<not> tx_gone (sp_channel (cs_outgoing (sr_set sr))) \<Longrightarrow>
     sr_asked sr = sr_sent sr @ items (sp_channel (cs_outgoing (sr_set sr))) \<Longrightarrow>
     \<exists>sr'. serve_run T L sr (replicate (2 * length (items (sp_channel (cs_outgoing (sr_set sr)))) + 2) (Task_poll cx br)) = Some sr' \<and>
       ct_pc (sr_task sr') = Selecting \<and> sr_asked sr' = sr_asked sr \<and> sr_sent sr' = sr_asked sr \<and>
       sr_flushed sr' = length (sr_asked sr)"
proof (induction "length (items (sp_channel (cs_outgoing (sr_set sr))))" arbitrary: sr)
  case 0
  then have e: "items (sp_channel (cs_outgoing (sr_set sr))) = []" by simp
  from flush [of "ct_channel (sr_task sr)"] obtain c' where "mc_poll_flush T (ct_channel (sr_task sr)) = Some (c', Ready (Inr ()))" by blast
  with 0 e show ?case
    by (cases rule: try_recv_cases [of "cs_outgoing (sr_set sr)"])
      (simp_all add: numeral_2_eq_2 channel_task_step_def task_await_def Let_def)
next
  case (Suc n)
  obtain t q where t: "items (sp_channel (cs_outgoing (sr_set sr))) = t # items q" "tx_gone q = tx_gone (sp_channel (cs_outgoing (sr_set sr)))"
    "Receiver_try_recv L (cs_outgoing (sr_set sr)) = ((cs_outgoing (sr_set sr))\<lparr>sp_channel := q, sp_send_ready := aw_wake L (sp_send_ready (cs_outgoing (sr_set sr)))\<rparr>, Inr t)"
    using Suc.hyps(2) by (cases rule: try_recv_cases [of "cs_outgoing (sr_set sr)"]) auto
  from send [of t "ct_channel (sr_task sr)"] obtain c' where c': "mc_poll_send T t (ct_channel (sr_task sr)) = Some (c', Ready (Inr ()))" by blast
  let ?cs = "(sr_set sr)\<lparr>cs_outgoing := (cs_outgoing (sr_set sr))\<lparr>sp_channel := q, sp_send_ready := aw_wake L (sp_send_ready (cs_outgoing (sr_set sr)))\<rparr>\<rparr>"
  let ?sr = "sr\<lparr>sr_set := ?cs, sr_task := (sr_task sr)\<lparr>ct_channel := c', ct_pc := Draining\<rparr>, sr_sent := sr_sent sr @ [t]\<rparr>"
  have "serve_run T L sr [Task_poll cx br, Task_poll cx br] = Some ?sr"
    using Suc.prems(1) t(3) c' by (simp add: channel_task_step_def task_await_def Let_def)
  then have two: "serve_run T L sr (Task_poll cx br # Task_poll cx br # es) = serve_run T L ?sr es" for es
    by (auto simp: option_bind_eq_Some split: bind_splits)
  have rest: "\<exists>sr'. serve_run T L ?sr (replicate (2 * length (items q) + 2) (Task_poll cx br)) = Some sr' \<and>
       ct_pc (sr_task sr') = Selecting \<and> sr_asked sr' = sr_asked sr \<and> sr_sent sr' = sr_asked sr \<and>
       sr_flushed sr' = length (sr_asked sr)"
    using Suc.hyps(1) [of ?sr] Suc.hyps(2) Suc.prems t(1,2) by simp
  have polls: "replicate (2 * length (items (sp_channel (cs_outgoing (sr_set sr)))) + 2) (Task_poll cx br) =
      Task_poll cx br # Task_poll cx br # replicate (2 * length (items q) + 2) (Task_poll cx br)" unfolding t(1) by simp
  show ?case unfolding polls two by (rule rest)
qed

end

subsection \<open>Properties\<close>


text \<open>A message channel whose other end is itself, for the witnesses.\<close>

definition loop_channel :: "('m list, 'm, unit) message_channel" where
  "loop_channel = \<lparr>
     mc_poll_recv = (\<lambda>xs. case xs of [] \<Rightarrow> Some ([], Pending) | x # xs \<Rightarrow> Some (xs, Ready (Inr x))),
     mc_poll_send = (\<lambda>m xs. Some (xs @ [m], Ready (Inr ()))),
     mc_poll_flush = (\<lambda>xs. Some (xs, Ready (Inr ())))\<rparr>"

definition loop_start ::
  "(nat fifo, unit option \<times> unit list, nat, unit, nat list, unit) serve_state" where
  "loop_start = serve_start (channel_set_new fifo_lib 2 ()) []"

lemmas serve_eval = loop_start_def loop_channel_def serve_start_def channel_set_new_def channel_task_new_def spsc_channel_def
  fifo_lib_def event_channel_def Sender_try_send_def Sender_push_def Receiver_try_recv_def Sender_signal_def watch_defs
  Receiver_wait_def Sender_poll_ready_def Sender_poll_flush_def Sender_start_send_def channel_task_step_def task_await_def Let_def




end
