(* ===== verification/Served_Network.thy ===== *)
theory Served_Network
  imports Channel_Task Reliable_Bincode Compressed_Bincode
begin

text \<open>
  Message types served over the network: the queues of the applications, the tasks that serve them, the
  message channels, the reliable channels under them, and the lossy network.

  The locale \<open>served\<close> joins the contract of the package under the queues with the contract of a message
  channel. A run interleaves what the applications do, the polls of the serving tasks and the rounds of
  the reliable channels.
\<close>

datatype ('m, 'k) served_event = Serve "('m, 'k) serve_event" | Serve_round round_event

fun served_step ::
  "('c, 'm, 'e) message_channel \<Rightarrow> ('q, 'w, 'm, 'k) spsc_lib \<Rightarrow> ('c \<Rightarrow> 'i reliable_channel) \<Rightarrow>
   ('i reliable_channel \<Rightarrow> 'c \<Rightarrow> 'c) \<Rightarrow> 'i timer \<Rightarrow> visit_order \<Rightarrow> byte list list \<Rightarrow>
   ('q, 'w, 'm, 's, 'c, 'e) serve_state \<Rightarrow> ('m, 'k) served_event \<Rightarrow> ('q, 'w, 'm, 's, 'c, 'e) serve_state option" where
  "served_step T L get put tm visit inbox sr (Serve e) = serve_step T L sr e"
| "served_step T L get put tm visit inbox sr (Serve_round ev) = do {
     ch \<leftarrow> channel_event tm visit inbox (get (ct_channel (sr_task sr))) ev;
     Some (sr\<lparr>sr_task := (sr_task sr)\<lparr>ct_channel := put ch (ct_channel (sr_task sr))\<rparr>\<rparr>)
   }"

fun served_run ::
  "('c, 'm, 'e) message_channel \<Rightarrow> ('q, 'w, 'm, 'k) spsc_lib \<Rightarrow> ('c \<Rightarrow> 'i reliable_channel) \<Rightarrow>
   ('i reliable_channel \<Rightarrow> 'c \<Rightarrow> 'c) \<Rightarrow> 'i timer \<Rightarrow> 'i timer \<Rightarrow> visit_order \<Rightarrow>
   ('q, 'w, 'm, 's, 'c, 'e) serve_state \<Rightarrow> ('q, 'w, 'm, 's, 'c, 'e) serve_state \<Rightarrow> (bool \<times> ('m, 'k) served_event) list \<Rightarrow>
   (('q, 'w, 'm, 's, 'c, 'e) serve_state \<times> ('q, 'w, 'm, 's, 'c, 'e) serve_state) option" where
  "served_run T L get put tmA tmB visit A B [] = Some (A, B)"
| "served_run T L get put tmA tmB visit A B ((True, ev) # es) = do {
     A \<leftarrow> served_step T L get put tmA visit (outgoing (task (get (ct_channel (sr_task B))))) A ev;
     served_run T L get put tmA tmB visit A B es
   }"
| "served_run T L get put tmA tmB visit A B ((False, ev) # es) = do {
     B \<leftarrow> served_step T L get put tmB visit (outgoing (task (get (ct_channel (sr_task A))))) B ev;
     served_run T L get put tmA tmB visit A B es
   }"

definition asks :: "('m, 'k) served_event \<Rightarrow> 'm list" where
  "asks ev = (case ev of Serve (Ask_send m) \<Rightarrow> [m] | _ \<Rightarrow> [])"

lemma asks_simps [simp]: "asks (Serve (Ask_send m)) = [m]" "asks (Serve Ask_recv) = []" "asks (Serve Ask_flush) = []"
  "asks (Serve (Task_poll cx br)) = []" "asks (Serve_round r) = []"
  by (simp_all add: asks_def)

definition served_asks :: "bool \<Rightarrow> (bool \<times> ('m, 'k) served_event) list \<Rightarrow> 'm list" where
  "served_asks side es = concat (map (\<lambda>(s, ev). if s = side then asks ev else []) es)"

lemma served_asks_simps [simp]: "served_asks side [] = []"
  "served_asks side (e # es) = (if fst e = side then asks (snd e) else []) @ served_asks side es"
  by (cases e; simp add: served_asks_def)+

text \<open>The message channel at one end, with what went through it.\<close>

definition msg_of :: "('q, 'w, 'm, 's, 'c, 'e) serve_state \<Rightarrow> ('c, 'm, 'e) msg_endpoint" where
  "msg_of sr = \<lparr>conn = ct_channel (sr_task sr), sent_msgs = sr_sent sr, got_msgs = map Inr (sr_got sr), failures = []\<rparr>"

definition side_ok ::
  "('i, 'c, 'm, 'u) message_coding \<Rightarrow> ('q \<Rightarrow> 'm list) \<Rightarrow> ('q \<Rightarrow> bool) \<Rightarrow> ('q \<Rightarrow> bool) \<Rightarrow> nat \<Rightarrow>
   ('q, 'w, 'm, 's, 'c, 'e) serve_state \<Rightarrow> bool" where
  "side_ok C items tx_gone rx_gone M sr \<longleftrightarrow> serve_inv items tx_gone rx_gone sr \<and> (\<forall>e. ct_pc (sr_task sr) \<noteq> Ended e) \<and>
     (\<forall>m\<in>set (sr_asked sr). cd_good C m) \<and> msgs_cost C (sr_asked sr) \<le> M"

lemma serve_ask_frame:
  assumes "\<forall>cx br. e \<noteq> Task_poll cx br"
  shows "\<exists>A'. serve_step T L A e = Some A' \<and> sr_task A' = sr_task A \<and> sr_sent A' = sr_sent A \<and> sr_got A' = sr_got A \<and>
     (sr_asked A' = sr_asked A \<or> sr_asked A' = sr_asked A @ asks (Serve e))"
proof (cases e)
  case (Ask_send m)
  obtain s r where "Sender_try_send L (cs_outgoing (sr_set A)) m = (s, r)" by force
  then show ?thesis using Ask_send by (cases r) simp_all
next
  case Ask_recv
  obtain s r where "Receiver_try_recv L (cs_incoming (sr_set A)) = (s, r)" by force
  then show ?thesis using Ask_recv by simp
qed (use assms in auto)

locale served = spsc_laws L items room tx_gone rx_gone waiting woken + message_stream T C
  for L :: "('q, 'w, 'm, 'k) spsc_lib" and items room tx_gone rx_gone waiting woken
    and T :: "('c, 'm, 'e) message_channel" and C :: "('i, 'c, 'm, 'u) message_coding"
begin

lemma served_recv:
  assumes inv: "msg_inv C tmA tmB M N (msg_of A) (msg_of B)" and pc: "ct_pc (sr_task A) = Selecting"
  shows "\<exists>A'. serve_step T L A (Task_poll cx Incoming_branch) = Some A' \<and> msg_inv C tmA tmB M N (msg_of A') (msg_of B) \<and>
     (\<forall>e. ct_pc (sr_task A') \<noteq> Ended e) \<and> sr_asked A' = sr_asked A"
proof -
  from msg_recv_step [OF inv] obtain c r where r: "mc_poll_recv T (ct_channel (sr_task A)) = Some (c, r)"
    "msg_inv C tmA tmB M N ((msg_of A)\<lparr>conn := c, got_msgs := got_msgs (msg_of A) @ (case r of Ready x \<Rightarrow> [x] | Pending \<Rightarrow> [])\<rparr>) (msg_of B)"
    by (auto simp: msg_of_def)
  have "prefix (map Inr (sr_got A) @ (case r of Ready x \<Rightarrow> [x] | Pending \<Rightarrow> [])) (map Inr (sr_sent B))"
    using msg_inv_prefix(4) [OF r(2)] by (simp add: msg_of_def)
  then have "set (case r of Ready x \<Rightarrow> [x] | Pending \<Rightarrow> []) \<subseteq> Inr ` set (sr_sent B)" using set_mono_prefix by fastforce
  then consider "r = Pending" | m where "r = Ready (Inr m)" by (cases r) auto
  then show ?thesis using r pc by cases (simp_all add: channel_task_step_def msg_of_def Let_def)
qed

lemma served_await:
  assumes inv: "msg_inv C tmA tmB M N ((msg_of A)\<lparr>conn := c, sent_msgs := sr_sent A @ ms\<rparr>) (msg_of B)"
    and step: "channel_task_step T L cx br (sr_set A, sr_task A) = task_await (Some (c, r)) pc (sr_set A, sr_task A)"
    and r: "r = Pending \<and> ms = [] \<or> r = Ready (Inr ()) \<and> ms = pc_sent (ct_pc (sr_task A)) pc"
    and pcs: "pc_got (ct_pc (sr_task A)) pc = []" "\<forall>e. pc \<noteq> Ended e" "\<forall>e. ct_pc (sr_task A) \<noteq> Ended e"
    and same: "pc_sent (ct_pc (sr_task A)) (ct_pc (sr_task A)) = []" "pc_got (ct_pc (sr_task A)) (ct_pc (sr_task A)) = []"
  shows "\<exists>A'. serve_step T L A (Task_poll cx br) = Some A' \<and> msg_inv C tmA tmB M N (msg_of A') (msg_of B) \<and>
     (\<forall>e. ct_pc (sr_task A') \<noteq> Ended e) \<and> sr_asked A' = sr_asked A"
  using r inv pcs same by (auto simp: step task_await_def msg_of_def Let_def)

lemma served_send:
  fixes pc :: "('m, 'e) task_pc"
  assumes inv: "msg_inv C tmA tmB M N (msg_of A) (msg_of B)" and side: "side_ok C items tx_gone rx_gone M A"
    and pc: "ct_pc (sr_task A) = Sending m \<and> pc = Selecting \<or> ct_pc (sr_task A) = Flush_sending m \<and> pc = Draining"
  shows "\<exists>A'. serve_step T L A (Task_poll cx br) = Some A' \<and> msg_inv C tmA tmB M N (msg_of A') (msg_of B) \<and>
     (\<forall>e. ct_pc (sr_task A') \<noteq> Ended e) \<and> sr_asked A' = sr_asked A"
proof -
  have "sr_asked A = sr_sent A @ [m] @ items (sp_channel (cs_outgoing (sr_set A)))"
    using side pc by (auto simp: side_ok_def serve_inv_def Let_def)
  then have "cd_good C m" "msgs_cost C (sent_msgs (msg_of A) @ [m]) \<le> M" using side by (auto simp: side_ok_def msg_of_def)
  from msg_send_step [OF inv this] obtain c r where s: "mc_poll_send T m (ct_channel (sr_task A)) = Some (c, r)"
    "r = Pending \<or> r = Ready (Inr ())"
    "msg_inv C tmA tmB M N ((msg_of A)\<lparr>conn := c, sent_msgs := sr_sent A @ (case r of Ready (Inr _) \<Rightarrow> [m] | _ \<Rightarrow> [])\<rparr>) (msg_of B)"
    by (auto simp: msg_of_def)
  show ?thesis using s pc
    by (intro served_await [OF s(3), of cx br r pc]) (auto simp: channel_task_step_def)
qed

lemma served_flush:
  assumes inv: "msg_inv C tmA tmB M N (msg_of A) (msg_of B)" and pc: "ct_pc (sr_task A) = Flushing"
  shows "\<exists>A'. serve_step T L A (Task_poll cx br) = Some A' \<and> msg_inv C tmA tmB M N (msg_of A') (msg_of B) \<and>
     (\<forall>e. ct_pc (sr_task A') \<noteq> Ended e) \<and> sr_asked A' = sr_asked A"
proof -
  from msg_flush_step [OF inv] obtain c r where s: "mc_poll_flush T (ct_channel (sr_task A)) = Some (c, r)"
    "r = Pending \<or> r = Ready (Inr ())" "msg_inv C tmA tmB M N ((msg_of A)\<lparr>conn := c, sent_msgs := sr_sent A @ []\<rparr>) (msg_of B)"
    by (auto simp: msg_of_def)
  show ?thesis using s pc
    by (intro served_await [OF s(3), of cx br r Selecting]) (auto simp: channel_task_step_def)
qed

text \<open>The other polls do not touch the message channel.\<close>

lemma served_queue:
  assumes inv: "msg_inv C tmA tmB M N (msg_of A) (msg_of B)" and side: "side_ok C items tx_gone rx_gone M A"
    and pc: "(ct_pc (sr_task A) = Selecting \<and> br \<noteq> Incoming_branch) \<or> ct_pc (sr_task A) = Draining \<or> (\<exists>mo. ct_pc (sr_task A) = Delivering mo)"
  shows "\<exists>A'. serve_step T L A (Task_poll cx br) = Some A' \<and> msg_inv C tmA tmB M N (msg_of A') (msg_of B) \<and>
     (\<forall>e. ct_pc (sr_task A') \<noteq> Ended e) \<and> sr_asked A' = sr_asked A"
proof -
  have side: "\<not> tx_gone (sp_channel (cs_outgoing (sr_set A)))" "\<not> rx_gone (sp_channel (cs_incoming (sr_set A)))"
    using side by (auto simp: side_ok_def serve_inv_def Let_def)
  show ?thesis
  proof (cases "ct_pc (sr_task A)")
    case Selecting
    then show ?thesis using pc inv side(1)
      by (cases br; cases rule: try_recv_cases [of "cs_outgoing (sr_set A)"])
        (auto simp: channel_task_step_def msg_of_def poll_next_quiet Receiver_wait_def swap_signaled_def Let_def split: bool.splits)
  next
    case Draining
    then show ?thesis using inv side(1)
      by (cases rule: try_recv_cases [of "cs_outgoing (sr_set A)"]) (simp_all add: channel_task_step_def msg_of_def Let_def)
  next
    case (Delivering mo)
    obtain s r where p: "Sender_poll_ready L id id cx (cs_incoming (sr_set A)) = (s, r)" by force
    from poll_ready_contents(3) [OF p side(2)] poll_ready_live [OF p side(2)] Delivering p inv show ?thesis
      by (cases mo) (auto simp: channel_task_step_def Sender_poll_flush_def Sender_start_send_def msg_of_def Let_def)
  qed (use pc in auto)
qed

lemma served_task:
  assumes inv: "msg_inv C tmA tmB M N (msg_of A) (msg_of B)" and side: "side_ok C items tx_gone rx_gone M A"
  shows "\<exists>A'. serve_step T L A (Task_poll cx br) = Some A' \<and> msg_inv C tmA tmB M N (msg_of A') (msg_of B) \<and>
     side_ok C items tx_gone rx_gone M A' \<and> sr_asked A' = sr_asked A"
proof -
  have "\<exists>A'. serve_step T L A (Task_poll cx br) = Some A' \<and> msg_inv C tmA tmB M N (msg_of A') (msg_of B) \<and>
     (\<forall>e. ct_pc (sr_task A') \<noteq> Ended e) \<and> sr_asked A' = sr_asked A"
  proof (cases "ct_pc (sr_task A)")
    case Selecting
    then show ?thesis using served_recv [OF inv Selecting] served_queue [OF inv side] by (cases "br = Incoming_branch") blast+
  next
    case (Sending m)
    then show ?thesis using served_send [OF inv side] by blast
  next
    case (Flush_sending m)
    then show ?thesis using served_send [OF inv side] by blast
  next
    case Flushing
    then show ?thesis by (rule served_flush [OF inv])
  next
    case (Ended e)
    then show ?thesis using side by (simp add: side_ok_def)
  qed (use served_queue [OF inv side] in blast)+
  then obtain A' where a: "serve_step T L A (Task_poll cx br) = Some A'" "msg_inv C tmA tmB M N (msg_of A') (msg_of B)"
    "\<forall>e. ct_pc (sr_task A') \<noteq> Ended e" "sr_asked A' = sr_asked A" by blast
  have "serve_inv items tx_gone rx_gone A" using side by (simp add: side_ok_def)
  from serve_task [OF this a(1)] a side show ?thesis by (auto simp: side_ok_def)
qed

definition served_inv ::
  "'i timer \<Rightarrow> 'i timer \<Rightarrow> nat \<Rightarrow> nat \<Rightarrow> ('q, 'w, 'm, 's, 'c, 'e) serve_state \<Rightarrow> ('q, 'w, 'm, 's, 'c, 'e) serve_state \<Rightarrow> bool" where
  "served_inv tmA tmB M N A B \<longleftrightarrow> side_ok C items tx_gone rx_gone M A \<and> side_ok C items tx_gone rx_gone N B \<and>
     msg_inv C tmA tmB M N (msg_of A) (msg_of B)"

lemma served_inv_sym: "served_inv tmA tmB M N A B \<longleftrightarrow> served_inv tmB tmA N M B A"
  unfolding served_inv_def using msg_inv_sym by blast

lemma served_step_inv:
  assumes inv: "served_inv tmA tmB M N A B" and mono: "monotonic_timer tmA" and vis: "visits_entries visit"
    and ok: "\<forall>m\<in>set (asks ev). cd_good C m" and M: "msgs_cost C (sr_asked A) + msgs_cost C (asks ev) \<le> M"
  shows "\<exists>A'. served_step T L (cd_get C) (cd_put C) tmA visit (outgoing (task (cd_get C (ct_channel (sr_task B))))) A ev = Some A' \<and>
     served_inv tmA tmB M N A' B \<and> msgs_cost C (sr_asked A') \<le> msgs_cost C (sr_asked A) + msgs_cost C (asks ev)"
proof -
  have side: "side_ok C items tx_gone rx_gone M A" and msg: "msg_inv C tmA tmB M N (msg_of A) (msg_of B)"
    and sideB: "side_ok C items tx_gone rx_gone N B" using inv by (simp_all add: served_inv_def)
  have s: "serve_inv items tx_gone rx_gone A" "\<forall>e. ct_pc (sr_task A) \<noteq> Ended e" using side by (simp_all add: side_ok_def)
  show ?thesis
  proof (cases ev)
    case (Serve e)
    show ?thesis
    proof (cases "\<exists>cx br. e = Task_poll cx br")
      case True
      then obtain cx br where e: "e = Task_poll cx br" by blast
      from served_task [OF msg side, of cx br] sideB show ?thesis using Serve e by (auto simp: served_inv_def)
    next
      case False
      then obtain A' where a: "serve_step T L A e = Some A'" "sr_task A' = sr_task A" "sr_sent A' = sr_sent A" "sr_got A' = sr_got A"
        "sr_asked A' = sr_asked A \<or> sr_asked A' = sr_asked A @ asks ev"
        unfolding Serve using serve_ask_frame [of e T L A] by blast
      have "serve_inv items tx_gone rx_gone A'" using serve_ask [OF s(1) _ a(1)] False by blast
      then have "side_ok C items tx_gone rx_gone M A'" using a(2,5) side ok M by (auto simp: side_ok_def)
      moreover have "msg_of A' = msg_of A" using a by (simp add: msg_of_def)
      ultimately show ?thesis using a(1,5) Serve msg sideB by (auto simp: served_inv_def)
    qed
  next
    case (Serve_round r)
    from msg_round_step [OF msg mono vis, of r] obtain ch where
      c: "channel_event tmA visit (outgoing (task (cd_get C (ct_channel (sr_task B))))) (cd_get C (ct_channel (sr_task A))) r = Some ch"
      "msg_inv C tmA tmB M N ((msg_of A)\<lparr>conn := cd_put C ch (ct_channel (sr_task A))\<rparr>) (msg_of B)" by (auto simp: msg_of_def)
    let ?A = "A\<lparr>sr_task := (sr_task A)\<lparr>ct_channel := cd_put C ch (ct_channel (sr_task A))\<rparr>\<rparr>"
    have "side_ok C items tx_gone rx_gone M ?A" using side by (simp add: side_ok_def serve_inv_def Let_def)
    moreover have "msg_of ?A = (msg_of A)\<lparr>conn := cd_put C ch (ct_channel (sr_task A))\<rparr>" by (simp add: msg_of_def)
    ultimately show ?thesis using c sideB Serve_round by (auto simp: served_inv_def)
  qed
qed

lemma served_run_inv:
  assumes "served_inv tmA tmB M N A B" and "monotonic_timer tmA" and "monotonic_timer tmB" and "visits_entries visit"
    and "\<forall>(side, ev)\<in>set es. \<forall>m\<in>set (asks ev). cd_good C m"
    and "msgs_cost C (sr_asked A) + msgs_cost C (served_asks True es) \<le> M"
    and "msgs_cost C (sr_asked B) + msgs_cost C (served_asks False es) \<le> N"
  shows "\<exists>A' B'. served_run T L (cd_get C) (cd_put C) tmA tmB visit A B es = Some (A', B') \<and> served_inv tmA tmB M N A' B'"
  using assms
proof (induction es arbitrary: A B)
  case (Cons e es)
  obtain side ev where e: "e = (side, ev)" by (cases e)
  have ok: "\<forall>m\<in>set (asks ev). cd_good C m" "\<forall>(side, ev)\<in>set es. \<forall>m\<in>set (asks ev). cd_good C m"
    using Cons.prems(5) e by auto
  show ?case
  proof (cases side)
    case True
    then have M: "msgs_cost C (sr_asked A) + msgs_cost C (asks ev) \<le> M" using Cons.prems(6) e by simp
    from served_step_inv [OF Cons.prems(1,2,4) ok(1) M] obtain A' where
      "served_step T L (cd_get C) (cd_put C) tmA visit (outgoing (task (cd_get C (ct_channel (sr_task B))))) A ev = Some A'"
      "served_inv tmA tmB M N A' B" "msgs_cost C (sr_asked A') \<le> msgs_cost C (sr_asked A) + msgs_cost C (asks ev)" by blast
    then show ?thesis using Cons.IH [of A' B] Cons.prems ok(2) e True by simp
  next
    case False
    then have N: "msgs_cost C (sr_asked B) + msgs_cost C (asks ev) \<le> N" using Cons.prems(7) e by simp
    from served_step_inv [OF Cons.prems(1) [unfolded served_inv_sym [of tmA]] Cons.prems(3,4) ok(1) N] obtain B' where
      "served_step T L (cd_get C) (cd_put C) tmB visit (outgoing (task (cd_get C (ct_channel (sr_task A))))) B ev = Some B'"
      "served_inv tmA tmB M N A B'" "msgs_cost C (sr_asked B') \<le> msgs_cost C (sr_asked B) + msgs_cost C (asks ev)"
      unfolding served_inv_sym [of tmB] by blast
    then show ?thesis using Cons.IH [of A B'] Cons.prems ok(2) e False by simp
  qed
qed simp

text \<open>Everything the application handed over has been received when nothing is left on the way.\<close>

lemma served_complete:
  assumes inv: "served_inv tmA tmB M N A B"
    and A: "ct_pc (sr_task A) = Selecting" "items (sp_channel (cs_outgoing (sr_set A))) = []" "cd_idle C (ct_channel (sr_task A))"
      "rb_count (sw_ring (send_window (task (cd_get C (ct_channel (sr_task A)))))) = 0"
    and B: "ct_pc (sr_task B) = Selecting" "spsc_contents items (cs_incoming (sr_set B)) = []"
      "mc_poll_recv T (ct_channel (sr_task B)) = Some (c, Pending)"
  shows "sr_received B = sr_asked A"
proof -
  have "msg_inv C tmB tmA N M (msg_of B) (msg_of A)" using inv msg_inv_sym unfolding served_inv_def by blast
  from msg_recv_step [OF this] A(3,4) B(3) have "got_msgs (msg_of B) = map Inr (sent_msgs (msg_of A))"
    by (auto simp: msg_of_def)
  then have "sr_got B = sr_sent A" by (simp add: msg_of_def inj_map_eq_map [OF inj_Inr])
  moreover have "sr_got B = sr_received B" "sr_asked A = sr_sent A" using inv A(1,2) B(1,2)
    by (auto simp: served_inv_def side_ok_def serve_inv_def Let_def)
  ultimately show ?thesis by simp
qed

lemma served_prefix:
  assumes "served_inv tmA tmB M N A B"
  shows "prefix (sr_received B) (sr_asked A)" "\<forall>e. ct_pc (sr_task A) \<noteq> Ended e"
proof -
  have "prefix (map Inr (sr_got B)) (map Inr (sr_sent A) :: ('e + 'm) list)"
    using msg_inv_prefix(3) [of tmA tmB M N "msg_of A" "msg_of B"] assms by (simp add: served_inv_def msg_of_def)
  then have "prefix (sr_got B) (sr_sent A)" by (auto simp: prefix_def map_eq_append_conv inj_map_eq_map [OF inj_Inr])
  moreover have "prefix (sr_received B) (sr_got B)" "prefix (sr_sent A) (sr_asked A)"
    using assms by (auto simp: served_inv_def side_ok_def serve_inv_def Let_def)
  ultimately show "prefix (sr_received B) (sr_asked A)" by (meson prefix_order.trans)
  show "\<forall>e. ct_pc (sr_task A) \<noteq> Ended e" using assms by (simp add: served_inv_def side_ok_def)
qed

lemma served_inv_new:
  fixes s s' :: 's
  assumes "ReliableChannel_new tmA capA stA = Some a" "settings_ok capA stA"
    and "ReliableChannel_new tmB capB stB = Some b" "settings_ok capB stB"
    and "int M + int (recv_window_size stB) < half_span" "int N + int (recv_window_size stA) < half_span"
  shows "served_inv tmA tmB M N (serve_start (channel_set_new L n s) (cd_new C a)) (serve_start (channel_set_new L n' s') (cd_new C b))"
proof -
  have "msg_of (serve_start cs c :: ('q, 'w, 'm, 's, 'c, 'e) serve_state) = msg_start c" for cs :: "('q, 'w, 'm, 's) channel_set" and c :: 'c
    by (simp add: msg_of_def serve_start_def channel_task_new_def msg_start_def)
  moreover have "side_ok C items tx_gone rx_gone K (serve_start (channel_set_new L j x) d :: ('q, 'w, 'm, 's, 'c, 'e) serve_state)" for K j d and x :: 's
    using serve_inv_new [of j x d] by (simp add: side_ok_def) (simp add: serve_start_def channel_task_new_def)
  ultimately show ?thesis using msg_inv_new [OF assms] by (simp add: served_inv_def)
qed

lemma served_end_to_end:
  fixes s s' :: 's
  assumes A: "ReliableChannel_new tmA capA stA = Some a" "settings_ok capA stA"
    and B: "ReliableChannel_new tmB capB stB = Some b" "settings_ok capB stB"
    and "monotonic_timer tmA" "monotonic_timer tmB" "visits_entries visit"
    and "\<forall>(side, ev)\<in>set es. \<forall>m\<in>set (asks ev). cd_good C m"
    and M: "int (msgs_cost C (served_asks True es)) + int (recv_window_size stB) < half_span"
      "int (msgs_cost C (served_asks False es)) + int (recv_window_size stA) < half_span"
  shows "\<exists>A' B'. served_run T L (cd_get C) (cd_put C) tmA tmB visit (serve_start (channel_set_new L n s) (cd_new C a))
       (serve_start (channel_set_new L n' s') (cd_new C b)) es = Some (A', B') \<and>
     (\<forall>e. ct_pc (sr_task A') \<noteq> Ended e \<and> ct_pc (sr_task B') \<noteq> Ended e) \<and>
     prefix (sr_received B') (sr_asked A') \<and> prefix (sr_received A') (sr_asked B') \<and>
     (ct_pc (sr_task A') = Selecting \<and> items (sp_channel (cs_outgoing (sr_set A'))) = [] \<and> cd_idle C (ct_channel (sr_task A')) \<and>
        rb_count (sw_ring (send_window (task (cd_get C (ct_channel (sr_task A')))))) = 0 \<and>
        ct_pc (sr_task B') = Selecting \<and> spsc_contents items (cs_incoming (sr_set B')) = [] \<and>
        (\<exists>c. mc_poll_recv T (ct_channel (sr_task B')) = Some (c, Pending)) \<longrightarrow> sr_received B' = sr_asked A')"
proof -
  let ?A = "serve_start (channel_set_new L n s) (cd_new C a) :: ('q, 'w, 'm, 's, 'c, 'e) serve_state"
  let ?B = "serve_start (channel_set_new L n' s') (cd_new C b) :: ('q, 'w, 'm, 's, 'c, 'e) serve_state"
  let ?M = "msgs_cost C (served_asks True es)" and ?N = "msgs_cost C (served_asks False es)"
  have inv: "served_inv tmA tmB ?M ?N ?A ?B" by (rule served_inv_new [OF A B M])
  have cost: "msgs_cost C (sr_asked ?A) + ?M \<le> ?M" "msgs_cost C (sr_asked ?B) + ?N \<le> ?N" by (simp_all add: serve_start_def)
  from served_run_inv [OF inv assms(5-8) cost] obtain A' B' where
    r: "served_run T L (cd_get C) (cd_put C) tmA tmB visit ?A ?B es = Some (A', B')" "served_inv tmA tmB ?M ?N A' B'" by blast
  note p = served_prefix [OF r(2)] served_prefix [OF r(2) [unfolded served_inv_sym [of tmA]]]
  show ?thesis
  proof (rule exI [of _ A'], rule exI [of _ B'], intro conjI impI)
    show "\<forall>e. ct_pc (sr_task A') \<noteq> Ended e \<and> ct_pc (sr_task B') \<noteq> Ended e" using p(2,4) by blast
  qed (use r(1) p served_complete [OF r(2)] in \<open>blast+\<close>)
qed

end

interpretation served_rbc: served fifo_lib fq_items fq_room fq_tx_gone fq_rx_gone fst snd
    "rbc_ops byte_bincode" "rbc_coding byte_bincode"
  by (intro served.intro fifo.spsc_laws_axioms byte_rbc.message_stream_axioms)

interpretation served_cbc: served fifo_lib fq_items fq_room fq_tx_gone fq_rx_gone fst snd
    "cbc_ops byte_bincode zero_snap" "cbc_coding byte_bincode zero_packed"
  by (intro served.intro fifo.spsc_laws_axioms byte_cbc.message_stream_axioms)

subsection \<open>Properties\<close>

text \<open>
  C6: a message type served over a lossy network. Two applications that use the queues of a message type
  in reliable mode, their serving tasks, and the reliable channels under them, with packets lost,
  duplicated and reordered in any way: for every interleaving of what the applications do, the polls of
  the tasks and the rounds of the channels, nothing panics, no task ends, and each application receives
  a prefix of the messages the other handed over. When the queues and the buffers are empty and the
  receiving task has to wait, it has received all of them.
\<close>

theorem served_messages_delivered:
  fixes B :: "('m, 'e) bincode" and a b :: "'i reliable_channel" and s s' :: 's
  assumes queues: "spsc_laws L items room tx_gone rx_gone waiting woken" and laws: "bincode_laws B"
    and A: "ReliableChannel_new tmA capA stA = Some a" "settings_ok capA stA"
    and B: "ReliableChannel_new tmB capB stB = Some b" "settings_ok capB stB"
    and "monotonic_timer tmA" "monotonic_timer tmB" "visits_entries visit"
    and ok: "\<forall>side m. (side, Serve (Ask_send m)) \<in> set es \<longrightarrow> rbc_serializes B m"
    and "int (length (rbc_stream B (served_asks True es))) + int (recv_window_size stB) < half_span"
    and "int (length (rbc_stream B (served_asks False es))) + int (recv_window_size stA) < half_span"
  shows "\<exists>A' B'. served_run (rbc_ops B) L rbc_channel (\<lambda>ch rb. rb\<lparr>rbc_channel := ch\<rparr>) tmA tmB visit
       (serve_start (channel_set_new L n s) (ReliableBincodeChannel_new a))
       (serve_start (channel_set_new L n' s') (ReliableBincodeChannel_new b)) es = Some (A', B') \<and>
     (\<forall>e. ct_pc (sr_task A') \<noteq> Ended e \<and> ct_pc (sr_task B') \<noteq> Ended e) \<and>
     prefix (sr_received B') (sr_asked A') \<and> prefix (sr_received A') (sr_asked B') \<and>
     (ct_pc (sr_task A') = Selecting \<and> items (sp_channel (cs_outgoing (sr_set A'))) = [] \<and>
        rbc_write_buffer (ct_channel (sr_task A')) = [] \<and>
        rb_count (sw_ring (send_window (task (rbc_channel (ct_channel (sr_task A')))))) = 0 \<and>
        ct_pc (sr_task B') = Selecting \<and> spsc_contents items (cs_incoming (sr_set B')) = [] \<and>
        (\<exists>c. rbc_poll_recv B (ct_channel (sr_task B')) = Some (c, Pending)) \<longrightarrow> sr_received B' = sr_asked A')"
proof -
  let ?C = "rbc_coding B :: ('i, 'i rbc, 'm, 'm) message_coding"
  have ok': "\<forall>(side, ev)\<in>set es. \<forall>m\<in>set (asks ev). cd_good ?C m"
    using ok by (auto simp: asks_def split: served_event.splits serve_event.splits)
  have cost: "int (msgs_cost ?C (served_asks True es)) + int (recv_window_size stB) < half_span"
    "int (msgs_cost ?C (served_asks False es)) + int (recv_window_size stA) < half_span" using assms(11,12) by simp_all
  have put: "cd_put ?C = (\<lambda>ch rb. rb\<lparr>rbc_channel := ch\<rparr>)" by (intro ext) simp
  from served.served_end_to_end [OF served.intro [OF queues bincode_laws.rbc_message_stream [OF laws]] A B assms(7-9) ok' cost,
      of n s n' s']
  show ?thesis unfolding put by (simp add: rbc_ops_def)
qed

theorem served_messages_delivered_witness:
  "\<exists>a A' B'. ReliableChannel_new nano_timer 100 small_settings = Some a \<and>
     served_run (rbc_ops byte_bincode) fifo_lib rbc_channel (\<lambda>ch rb. rb\<lparr>rbc_channel := ch\<rparr>) nano_timer nano_timer (\<lambda>_ ks. ks)
       (serve_start (channel_set_new fifo_lib 4 ()) (ReliableBincodeChannel_new a))
       (serve_start (channel_set_new fifo_lib 4 ()) (ReliableBincodeChannel_new a))
       [(True, Serve (Ask_send 7)), (True, Serve Ask_flush), (True, Serve (Task_poll () Flush_branch)),
        (True, Serve (Task_poll () Flush_branch)), (True, Serve (Task_poll () Flush_branch)),
        (True, Serve_round (Can_send 0)), (False, Serve_round (Packet_arrives 0)),
        (False, Serve (Task_poll () Incoming_branch)), (False, Serve Ask_recv)] = Some (A', B') \<and>
     (\<forall>e. ct_pc (sr_task A') \<noteq> Ended e) \<and> prefix (sr_received B') (sr_asked A')"
proof -
  let ?es = "[(True, Serve (Ask_send 7)), (True, Serve Ask_flush), (True, Serve (Task_poll () Flush_branch)),
        (True, Serve (Task_poll () Flush_branch)), (True, Serve (Task_poll () Flush_branch)),
        (True, Serve_round (Can_send 0)), (False, Serve_round (Packet_arrives 0)),
        (False, Serve (Task_poll () Incoming_branch)), (False, Serve Ask_recv)] :: (bool \<times> (byte, unit) served_event) list"
  obtain a where a: "ReliableChannel_new nano_timer 100 small_settings = Some a" using small_channel by blast
  have vis: "visits_entries (\<lambda>_ ks. ks)" by (simp add: visits_entries_def)
  have ok: "\<forall>side m. (side, Serve (Ask_send m)) \<in> set ?es \<longrightarrow> rbc_serializes byte_bincode m"
    by (simp add: rbc_serializes_def byte_bincode_def RB_MAX_MESSAGE_LEN_def u16_max_def)
  have cost: "int (length (rbc_stream byte_bincode (served_asks True ?es))) + int (recv_window_size small_settings) < half_span"
    "int (length (rbc_stream byte_bincode (served_asks False ?es))) + int (recv_window_size small_settings) < half_span"
    by (simp_all add: rbc_encode_def byte_bincode_def RB_MAX_MESSAGE_LEN_def u16_max_def small_settings_def)
  from served_messages_delivered [OF fifo.spsc_laws_axioms byte_bincode.bincode_laws_axioms a small_settings_ok a small_settings_ok
      nano_timer_monotonic nano_timer_monotonic vis ok cost, of 4 "()" 4 "()"] a
  show ?thesis by blast
qed

end
