(* ===== verification/Message_Channels.thy ===== *)
theory Message_Channels
  imports Served_Network Packet_Multiplexer Typed_Channels
begin

text \<open>
  Message channels by type (\<open>message_channels.rs\<close>): the builder, the tasks it starts, and the handle the
  application uses.

  A message type is named by its \<open>TypeId\<close>, the type parameter \<open>'t\<close>. The messages of all types are of one
  type \<open>'m\<close> here, and a \<open>Box<dyn Any>\<close> is a value with the id of its type, so that a downcast compares ids
  and its \<open>unwrap\<close> can fail. The tasks of all types run in one future, which ends with the first task
  that ends; the queues are shared between a task and the handle, so they stand in the map of the handle.
\<close>

datatype message_channel_mode =
    Mode_unreliable uc_settings | Mode_reliable rel_settings | Mode_compressed rel_settings

record message_channel_settings =
  ms_channel :: packet_channel
  ms_channel_mode :: message_channel_mode
  ms_message_buffer_size :: nat
  ms_packet_buffer_size :: nat

datatype channel_already_registered = Registered_message_type | Registered_channel

subsection \<open>The builder\<close>

record 't builder =
  mb_channels :: "packet_channel set"
  mb_register_fns :: "'t \<rightharpoonup> message_channel_settings"

definition MessageChannelsBuilder_new :: "'t builder" where
  "MessageChannelsBuilder_new = \<lparr>mb_channels = {}, mb_register_fns = Map.empty\<rparr>"

definition register ::
  "'t \<Rightarrow> message_channel_settings \<Rightarrow> 't builder \<Rightarrow> 't builder \<times> (channel_already_registered + unit)" where
  "register M st mb =
     (if ms_channel st \<in> mb_channels mb then (mb, Inl Registered_channel)
      else let mb = mb\<lparr>mb_channels := insert (ms_channel st) (mb_channels mb)\<rparr>
        in case mb_register_fns mb M of
             Some _ \<Rightarrow> (mb, Inl Registered_message_type)
           | None \<Rightarrow> (mb\<lparr>mb_register_fns := (mb_register_fns mb)(M \<mapsto> st)\<rparr>, Inr ()))"

subsection \<open>Channels by type\<close>

datatype 't unregistered = MessageTypeUnregistered 't

type_synonym ('t, 'q, 'w, 'm) channels_map = "'t \<rightharpoonup> 't \<times> ('q, 'w, 'm, packet_channel) channel_set"

text \<open>The new map, and whether the type was new.\<close>

definition ChannelsMap_insert ::
  "'t \<Rightarrow> ('q, 'w, 'm, packet_channel) channel_set \<Rightarrow> ('t, 'q, 'w, 'm) channels_map \<Rightarrow> ('t, 'q, 'w, 'm) channels_map \<times> bool" where
  "ChannelsMap_insert M cs chs = (chs(M \<mapsto> (M, cs)), chs M = None)"

definition ChannelsMap_get ::
  "'t \<Rightarrow> ('t, 'q, 'w, 'm) channels_map \<Rightarrow> ('t unregistered + ('q, 'w, 'm, packet_channel) channel_set) option" where
  "ChannelsMap_get M chs =
     (case chs M of
        None \<Rightarrow> Some (Inl (MessageTypeUnregistered M))
      | Some (tag, cs) \<Rightarrow> if tag = M then Some (Inr cs) else None)"

text \<open>Writing back through the reference that \<open>get_mut\<close> returned.\<close>

definition put_channel_set ::
  "'t \<Rightarrow> ('q, 'w, 'm, packet_channel) channel_set \<Rightarrow> ('t, 'q, 'w, 'm) channels_map \<Rightarrow> ('t, 'q, 'w, 'm) channels_map" where
  "put_channel_set M cs chs = chs(M \<mapsto> (M, cs))"

text \<open>The channel of a task, by the mode of its settings.\<close>

datatype ('p, 'w, 'i) typed_channel =
    Unreliable_typed "('p, 'w, 'i) utc"
  | Reliable_typed "'i rtc"
  | Compressed_typed "'i ctc"

definition typed_channel_new ::
  "'i timer \<Rightarrow> nat \<Rightarrow> message_channel_mode \<Rightarrow> ('p, 'w) mux_channel \<Rightarrow> ('p, 'w, 'i) typed_channel option" where
  "typed_channel_new tm cap mode mc = do {
     cap \<leftarrow> MuxPacketPool_capacity cap;
     (case mode of
        Mode_unreliable st \<Rightarrow>
          Some (Unreliable_typed (UnreliableTypedChannel_new (UnreliableChannel_new tm cap st (mc_outgoing mc) (mc_incoming mc))))
      | Mode_reliable st \<Rightarrow> do { ch \<leftarrow> ReliableChannel_new tm cap st; Some (Reliable_typed (ReliableTypedChannel_new ch)) }
      | Mode_compressed st \<Rightarrow> do { ch \<leftarrow> ReliableChannel_new tm cap st; Some (Compressed_typed (CompressedTypedChannel_new ch)) })
   }"

definition register_message_type ::
  "('p, 'w, byte list, 'k) spsc_lib \<Rightarrow> ('q, 'w, 'm, 'k) spsc_lib \<Rightarrow> 'i timer \<Rightarrow> nat \<Rightarrow> 't \<Rightarrow> message_channel_settings \<Rightarrow>
   ('p, 'w) multiplexer \<Rightarrow> ('t, 'q, 'w, 'm) channels_map \<Rightarrow>
   (('p, 'w) multiplexer \<times> ('t, 'q, 'w, 'm) channels_map \<times> (('p, 'w, 'i) typed_channel, 'm, 'e) channel_task) option" where
  "register_message_type P L tm cap M st mx chs = do {
     let cs = channel_set_new L (ms_message_buffer_size st) (ms_channel st);
     let (mx, r) = open_channel P (ms_channel st) (ms_packet_buffer_size st) mx;
     assert_that (r = Inr ());
     mc \<leftarrow> mx_channels mx (ms_channel st);
     ch \<leftarrow> typed_channel_new tm cap (ms_channel_mode st) mc;
     Some (mx, fst (ChannelsMap_insert M cs chs), channel_task_new ch)
   }"

subsection \<open>Building\<close>

datatype ('t, 'e) channel_task_error = No_channel_tasks | Task_failed 't "'e task_error"

record ('t, 'q, 'w, 'm) message_channels =
  mcs_disconnected :: bool
  mcs_channels :: "('t, 'q, 'w, 'm) channels_map"

text \<open>The spawned future: the tasks that run, and what it returned.\<close>

record ('t, 'c, 'm, 'e) channel_tasks =
  tk_tasks :: "('t \<times> ('c, 'm, 'e) channel_task) list"
  tk_result :: "('t, 'e) channel_task_error option"

text \<open>The loop over \<open>register_fns\<close>; \<open>order\<close> is the order in which the hash map is visited.\<close>

fun build_tasks ::
  "('p, 'w, byte list, 'k) spsc_lib \<Rightarrow> ('q, 'w, 'm, 'k) spsc_lib \<Rightarrow> 'i timer \<Rightarrow> nat \<Rightarrow> ('t \<times> message_channel_settings) list \<Rightarrow>
   ('p, 'w) multiplexer \<Rightarrow> ('t, 'q, 'w, 'm) channels_map \<Rightarrow>
   (('p, 'w) multiplexer \<times> ('t, 'q, 'w, 'm) channels_map \<times> ('t \<times> (('p, 'w, 'i) typed_channel, 'm, 'e) channel_task) list) option" where
  "build_tasks P L tm cap [] mx chs = Some (mx, chs, [])"
| "build_tasks P L tm cap ((M, st) # order) mx chs = do {
     (mx, chs, ct) \<leftarrow> register_message_type P L tm cap M st mx chs;
     (mx, chs, cts) \<leftarrow> build_tasks P L tm cap order mx chs;
     Some (mx, chs, (M, ct) # cts)
   }"

definition build ::
  "('p, 'w, byte list, 'k) spsc_lib \<Rightarrow> ('q, 'w, 'm, 'k) spsc_lib \<Rightarrow> 'i timer \<Rightarrow> nat \<Rightarrow> 't list \<Rightarrow> 't builder \<Rightarrow>
   ('p, 'w) multiplexer \<Rightarrow>
   (('p, 'w) multiplexer \<times> ('t, 'q, 'w, 'm) message_channels \<times> ('t, ('p, 'w, 'i) typed_channel, 'm, 'e) channel_tasks) option" where
  "build P L tm cap order mb mx = do {
     (mx, chs, cts) \<leftarrow> build_tasks P L tm cap (map (\<lambda>M. (M, the (mb_register_fns mb M))) order) mx Map.empty;
     Some (mx, \<lparr>mcs_disconnected = False, mcs_channels = chs\<rparr>, \<lparr>tk_tasks = cts, tk_result = None\<rparr>)
   }"

subsection \<open>The handle\<close>

definition is_connected :: "('t, 'q, 'w, 'm) message_channels \<Rightarrow> bool" where
  "is_connected mcs \<longleftrightarrow> \<not> mcs_disconnected mcs"

definition MessageChannels_try_send ::
  "('q, 'w, 'm, 'k) spsc_lib \<Rightarrow> 't \<Rightarrow> 'm \<Rightarrow> ('t, 'q, 'w, 'm) message_channels \<Rightarrow>
   (('t, 'q, 'w, 'm) message_channels \<times> ('t unregistered + 'm option)) option" where
  "MessageChannels_try_send L M message mcs = do {
     r \<leftarrow> ChannelsMap_get M (mcs_channels mcs);
     (case r of
        Inl e \<Rightarrow> Some (mcs, Inl e)
      | Inr channels \<Rightarrow>
          if mcs_disconnected mcs then Some (mcs, Inr (Some message))
          else case Sender_try_send L (cs_outgoing channels) message of
            (s, r) \<Rightarrow>
              (let mcs = mcs\<lparr>mcs_channels := put_channel_set M (channels\<lparr>cs_outgoing := s\<rparr>) (mcs_channels mcs)\<rparr>
               in case r of
                    Inl (Disconnected_send m) \<Rightarrow> Some (mcs\<lparr>mcs_disconnected := True\<rparr>, Inr (Some m))
                  | Inl (Full m) \<Rightarrow> Some (mcs, Inr (Some m))
                  | Inr _ \<Rightarrow> Some (mcs, Inr None)))
   }"

definition MessageChannels_try_flush ::
  "('q, 'w, 'm, 'k) spsc_lib \<Rightarrow> 't \<Rightarrow> ('t, 'q, 'w, 'm) message_channels \<Rightarrow>
   (('t, 'q, 'w, 'm) message_channels \<times> ('t unregistered + unit)) option" where
  "MessageChannels_try_flush L M mcs = do {
     r \<leftarrow> ChannelsMap_get M (mcs_channels mcs);
     (case r of
        Inl e \<Rightarrow> Some (mcs, Inl e)
      | Inr channels \<Rightarrow>
          Some (mcs\<lparr>mcs_channels := put_channel_set M (channels\<lparr>cs_flush := Sender_signal L (cs_flush channels)\<rparr>) (mcs_channels mcs)\<rparr>,
            Inr ()))
   }"

definition MessageChannels_try_recv ::
  "('q, 'w, 'm, 'k) spsc_lib \<Rightarrow> 't \<Rightarrow> ('t, 'q, 'w, 'm) message_channels \<Rightarrow>
   (('t, 'q, 'w, 'm) message_channels \<times> ('t unregistered + 'm option)) option" where
  "MessageChannels_try_recv L M mcs = do {
     r \<leftarrow> ChannelsMap_get M (mcs_channels mcs);
     (case r of
        Inl e \<Rightarrow> Some (mcs, Inl e)
      | Inr channels \<Rightarrow>
          if mcs_disconnected mcs then Some (mcs, Inr None)
          else case Receiver_try_recv L (cs_incoming channels) of
            (s, r) \<Rightarrow>
              (let mcs = mcs\<lparr>mcs_channels := put_channel_set M (channels\<lparr>cs_incoming := s\<rparr>) (mcs_channels mcs)\<rparr>
               in case r of
                    Inr msg \<Rightarrow> Some (mcs, Inr (Some msg))
                  | Inl Disconnected_recv \<Rightarrow> Some (mcs\<lparr>mcs_disconnected := True\<rparr>, Inr None)
                  | Inl Empty \<Rightarrow> Some (mcs, Inr None)))
   }"

text \<open>\<open>send\<close>, \<open>flush\<close> and \<open>recv\<close> unwrap the result, so they panic for a type that is not registered.\<close>

definition unwrap :: "('a \<times> ('e + 'b)) option \<Rightarrow> ('a \<times> 'b) option" where
  "unwrap r = do { (a, x) \<leftarrow> r; (case x of Inl e \<Rightarrow> None | Inr b \<Rightarrow> Some (a, b)) }"

definition MessageChannels_send ::
  "('q, 'w, 'm, 'k) spsc_lib \<Rightarrow> 't \<Rightarrow> 'm \<Rightarrow> ('t, 'q, 'w, 'm) message_channels \<Rightarrow>
   (('t, 'q, 'w, 'm) message_channels \<times> 'm option) option" where
  "MessageChannels_send L M message mcs = unwrap (MessageChannels_try_send L M message mcs)"

definition MessageChannels_flush ::
  "('q, 'w, 'm, 'k) spsc_lib \<Rightarrow> 't \<Rightarrow> ('t, 'q, 'w, 'm) message_channels \<Rightarrow> (('t, 'q, 'w, 'm) message_channels \<times> unit) option" where
  "MessageChannels_flush L M mcs = unwrap (MessageChannels_try_flush L M mcs)"

definition MessageChannels_recv ::
  "('q, 'w, 'm, 'k) spsc_lib \<Rightarrow> 't \<Rightarrow> ('t, 'q, 'w, 'm) message_channels \<Rightarrow>
   (('t, 'q, 'w, 'm) message_channels \<times> 'm option) option" where
  "MessageChannels_recv L M mcs = unwrap (MessageChannels_try_recv L M mcs)"

text \<open>
  The statistics are shared with the multiplexer; the channel set holds the number of its channel.
\<close>

definition MessageChannels_try_statistics ::
  "'t \<Rightarrow> ('p, 'w) multiplexer \<Rightarrow> ('t, 'q, 'w, 'm) message_channels \<Rightarrow> ('t unregistered + channel_statistics) option" where
  "MessageChannels_try_statistics M mx mcs = do {
     r \<leftarrow> ChannelsMap_get M (mcs_channels mcs);
     (case r of
        Inl e \<Rightarrow> Some (Inl e)
      | Inr channels \<Rightarrow> do { mc \<leftarrow> mx_channels mx (cs_statistics channels); Some (Inr (mc_statistics mc)) })
   }"

definition MessageChannels_statistics ::
  "'t \<Rightarrow> ('p, 'w) multiplexer \<Rightarrow> ('t, 'q, 'w, 'm) message_channels \<Rightarrow> channel_statistics option" where
  "MessageChannels_statistics M mx mcs = do {
     r \<leftarrow> MessageChannels_try_statistics M mx mcs;
     (case r of Inl e \<Rightarrow> None | Inr st \<Rightarrow> Some st)
   }"

subsection \<open>Asynchronous use of the handle\<close>

datatype 't try_async_error = Async_unregistered 't | Async_disconnected

text \<open>
  A poll of \<open>SinkExt::send\<close>: while the item is there, wait for room and hand it over; then flush. A poll of
  \<open>try_async_send\<close> looks the type up again, which changes nothing, since the future borrows the handle.
\<close>

definition poll_sink_send ::
  "('q, 'w, 'm, 'k) spsc_lib \<Rightarrow> 'k \<Rightarrow> 'm option \<Rightarrow> ('q, 'w, 'm) spsc \<Rightarrow>
   (('q, 'w, 'm) spsc \<times> 'm option \<times> (spsc_error + unit) poll) option" where
  "poll_sink_send L cx item s = do {
     (s, item, r) \<leftarrow> (case item of
         None \<Rightarrow> Some (s, None, Ready (Inr ()))
       | Some m \<Rightarrow>
           (case Sender_poll_ready L id id cx s of
              (s, Ready (Inr _)) \<Rightarrow> do { s \<leftarrow> Sender_start_send s m; Some (s, None, Ready (Inr ())) }
            | (s, r) \<Rightarrow> Some (s, Some m, r)));
     (case r of
        Ready (Inr _) \<Rightarrow> (case Sender_poll_flush L id id cx s of (s, r) \<Rightarrow> Some (s, item, r))
      | _ \<Rightarrow> Some (s, item, r))
   }"

definition MessageChannels_poll_async_send ::
  "('q, 'w, 'm, 'k) spsc_lib \<Rightarrow> 'k \<Rightarrow> 't \<Rightarrow> 'm option \<Rightarrow> ('t, 'q, 'w, 'm) message_channels \<Rightarrow>
   (('t, 'q, 'w, 'm) message_channels \<times> 'm option \<times> ('t try_async_error + unit) poll) option" where
  "MessageChannels_poll_async_send L cx M item mcs = do {
     r \<leftarrow> ChannelsMap_get M (mcs_channels mcs);
     (case r of
        Inl _ \<Rightarrow> Some (mcs, item, Ready (Inl (Async_unregistered M)))
      | Inr channels \<Rightarrow>
          if mcs_disconnected mcs then Some (mcs, item, Ready (Inl Async_disconnected))
          else do {
            (s, item, res) \<leftarrow> poll_sink_send L cx item (cs_outgoing channels);
            let mcs = mcs\<lparr>mcs_channels := put_channel_set M (channels\<lparr>cs_outgoing := s\<rparr>) (mcs_channels mcs)\<rparr>;
            (case res of
               Pending \<Rightarrow> Some (mcs, item, Pending)
             | Ready (Inl _) \<Rightarrow> Some (mcs\<lparr>mcs_disconnected := True\<rparr>, item, Ready (Inl Async_disconnected))
             | Ready (Inr _) \<Rightarrow> Some (mcs, item, Ready (Inr ())))
          })
   }"

definition MessageChannels_poll_async_recv ::
  "('q, 'w, 'm, 'k) spsc_lib \<Rightarrow> 'k \<Rightarrow> 't \<Rightarrow> ('t, 'q, 'w, 'm) message_channels \<Rightarrow>
   (('t, 'q, 'w, 'm) message_channels \<times> ('t try_async_error + 'm) poll) option" where
  "MessageChannels_poll_async_recv L cx M mcs = do {
     r \<leftarrow> ChannelsMap_get M (mcs_channels mcs);
     (case r of
        Inl _ \<Rightarrow> Some (mcs, Ready (Inl (Async_unregistered M)))
      | Inr channels \<Rightarrow>
          if mcs_disconnected mcs then Some (mcs, Ready (Inl Async_disconnected))
          else case Receiver_poll_next L id id cx (cs_incoming channels) of
            (s, r) \<Rightarrow>
              (let mcs = mcs\<lparr>mcs_channels := put_channel_set M (channels\<lparr>cs_incoming := s\<rparr>) (mcs_channels mcs)\<rparr>
               in case r of
                    Pending \<Rightarrow> Some (mcs, Pending)
                  | Ready (Some message) \<Rightarrow> Some (mcs, Ready (Inr message))
                  | Ready None \<Rightarrow> Some (mcs\<lparr>mcs_disconnected := True\<rparr>, Ready (Inl Async_disconnected))))
   }"

text \<open>\<open>async_send\<close> and \<open>async_recv\<close> panic for a type that is not registered.\<close>

definition MessageChannels_async_send ::
  "('q, 'w, 'm, 'k) spsc_lib \<Rightarrow> 'k \<Rightarrow> 't \<Rightarrow> 'm option \<Rightarrow> ('t, 'q, 'w, 'm) message_channels \<Rightarrow>
   (('t, 'q, 'w, 'm) message_channels \<times> 'm option \<times> ('t try_async_error + unit) poll) option" where
  "MessageChannels_async_send L cx M item mcs = do {
     (mcs, item, r) \<leftarrow> MessageChannels_poll_async_send L cx M item mcs;
     (case r of Ready (Inl (Async_unregistered _)) \<Rightarrow> None | _ \<Rightarrow> Some (mcs, item, r))
   }"

definition MessageChannels_async_recv ::
  "('q, 'w, 'm, 'k) spsc_lib \<Rightarrow> 'k \<Rightarrow> 't \<Rightarrow> ('t, 'q, 'w, 'm) message_channels \<Rightarrow>
   (('t, 'q, 'w, 'm) message_channels \<times> ('t try_async_error + 'm) poll) option" where
  "MessageChannels_async_recv L cx M mcs = do {
     (mcs, r) \<leftarrow> MessageChannels_poll_async_recv L cx M mcs;
     (case r of Ready (Inl (Async_unregistered _)) \<Rightarrow> None | _ \<Rightarrow> Some (mcs, r))
   }"

subsection \<open>The future of the tasks\<close>

text \<open>
  When a task ends, the future ends with its error and drops all the tasks, and with them their ends of
  the queues.
\<close>

definition drop_task_ends :: "('q, 'w, 'm, 'k) spsc_lib \<Rightarrow> ('q, 'w, 'm, 's) channel_set \<Rightarrow> ('q, 'w, 'm, 's) channel_set" where
  "drop_task_ends L cs = cs\<lparr>cs_outgoing := Receiver_drop_fields L (Receiver_drop L (cs_outgoing cs)),
     cs_incoming := Sender_drop_fields L (Sender_drop L (cs_incoming cs))\<rparr>"

definition drop_all_tasks :: "('q, 'w, 'm, 'k) spsc_lib \<Rightarrow> 't list \<Rightarrow> ('t, 'q, 'w, 'm) channels_map \<Rightarrow> ('t, 'q, 'w, 'm) channels_map" where
  "drop_all_tasks L Ms chs = (\<lambda>M. map_option (apsnd (if M \<in> set Ms then drop_task_ends L else id)) (chs M))"

text \<open>One step of the task at position \<open>i\<close>; a position without a task is a poll that finds nothing to do.\<close>

definition tasks_step ::
  "('c, 'm, 'e) message_channel \<Rightarrow> ('q, 'w, 'm, 'k) spsc_lib \<Rightarrow> 'k \<Rightarrow> nat \<Rightarrow> select_branch \<Rightarrow>
   ('t, 'q, 'w, 'm) channels_map \<times> ('t, 'c, 'm, 'e) channel_tasks \<Rightarrow>
   (('t, 'q, 'w, 'm) channels_map \<times> ('t, 'c, 'm, 'e) channel_tasks) option" where
  "tasks_step T L cx i branch s = (case s of (chs, tk) \<Rightarrow>
     if tk_result tk \<noteq> None \<or> tk_tasks tk \<noteq> [] \<and> length (tk_tasks tk) \<le> i then Some (chs, tk)
     else if tk_tasks tk = [] then Some (chs, tk\<lparr>tk_result := Some No_channel_tasks\<rparr>)
     else do {
       let (M, ct) = tk_tasks tk ! i;
       (tag, cs) \<leftarrow> chs M;
       (cs, ct) \<leftarrow> channel_task_step T L cx branch (cs, ct);
       let chs = chs(M \<mapsto> (tag, cs));
       (case ct_pc ct of
          Ended e \<Rightarrow> Some (drop_all_tasks L (map fst (tk_tasks tk)) chs, \<lparr>tk_tasks = [], tk_result = Some (Task_failed M e)\<rparr>)
        | _ \<Rightarrow> Some (chs, tk\<lparr>tk_tasks := (tk_tasks tk)[i := (M, ct)]\<rparr>))
     })"

text \<open>
  \<open>recv_err\<close> drops the map, and with it the ends of the handle, and waits for the result of the future.
\<close>

definition drop_handle_ends :: "('q, 'w, 'm, 'k) spsc_lib \<Rightarrow> ('q, 'w, 'm, 's) channel_set \<Rightarrow> ('q, 'w, 'm, 's) channel_set" where
  "drop_handle_ends L cs = cs\<lparr>cs_outgoing := Sender_drop_fields L (Sender_drop L (cs_outgoing cs)),
     cs_incoming := Receiver_drop_fields L (Receiver_drop L (cs_incoming cs))\<rparr>"

definition MessageChannels_recv_err ::
  "('q, 'w, 'm, 'k) spsc_lib \<Rightarrow> ('t, 'q, 'w, 'm) message_channels \<Rightarrow> ('t, 'q, 'w, 'm) channels_map" where
  "MessageChannels_recv_err L mcs = (\<lambda>M. map_option (apsnd (drop_handle_ends L)) (mcs_channels mcs M))"

text \<open>The operations of a task's channel, by its mode.\<close>

datatype ('e, 'x) typed_error = Unreliable_failed "'e ubc_task_error" | Reliable_failed "'e rbc_error" | Compressed_failed "('e, 'x) cbc_error"

definition lift_poll :: "('a \<Rightarrow> 'c) \<Rightarrow> ('e \<Rightarrow> 'f) \<Rightarrow> ('a \<times> ('e + 'b) poll) option \<Rightarrow> ('c \<times> ('f + 'b) poll) option" where
  "lift_poll con err = map_option (map_prod con (map_poll (map_sum err id)))"

definition typed_ops ::
  "('m, 'e) bincode \<Rightarrow> 'x snap \<Rightarrow> ('p, 'w, 'k) packet_lib \<Rightarrow> 'i timer \<Rightarrow> bool \<Rightarrow> 'k \<Rightarrow>
   (('p, 'w, 'i) typed_channel, 'm, ('e, 'x) typed_error) message_channel" where
  "typed_ops B S P tm slept cx =
     (let u = utc_ops B P tm slept cx; r = rtc_ops B; c = ctc_ops B S in \<lparr>
      mc_poll_recv = (\<lambda>ch. case ch of
          Unreliable_typed ub \<Rightarrow> lift_poll Unreliable_typed Unreliable_failed (mc_poll_recv u ub)
        | Reliable_typed rb \<Rightarrow> lift_poll Reliable_typed Reliable_failed (mc_poll_recv r rb)
        | Compressed_typed cb \<Rightarrow> lift_poll Compressed_typed Compressed_failed (mc_poll_recv c cb)),
      mc_poll_send = (\<lambda>m ch. case ch of
          Unreliable_typed ub \<Rightarrow> lift_poll Unreliable_typed Unreliable_failed (mc_poll_send u m ub)
        | Reliable_typed rb \<Rightarrow> lift_poll Reliable_typed Reliable_failed (mc_poll_send r m rb)
        | Compressed_typed cb \<Rightarrow> lift_poll Compressed_typed Compressed_failed (mc_poll_send c m cb)),
      mc_poll_flush = (\<lambda>ch. case ch of
          Unreliable_typed ub \<Rightarrow> lift_poll Unreliable_typed Unreliable_failed (mc_poll_flush u ub)
        | Reliable_typed rb \<Rightarrow> lift_poll Reliable_typed Reliable_failed (mc_poll_flush r rb)
        | Compressed_typed cb \<Rightarrow> lift_poll Compressed_typed Compressed_failed (mc_poll_flush c cb))\<rparr>)"

subsection \<open>Registration\<close>

text \<open>Distinct types have distinct channels.\<close>

definition builder_ok :: "'t builder \<Rightarrow> bool" where
  "builder_ok mb \<longleftrightarrow> (\<forall>M st. mb_register_fns mb M = Some st \<longrightarrow> ms_channel st \<in> mb_channels mb) \<and>
     (\<forall>M M' st st'. mb_register_fns mb M = Some st \<and> mb_register_fns mb M' = Some st' \<and> ms_channel st = ms_channel st' \<longrightarrow> M = M')"

definition register_all :: "('t \<times> message_channel_settings) list \<Rightarrow> 't builder \<Rightarrow> 't builder" where
  "register_all regs mb = fold (\<lambda>(M, st) mb. fst (register M st mb)) regs mb"

lemma register_ok: "builder_ok mb \<Longrightarrow> builder_ok (fst (register M st mb))"
  unfolding builder_ok_def register_def by (auto simp: Let_def split: option.splits if_splits) (metis+)?

text \<open>A registration that fails for its type takes the number of its channel with it.\<close>

lemma register_uses_up_channel:
  assumes "mb_register_fns mb M = Some st0" and "ms_channel st \<notin> mb_channels mb" and "ms_channel st' = ms_channel st"
  shows "snd (register M st mb) = Inl Registered_message_type"
    and "register M' st' (fst (register M st mb)) = (fst (register M st mb), Inl Registered_channel)"
  using assms by (simp_all add: register_def Let_def)

lemma register_all_ok: "builder_ok mb \<Longrightarrow> builder_ok (register_all regs mb)"
  unfolding register_all_def by (induction regs arbitrary: mb) (auto simp: register_ok split: prod.splits)

lemma register_type_opens:
  fixes P :: "('p, 'w, byte list, 'k) spsc_lib"
  assumes "mx_channels mx (ms_channel st) = None" and "\<And>mc :: ('p, 'w) mux_channel. \<exists>ch. typed_channel_new tm cap (ms_channel_mode st) mc = Some ch"
  shows "\<exists>mc ct. register_message_type P L tm cap M st mx chs =
     Some (mx\<lparr>mx_channels := (mx_channels mx)(ms_channel st \<mapsto> mc)\<rparr>,
       chs(M \<mapsto> (M, channel_set_new L (ms_message_buffer_size st) (ms_channel st))), channel_task_new ct)"
proof -
  let ?n = "ms_packet_buffer_size st"
  let ?mc = "\<lparr>mc_incoming = spsc_channel P ?n, mc_outgoing = spsc_channel P ?n, mc_statistics = statistics_new\<rparr>"
  obtain ch where "typed_channel_new tm cap (ms_channel_mode st) ?mc = Some ch" using assms(2) by blast
  then show ?thesis
    by (intro exI [of _ ?mc] exI [of _ ch]) (simp add: register_message_type_def open_channel_def assms(1) ChannelsMap_insert_def)
qed

lemma build_tasks_returns:
  fixes P :: "('p, 'w, byte list, 'k) spsc_lib" and L :: "('q, 'w, 'm, 'k) spsc_lib" and tm :: "'i timer"
    and order :: "('t \<times> message_channel_settings) list"
  assumes "distinct (map fst order)" and "distinct (map (ms_channel \<circ> snd) order)"
    and "\<forall>(M, st)\<in>set order. mx_channels mx (ms_channel st) = None"
    and "\<forall>(M, st)\<in>set order. \<forall>mc. \<exists>ch. typed_channel_new tm cap (ms_channel_mode st) (mc :: ('p, 'w) mux_channel) = Some ch"
  shows "\<exists>mx' (cts :: ('t \<times> (('p, 'w, 'i) typed_channel, 'm, 'e) channel_task) list). build_tasks P L tm cap order mx chs =
       Some (mx', chs ++ map_of (map (\<lambda>(M, st). (M, (M, channel_set_new L (ms_message_buffer_size st) (ms_channel st)))) order), cts) \<and>
     map fst cts = map fst order \<and> (\<forall>(M, ct)\<in>set cts. ct_pc ct = Selecting) \<and>
     (\<forall>ch. mx_channels mx' ch = None \<longleftrightarrow> mx_channels mx ch = None \<and> ch \<notin> ms_channel ` snd ` set order)"
  using assms
proof (induction order arbitrary: mx chs)
  case (Cons x order)
  obtain M st where x: "x = (M, st)" by force
  have "mx_channels mx (ms_channel st) = None" "\<exists>ch. typed_channel_new tm cap (ms_channel_mode st) mc = Some ch"
    for mc :: "('p, 'w) mux_channel" using Cons.prems(3,4) x by auto
  from register_type_opens [OF this, of P L M chs] obtain mc ct where
    r: "register_message_type P L tm cap M st mx chs = Some (mx\<lparr>mx_channels := (mx_channels mx)(ms_channel st \<mapsto> mc)\<rparr>,
       chs(M \<mapsto> (M, channel_set_new L (ms_message_buffer_size st) (ms_channel st))), channel_task_new ct :: (('p, 'w, 'i) typed_channel, 'm, 'e) channel_task)" by blast
  let ?mx = "mx\<lparr>mx_channels := (mx_channels mx)(ms_channel st \<mapsto> mc)\<rparr>"
  let ?chs = "chs(M \<mapsto> (M, channel_set_new L (ms_message_buffer_size st) (ms_channel st)))"
  let ?new = "map_of (map (\<lambda>(M, st). (M, (M, channel_set_new L (ms_message_buffer_size st) (ms_channel st)))) order)"
  have closed: "\<forall>(M, st)\<in>set order. mx_channels ?mx (ms_channel st) = None" using Cons.prems(2,3) x by (force simp: image_iff)
  have pre: "distinct (map fst order)" "distinct (map (ms_channel \<circ> snd) order)"
    "\<forall>(M, st)\<in>set order. \<forall>mc :: ('p, 'w) mux_channel. \<exists>ch. typed_channel_new tm cap (ms_channel_mode st) mc = Some ch"
    using Cons.prems(1,2,4) by (simp_all add: comp_def)
  from Cons.IH [OF pre(1,2) closed pre(3), of ?chs] obtain mx'
    and cts :: "('t \<times> (('p, 'w, 'i) typed_channel, 'm, 'e) channel_task) list" where
    b: "build_tasks P L tm cap order ?mx ?chs = Some (mx', ?chs ++ ?new, cts)" "map fst cts = map fst order"
    "\<forall>(M, ct)\<in>set cts. ct_pc ct = Selecting"
    "\<forall>ch. mx_channels mx' ch = None \<longleftrightarrow> mx_channels ?mx ch = None \<and> ch \<notin> ms_channel ` snd ` set order"
    by blast
  have "M \<notin> dom ?new" using Cons.prems(1) x by (simp add: dom_map_of_conv_image_fst image_image case_prod_unfold)
  then have eq: "?chs ++ ?new = chs ++ map_of (map (\<lambda>(M, st). (M, (M, channel_set_new L (ms_message_buffer_size st) (ms_channel st)))) (x # order))"
    using x by (auto simp: map_add_def split: option.splits)
  let ?ct = "channel_task_new ct :: (('p, 'w, 'i) typed_channel, 'm, 'e) channel_task"
  show ?case
  proof (rule exI [of _ mx'], rule exI [of _ "(M, ?ct) # cts"], intro conjI)
    show "build_tasks P L tm cap (x # order) mx chs = Some (mx',
        chs ++ map_of (map (\<lambda>(M, st). (M, (M, channel_set_new L (ms_message_buffer_size st) (ms_channel st)))) (x # order)), (M, ?ct) # cts)"
      unfolding eq [symmetric] using r b(1) x by simp
    show "\<forall>(M, ct)\<in>set ((M, ?ct) # cts). ct_pc ct = Selecting" using b(3) by (simp add: channel_task_new_def)
    show "\<forall>ch. mx_channels mx' ch = None \<longleftrightarrow> mx_channels mx ch = None \<and> ch \<notin> ms_channel ` snd ` set (x # order)"
      using b(4) x by auto
  qed (use b(2) x in simp)
qed simp

subsection \<open>Runs of the handle\<close>

text \<open>The application uses the handle, and the future of the tasks is polled.\<close>

datatype ('t, 'm, 'k) handle_event = Handle_send 't 'm | Handle_flush 't | Handle_recv 't | Poll_tasks 'k nat select_branch

type_synonym ('t, 'q, 'w, 'm, 'c, 'e) handle_state = "('t, 'q, 'w, 'm) message_channels \<times> ('t, 'c, 'm, 'e) channel_tasks"

fun handle_step ::
  "('c, 'm, 'e) message_channel \<Rightarrow> ('q, 'w, 'm, 'k) spsc_lib \<Rightarrow> ('t, 'q, 'w, 'm, 'c, 'e) handle_state \<Rightarrow> ('t, 'm, 'k) handle_event \<Rightarrow>
   ('t, 'q, 'w, 'm, 'c, 'e) handle_state option" where
  "handle_step T L (mcs, tk) (Handle_send M m) = map_option (\<lambda>(mcs, r). (mcs, tk)) (MessageChannels_try_send L M m mcs)"
| "handle_step T L (mcs, tk) (Handle_flush M) = map_option (\<lambda>(mcs, r). (mcs, tk)) (MessageChannels_try_flush L M mcs)"
| "handle_step T L (mcs, tk) (Handle_recv M) = map_option (\<lambda>(mcs, r). (mcs, tk)) (MessageChannels_try_recv L M mcs)"
| "handle_step T L (mcs, tk) (Poll_tasks cx i branch) =
     map_option (\<lambda>(chs, tk). (mcs\<lparr>mcs_channels := chs\<rparr>, tk)) (tasks_step T L cx i branch (mcs_channels mcs, tk))"

fun handle_run ::
  "('c, 'm, 'e) message_channel \<Rightarrow> ('q, 'w, 'm, 'k) spsc_lib \<Rightarrow> ('t, 'q, 'w, 'm, 'c, 'e) handle_state \<Rightarrow> ('t, 'm, 'k) handle_event list \<Rightarrow>
   ('t, 'q, 'w, 'm, 'c, 'e) handle_state option" where
  "handle_run T L s [] = Some s"
| "handle_run T L s (e # es) = do { s \<leftarrow> handle_step T L s e; handle_run T L s es }"

text \<open>Both ends of the queues are there, or the ends of the task are gone.\<close>

definition live_set :: "('q \<Rightarrow> bool) \<Rightarrow> ('q \<Rightarrow> bool) \<Rightarrow> ('q, 'w, 'm, 's) channel_set \<Rightarrow> bool" where
  "live_set tx_gone rx_gone cs \<longleftrightarrow> \<not> tx_gone (sp_channel (cs_outgoing cs)) \<and> \<not> rx_gone (sp_channel (cs_outgoing cs)) \<and>
     \<not> tx_gone (sp_channel (cs_incoming cs)) \<and> \<not> rx_gone (sp_channel (cs_incoming cs)) \<and> sp_slot (cs_outgoing cs) = None"

definition dead_set :: "('q \<Rightarrow> bool) \<Rightarrow> ('q \<Rightarrow> bool) \<Rightarrow> ('q, 'w, 'm, 's) channel_set \<Rightarrow> bool" where
  "dead_set tx_gone rx_gone cs \<longleftrightarrow> rx_gone (sp_channel (cs_outgoing cs)) \<and> tx_gone (sp_channel (cs_incoming cs)) \<and>
     sp_slot (cs_outgoing cs) = None"

definition all_live :: "('q \<Rightarrow> bool) \<Rightarrow> ('q \<Rightarrow> bool) \<Rightarrow> ('t, 'q, 'w, 'm) channels_map \<Rightarrow> bool" where
  "all_live tx_gone rx_gone chs \<longleftrightarrow> (\<forall>M tag cs. chs M = Some (tag, cs) \<longrightarrow> tag = M \<and> live_set tx_gone rx_gone cs)"

definition handle_inv :: "('q \<Rightarrow> bool) \<Rightarrow> ('q \<Rightarrow> bool) \<Rightarrow> ('t, 'q, 'w, 'm, 'c, 'e) handle_state \<Rightarrow> bool" where
  "handle_inv tx_gone rx_gone s \<longleftrightarrow> (case s of (mcs, tk) \<Rightarrow>
     (\<forall>M tag cs. mcs_channels mcs M = Some (tag, cs) \<longrightarrow> tag = M \<and>
        (if tk_result tk = None then live_set tx_gone rx_gone cs else dead_set tx_gone rx_gone cs)) \<and>
     (tk_result tk = None \<longrightarrow> fst ` set (tk_tasks tk) = dom (mcs_channels mcs) \<and> \<not> mcs_disconnected mcs \<and>
        (\<forall>x\<in>set (tk_tasks tk). \<forall>e. ct_pc (snd x) \<noteq> Ended e)) \<and>
     (\<forall>M e. tk_result tk = Some (Task_failed M e) \<longrightarrow> (\<exists>x. e = Channel_error x)))"

context spsc_laws
begin

lemma poll_ready_ends:
  fixes cx :: 'k
  assumes "Sender_poll_ready L id id cx st = (st', r)" and "\<not> rx_gone (sp_channel st)"
  shows "tx_gone (sp_channel st') = tx_gone (sp_channel st)"
proof (cases "sp_slot st")
  case (Some t)
  then show ?thesis using assms
    by (cases rule: push_cases [of "st\<lparr>sp_slot := None\<rparr>" t]) (auto simp: poll_ready_quiet)
qed (use assms in \<open>auto simp: poll_ready_quiet\<close>)

lemma task_step_live:
  assumes live: "live_set tx_gone rx_gone cs" and step: "channel_task_step T L cx br (cs, ct) = Some (cs', ct')"
    and "\<forall>e. ct_pc ct \<noteq> Ended e"
  shows "live_set tx_gone rx_gone cs'" and "ct_pc ct' = Ended e \<Longrightarrow> \<exists>x. e = Channel_error x"
proof -
  have "live_set tx_gone rx_gone cs' \<and> (ct_pc ct' = Ended e \<longrightarrow> (\<exists>x. e = Channel_error x))"
  proof (cases "ct_pc ct")
    case Selecting
    show ?thesis
    proof (cases br)
      case Incoming_branch
      then have "channel_task_select T L cx Incoming_branch (cs, ct) = Some (cs', ct')"
        using step Selecting by (simp add: channel_task_step_def del: channel_task_select.simps)
      then show ?thesis using live Selecting by (cases rule: select_incoming_cases) auto
    next
      case Outgoing_branch
      then show ?thesis using step live Selecting
        by (cases rule: try_recv_cases [of "cs_outgoing cs"]) (auto simp: channel_task_step_def live_set_def poll_next_quiet)
    next
      case Flush_branch
      then show ?thesis using step live Selecting
        by (auto simp: channel_task_step_def live_set_def Receiver_wait_def swap_signaled_def wait_register_def split: bool.splits)
    qed
  next
    case (Delivering mo)
    obtain s r where p: "Sender_poll_ready L id id cx (cs_incoming cs) = (s, r)" by force
    have l: "\<not> rx_gone (sp_channel (cs_incoming cs))" using live by (simp add: live_set_def)
    from poll_ready_contents(2,3) [OF p l] poll_ready_live [OF p l] poll_ready_ends [OF p l] step live Delivering p show ?thesis
      by (cases mo) (auto simp: channel_task_step_def live_set_def Sender_poll_flush_def Sender_start_send_def)
  next
    case (Sending m)
    then have "task_await (mc_poll_send T m (ct_channel ct)) Selecting (cs, ct) = Some (cs', ct')"
      using step by (simp add: channel_task_step_def)
    then show ?thesis using live Sending by (cases rule: task_await_cases) auto
  next
    case Draining
    then show ?thesis using step live
      by (cases rule: try_recv_cases [of "cs_outgoing cs"]) (auto simp: channel_task_step_def live_set_def)
  next
    case (Flush_sending m)
    then have "task_await (mc_poll_send T m (ct_channel ct)) Draining (cs, ct) = Some (cs', ct')"
      using step by (simp add: channel_task_step_def)
    then show ?thesis using live Flush_sending by (cases rule: task_await_cases) auto
  next
    case Flushing
    then have "task_await (mc_poll_flush T (ct_channel ct)) Selecting (cs, ct) = Some (cs', ct')"
      using step by (simp add: channel_task_step_def)
    then show ?thesis using live Flushing by (cases rule: task_await_cases) auto
  next
    case (Ended e)
    then show ?thesis using assms(3) by simp
  qed
  then show "live_set tx_gone rx_gone cs'" "ct_pc ct' = Ended e \<Longrightarrow> \<exists>x. e = Channel_error x" by auto
qed

lemma drop_ends_dead: "live_set tx_gone rx_gone cs \<Longrightarrow> dead_set tx_gone rx_gone (drop_task_ends L cs)"
  by (simp add: live_set_def dead_set_def drop_task_ends_def Receiver_drop_def Receiver_drop_fields_def Sender_drop_def
      Sender_drop_fields_def drop_sender drop_receiver)

lemma handle_lookup:
  assumes "handle_inv tx_gone rx_gone (mcs, tk)"
  shows "ChannelsMap_get M (mcs_channels mcs) =
     Some (case mcs_channels mcs M of None \<Rightarrow> Inl (MessageTypeUnregistered M) | Some x \<Rightarrow> Inr (snd x))"
  using assms by (auto simp: ChannelsMap_get_def handle_inv_def split: option.splits prod.splits)

text \<open>Writing back a channel set keeps the invariant when the set stays alive, or stays dead.\<close>

lemma handle_put:
  assumes inv: "handle_inv tx_gone rx_gone (mcs, tk)" and M: "mcs_channels mcs M \<noteq> None"
    and "if tk_result tk = None then live_set tx_gone rx_gone cs else dead_set tx_gone rx_gone cs"
    and "d \<longrightarrow> tk_result tk \<noteq> None"
  shows "handle_inv tx_gone rx_gone (mcs\<lparr>mcs_channels := put_channel_set M cs (mcs_channels mcs), mcs_disconnected := d\<rparr>, tk)"
  using assms by (auto simp: handle_inv_def put_channel_set_def)

lemma handle_try_send_inv:
  assumes inv: "handle_inv tx_gone rx_gone (mcs, tk)"
  shows "\<exists>mcs' r. MessageChannels_try_send L M m mcs = Some (mcs', r) \<and> handle_inv tx_gone rx_gone (mcs', tk) \<and>
     (mcs_disconnected mcs \<longrightarrow> mcs_disconnected mcs') \<and>
     (tk_result tk \<noteq> None \<and> mcs_channels mcs M \<noteq> None \<longrightarrow> r = Inr (Some m) \<and> mcs_disconnected mcs')"
proof (cases "mcs_channels mcs M")
  case None
  then show ?thesis using inv handle_lookup [OF inv, of M] by (simp add: MessageChannels_try_send_def)
next
  case (Some x)
  let ?cs = "snd x"
  have s: "if tk_result tk = None then live_set tx_gone rx_gone ?cs else dead_set tx_gone rx_gone ?cs"
    using inv Some by (cases x) (auto simp: handle_inv_def)
  have look: "ChannelsMap_get M (mcs_channels mcs) = Some (Inr ?cs)" using handle_lookup [OF inv, of M] Some by simp
  show ?thesis
  proof (cases "mcs_disconnected mcs")
    case True
    then show ?thesis using look inv by (simp add: MessageChannels_try_send_def)
  next
    case False
    let ?put = "\<lambda>st. put_channel_set M (?cs\<lparr>cs_outgoing := st\<rparr>) (mcs_channels mcs)"
    have slot: "Sender_try_send L (cs_outgoing ?cs) m = Sender_push L (cs_outgoing ?cs) m"
      using s by (auto simp: Sender_try_send_def live_set_def dead_set_def split: if_splits)
    have put: "handle_inv tx_gone rx_gone (mcs\<lparr>mcs_channels := ?put st, mcs_disconnected := d\<rparr>, tk)"
      if "if tk_result tk = None then live_set tx_gone rx_gone (?cs\<lparr>cs_outgoing := st\<rparr>) else dead_set tx_gone rx_gone (?cs\<lparr>cs_outgoing := st\<rparr>)"
        "d \<longrightarrow> tk_result tk \<noteq> None" for st d
      using handle_put [OF inv _ that] Some by simp
    show ?thesis
    proof (cases rule: push_cases [of "cs_outgoing ?cs" m])
      case gone
      then have "tk_result tk \<noteq> None" using s by (auto simp: live_set_def split: if_splits)
      then show ?thesis using gone look False slot s put [of "cs_outgoing ?cs" True]
        by (simp add: MessageChannels_try_send_def Let_def)
    next
      case full
      then have "tk_result tk = None" using s by (auto simp: dead_set_def split: if_splits)
      then show ?thesis using full look False slot s put [of "cs_outgoing ?cs" False]
        by (cases mcs) (simp add: MessageChannels_try_send_def Let_def)
    next
      case (ok q)
      then have "tk_result tk = None" using s by (auto simp: dead_set_def split: if_splits)
      then show ?thesis using ok look False slot s
          put [of "(cs_outgoing ?cs)\<lparr>sp_channel := q, sp_recv_ready := aw_wake L (sp_recv_ready (cs_outgoing ?cs))\<rparr>" False]
        by (cases mcs) (simp add: MessageChannels_try_send_def Let_def live_set_def)
    qed
  qed
qed

lemma handle_try_recv_inv:
  assumes inv: "handle_inv tx_gone rx_gone (mcs, tk)"
  shows "\<exists>mcs' r. MessageChannels_try_recv L M mcs = Some (mcs', r) \<and> handle_inv tx_gone rx_gone (mcs', tk) \<and>
     (mcs_disconnected mcs \<longrightarrow> mcs_disconnected mcs') \<and>
     (tk_result tk \<noteq> None \<and> mcs_channels mcs M \<noteq> None \<and> r = Inr None \<longrightarrow> mcs_disconnected mcs')"
proof (cases "mcs_channels mcs M")
  case None
  then show ?thesis using inv handle_lookup [OF inv, of M] by (simp add: MessageChannels_try_recv_def)
next
  case (Some x)
  let ?cs = "snd x"
  have s: "if tk_result tk = None then live_set tx_gone rx_gone ?cs else dead_set tx_gone rx_gone ?cs"
    using inv Some by (cases x) (auto simp: handle_inv_def)
  have look: "ChannelsMap_get M (mcs_channels mcs) = Some (Inr ?cs)" using handle_lookup [OF inv, of M] Some by simp
  show ?thesis
  proof (cases "mcs_disconnected mcs")
    case True
    then show ?thesis using look inv by (simp add: MessageChannels_try_recv_def)
  next
    case False
    let ?put = "\<lambda>st. put_channel_set M (?cs\<lparr>cs_incoming := st\<rparr>) (mcs_channels mcs)"
    have put: "handle_inv tx_gone rx_gone (mcs\<lparr>mcs_channels := ?put st, mcs_disconnected := d\<rparr>, tk)"
      if "if tk_result tk = None then live_set tx_gone rx_gone (?cs\<lparr>cs_incoming := st\<rparr>) else dead_set tx_gone rx_gone (?cs\<lparr>cs_incoming := st\<rparr>)"
        "d \<longrightarrow> tk_result tk \<noteq> None" for st d
      using handle_put [OF inv _ that] Some by simp
    show ?thesis
    proof (cases rule: try_recv_cases [of "cs_incoming ?cs"])
      case (item t q)
      then show ?thesis using look False s
          put [of "(cs_incoming ?cs)\<lparr>sp_channel := q, sp_send_ready := aw_wake L (sp_send_ready (cs_incoming ?cs))\<rparr>" False]
        by (cases mcs) (auto simp: MessageChannels_try_recv_def Let_def live_set_def dead_set_def split: if_splits)
    next
      case empty
      then show ?thesis using look False s put [of "cs_incoming ?cs" True] put [of "cs_incoming ?cs" False]
        by (cases mcs; cases "tx_gone (sp_channel (cs_incoming ?cs))")
          (auto simp: MessageChannels_try_recv_def Let_def live_set_def dead_set_def split: if_splits)
    qed
  qed
qed

lemma handle_try_flush_inv:
  assumes inv: "handle_inv tx_gone rx_gone (mcs, tk)"
  shows "\<exists>mcs' r. MessageChannels_try_flush L M mcs = Some (mcs', r) \<and> handle_inv tx_gone rx_gone (mcs', tk) \<and>
     mcs_disconnected mcs' = mcs_disconnected mcs"
proof (cases "mcs_channels mcs M")
  case None
  then show ?thesis using inv handle_lookup [OF inv, of M] by (simp add: MessageChannels_try_flush_def)
next
  case (Some x)
  let ?cs = "(snd x)\<lparr>cs_flush := Sender_signal L (cs_flush (snd x))\<rparr>"
  have s: "if tk_result tk = None then live_set tx_gone rx_gone ?cs else dead_set tx_gone rx_gone ?cs"
    using inv Some by (cases x) (auto simp: handle_inv_def live_set_def dead_set_def)
  have "mcs_disconnected mcs \<longrightarrow> tk_result tk \<noteq> None" using inv by (auto simp: handle_inv_def)
  from handle_put [OF inv _ s this, of M] Some have
    "handle_inv tx_gone rx_gone (mcs\<lparr>mcs_channels := put_channel_set M ?cs (mcs_channels mcs)\<rparr>, tk)" by simp
  then show ?thesis using handle_lookup [OF inv, of M] Some by (simp add: MessageChannels_try_flush_def)
qed

text \<open>A poll of the tasks fails to return only when a message channel panics.\<close>

lemma tasks_step_returns:
  assumes inv: "handle_inv tx_gone rx_gone (mcs, tk)" and "tasks_step T L cx i br (mcs_channels mcs, tk) = None"
  shows "\<exists>c. mc_poll_recv T c = None \<or> (\<exists>m. mc_poll_send T m c = None) \<or> mc_poll_flush T c = None"
proof -
  have r: "tk_result tk = None" "i < length (tk_tasks tk)" using assms(2) by (auto simp: tasks_step_def split: if_splits)
  obtain M ct where x: "tk_tasks tk ! i = (M, ct)" by force
  have "M \<in> fst ` set (tk_tasks tk)" using r(2) x by (metis fst_conv image_eqI nth_mem)
  then obtain tag cs where cs: "mcs_channels mcs M = Some (tag, cs)" using inv r(1) by (auto simp: handle_inv_def)
  then have live: "live_set tx_gone rx_gone cs" using inv r(1) by (auto simp: handle_inv_def)
  have n: "channel_task_step T L cx br (cs, ct) = None"
    using assms(2) r x cs by (auto simp: tasks_step_def Let_def split: bind_splits prod.splits task_pc.splits if_splits)
  have l: "\<not> rx_gone (sp_channel (cs_incoming cs))" using live by (simp add: live_set_def)
  show ?thesis using channel_task_step_panics [OF l n] by blast
qed

lemma handle_tasks_inv:
  assumes inv: "handle_inv tx_gone rx_gone (mcs, tk)" and step: "tasks_step T L cx i br (mcs_channels mcs, tk) = Some (chs, tk')"
  shows "handle_inv tx_gone rx_gone (mcs\<lparr>mcs_channels := chs\<rparr>, tk')"
proof (cases "tk_result tk \<noteq> None \<or> length (tk_tasks tk) \<le> i")
  case True
  then show ?thesis using step inv by (auto simp: tasks_step_def handle_inv_def split: if_splits)
next
  case False
  then have r: "tk_result tk = None" "i < length (tk_tasks tk)" by simp_all
  obtain M ct where x: "tk_tasks tk ! i = (M, ct)" by force
  have mem: "(M, ct) \<in> set (tk_tasks tk)" using r(2) x by (metis nth_mem)
  have d: "fst ` set (tk_tasks tk) = dom (mcs_channels mcs)" "\<not> mcs_disconnected mcs"
    "\<forall>x\<in>set (tk_tasks tk). \<forall>e. ct_pc (snd x) \<noteq> Ended e"
    "\<And>M tag cs. mcs_channels mcs M = Some (tag, cs) \<Longrightarrow> tag = M \<and> live_set tx_gone rx_gone cs"
    using inv r(1) by (auto simp: handle_inv_def)
  have "M \<in> dom (mcs_channels mcs)" using d(1) mem by force
  then obtain cs where cs: "mcs_channels mcs M = Some (M, cs)" using d(4) by fastforce
  have run: "\<forall>e. ct_pc ct \<noteq> Ended e" using d(3) mem by auto
  obtain cs' ct' where s: "channel_task_step T L cx br (cs, ct) = Some (cs', ct')"
    using step r x cs by (auto simp: tasks_step_def Let_def option_bind_eq_Some split: if_splits)
  have live: "live_set tx_gone rx_gone cs'" and ended: "ct_pc ct' = Ended e \<Longrightarrow> \<exists>x. e = Channel_error x" for e
    using task_step_live [OF _ s run] d(4) cs by blast+
  have live': "live_set tx_gone rx_gone c" "tag = N" if "((mcs_channels mcs)(M \<mapsto> (M, cs'))) N = Some (tag, c)" for N tag c
    using that live d(4) by (auto split: if_splits)
  have dom: "dom ((mcs_channels mcs)(M \<mapsto> (M, cs'))) = fst ` set (tk_tasks tk)" using d(1) cs by auto
  show ?thesis
  proof (cases "\<exists>e. ct_pc ct' = Ended e")
    case True
    then obtain e where e: "ct_pc ct' = Ended e" by blast
    then have eq: "chs = drop_all_tasks L (map fst (tk_tasks tk)) ((mcs_channels mcs)(M \<mapsto> (M, cs')))"
      "tk' = \<lparr>tk_tasks = [], tk_result = Some (Task_failed M e)\<rparr>"
      using step r x cs s by (auto simp: tasks_step_def Let_def split: if_splits)
    have "tag = N \<and> dead_set tx_gone rx_gone c" if "chs N = Some (tag, c)" for N tag c
    proof -
      from that obtain c0 where c0: "((mcs_channels mcs)(M \<mapsto> (M, cs'))) N = Some (tag, c0)" unfolding eq(1) drop_all_tasks_def
        by (cases "((mcs_channels mcs)(M \<mapsto> (M, cs'))) N") auto
      then have "N \<in> set (map fst (tk_tasks tk))" using dom by (metis domI list.set_map)
      then have "c = drop_task_ends L c0" using that c0 unfolding eq(1) drop_all_tasks_def by simp
      then show ?thesis using live' [OF c0] drop_ends_dead by blast
    qed
    then show ?thesis using ended [OF e] by (simp add: handle_inv_def eq(2))
  next
    case False
    then have eq: "chs = (mcs_channels mcs)(M \<mapsto> (M, cs'))" "tk' = tk\<lparr>tk_tasks := (tk_tasks tk)[i := (M, ct')]\<rparr>"
      using step r x cs s by (auto simp: tasks_step_def Let_def split: if_splits task_pc.splits)
    have "map fst ((tk_tasks tk)[i := (M, ct')]) = map fst (tk_tasks tk)"
      using r(2) x by (metis fst_conv list_update_id map_update nth_map)
    then have "fst ` set ((tk_tasks tk)[i := (M, ct')]) = fst ` set (tk_tasks tk)" by (metis list.set_map)
    moreover have "\<forall>y\<in>set ((tk_tasks tk)[i := (M, ct')]). \<forall>e. ct_pc (snd y) \<noteq> Ended e"
      using d(3) False set_update_subset_insert by fastforce
    ultimately show ?thesis using live' r(1) d(2) dom by (auto simp: handle_inv_def eq simp del: fun_upd_apply)
  qed
qed

lemma handle_step_inv:
  assumes inv: "handle_inv tx_gone rx_gone s" and step: "handle_step T L s e = Some s'"
  shows "handle_inv tx_gone rx_gone s'" and "mcs_disconnected (fst s) \<Longrightarrow> mcs_disconnected (fst s')"
proof -
  obtain mcs tk where s: "s = (mcs, tk)" by force
  have inv: "handle_inv tx_gone rx_gone (mcs, tk)" using inv s by simp
  have "handle_inv tx_gone rx_gone s' \<and> (mcs_disconnected mcs \<longrightarrow> mcs_disconnected (fst s'))"
  proof (cases e)
    case (Handle_send M m)
    then show ?thesis using handle_try_send_inv [OF inv, of M m] step s by auto
  next
    case (Handle_flush M)
    then show ?thesis using handle_try_flush_inv [OF inv, of M] step s by auto
  next
    case (Handle_recv M)
    then show ?thesis using handle_try_recv_inv [OF inv, of M] step s by auto
  next
    case (Poll_tasks cx i br)
    then show ?thesis using handle_tasks_inv [OF inv, of T cx i br] step s by auto
  qed
  then show "handle_inv tx_gone rx_gone s'" "mcs_disconnected (fst s) \<Longrightarrow> mcs_disconnected (fst s')" using s by simp_all
qed

lemma handle_run_inv:
  assumes "handle_run T L s es = Some s'" and "handle_inv tx_gone rx_gone s"
  shows "handle_inv tx_gone rx_gone s' \<and> (mcs_disconnected (fst s) \<longrightarrow> mcs_disconnected (fst s'))"
  using assms
proof (induction es arbitrary: s)
  case (Cons e es)
  then obtain x where x: "handle_step T L s e = Some x" "handle_run T L x es = Some s'" by (auto simp: option_bind_eq_Some)
  with Cons.IH [OF x(2)] handle_step_inv [OF Cons.prems(2) x(1)] show ?case by blast
qed simp

lemma handle_step_panics:
  assumes "handle_inv tx_gone rx_gone s" and "handle_step T L s e = None"
  shows "\<exists>c. mc_poll_recv T c = None \<or> (\<exists>m. mc_poll_send T m c = None) \<or> mc_poll_flush T c = None"
proof -
  obtain mcs tk where s: "s = (mcs, tk)" by force
  have inv: "handle_inv tx_gone rx_gone (mcs, tk)" using assms(1) s by simp
  show ?thesis
  proof (cases e)
    case (Handle_send M m)
    then show ?thesis using handle_try_send_inv [OF inv, of M m] assms(2) s by auto
  next
    case (Handle_flush M)
    then show ?thesis using handle_try_flush_inv [OF inv, of M] assms(2) s by auto
  next
    case (Handle_recv M)
    then show ?thesis using handle_try_recv_inv [OF inv, of M] assms(2) s by auto
  next
    case (Poll_tasks cx i br)
    then show ?thesis using tasks_step_returns [OF inv] assms(2) s by auto
  qed
qed

lemma build_tasks_inv:
  assumes "build_tasks P L tm cap order mx chs = Some (mx', chs', cts)"
  shows "fst ` set cts \<union> dom chs = dom chs' \<and> (\<forall>x\<in>set cts. ct_pc (snd x) = Selecting) \<and>
     (all_live tx_gone rx_gone chs \<longrightarrow> all_live tx_gone rx_gone chs')"
  using assms
proof (induction order arbitrary: mx chs mx' cts)
  case (Cons x order)
  obtain M st where x: "x = (M, st)" by force
  obtain mx1 chs1 ct cts' where b: "register_message_type P L tm cap M st mx chs = Some (mx1, chs1, ct)"
    "build_tasks P L tm cap order mx1 chs1 = Some (mx', chs', cts')" "cts = (M, ct) # cts'"
    using Cons.prems x by (auto simp: option_bind_eq_Some)
  have r: "chs1 = chs(M \<mapsto> (M, channel_set_new L (ms_message_buffer_size st) (ms_channel st)))" "ct_pc ct = Selecting"
    using b(1) by (auto simp: register_message_type_def Let_def option_bind_eq_Some ChannelsMap_insert_def channel_task_new_def split: prod.splits)
  have live: "live_set tx_gone rx_gone (channel_set_new L (ms_message_buffer_size st) (ms_channel st))"
    by (simp add: live_set_def channel_set_new_def spsc_channel_def bounded)
  note ih = Cons.IH [OF b(2)]
  have "fst ` set cts \<union> dom chs = fst ` set cts' \<union> dom chs1" using b(3) r(1) by auto
  moreover have "all_live tx_gone rx_gone chs \<longrightarrow> all_live tx_gone rx_gone chs1" using live r(1) by (simp add: all_live_def)
  moreover have "\<forall>x\<in>set cts. ct_pc (snd x) = Selecting" using ih b(3) r(2) by simp
  ultimately show ?case using ih by simp
qed simp

lemma build_inv:
  assumes "build P L tm cap order mb mx = Some (mx', mcs, tk)"
  shows "handle_inv tx_gone rx_gone (mcs, tk)"
proof -
  obtain chs cts where b: "build_tasks P L tm cap (map (\<lambda>M. (M, the (mb_register_fns mb M))) order) mx Map.empty = Some (mx', chs, cts)"
    "mcs = \<lparr>mcs_disconnected = False, mcs_channels = chs\<rparr>" "tk = \<lparr>tk_tasks = cts, tk_result = None\<rparr>"
    using assms by (auto simp: build_def option_bind_eq_Some)
  from build_tasks_inv [OF b(1)] show ?thesis by (auto simp: b(2,3) handle_inv_def all_live_def)
qed

end

subsection \<open>One type at a time\<close>

text \<open>What a run of the handle means for the message type \<open>M\<close>; \<open>order\<close> is the order of the tasks.\<close>

fun project :: "'t \<Rightarrow> 't list \<Rightarrow> ('t, 'm, 'k) handle_event \<Rightarrow> ('m, 'k) serve_event list" where
  "project M order (Handle_send N m) = (if N = M then [Ask_send m] else [])"
| "project M order (Handle_flush N) = (if N = M then [Ask_flush] else [])"
| "project M order (Handle_recv N) = (if N = M then [Ask_recv] else [])"
| "project M order (Poll_tasks cx i branch) = (if i < length order \<and> order ! i = M then [Task_poll cx branch] else [])"

definition serves ::
  "'t \<Rightarrow> 't list \<Rightarrow> ('q, 'w, 'm, packet_channel, 'c, 'e) serve_state \<Rightarrow> ('t, 'q, 'w, 'm, 'c, 'e) handle_state \<Rightarrow> bool" where
  "serves M order sr s \<longleftrightarrow> (case s of (mcs, tk) \<Rightarrow> mcs_channels mcs M = Some (M, sr_set sr) \<and> map fst (tk_tasks tk) = order \<and>
     (M, sr_task sr) \<in> set (tk_tasks tk) \<and> tk_result tk = None \<and> \<not> mcs_disconnected mcs)"

text \<open>The messages of type \<open>M\<close> that the handle took, and those it gave back.\<close>

fun send_accepted :: "('q, 'w, 'm, 'k) spsc_lib \<Rightarrow> 't \<Rightarrow> ('t, 'q, 'w, 'm, 'c, 'e) handle_state \<Rightarrow> ('t, 'm, 'k) handle_event \<Rightarrow> 'm list" where
  "send_accepted L M (mcs, tk) (Handle_send N m) =
     (case MessageChannels_try_send L N m mcs of None \<Rightarrow> [] | Some (_, r) \<Rightarrow> if N = M \<and> r = Inr None then [m] else [])"
| "send_accepted L M s _ = []"

fun recv_returned :: "('q, 'w, 'm, 'k) spsc_lib \<Rightarrow> 't \<Rightarrow> ('t, 'q, 'w, 'm, 'c, 'e) handle_state \<Rightarrow> ('t, 'm, 'k) handle_event \<Rightarrow> 'm list" where
  "recv_returned L M (mcs, tk) (Handle_recv N) =
     (case MessageChannels_try_recv L N mcs of Some (_, Inr (Some m)) \<Rightarrow> if N = M then [m] else [] | _ \<Rightarrow> [])"
| "recv_returned L M s _ = []"

fun handle_log ::
  "(('t, 'q, 'w, 'm, 'c, 'e) handle_state \<Rightarrow> ('t, 'm, 'k) handle_event \<Rightarrow> 'm list) \<Rightarrow> ('c, 'm, 'e) message_channel \<Rightarrow> ('q, 'w, 'm, 'k) spsc_lib \<Rightarrow>
   ('t, 'q, 'w, 'm, 'c, 'e) handle_state \<Rightarrow> ('t, 'm, 'k) handle_event list \<Rightarrow> 'm list" where
  "handle_log f T L s [] = []"
| "handle_log f T L s (e # es) = f s e @ (case handle_step T L s e of None \<Rightarrow> [] | Some s \<Rightarrow> handle_log f T L s es)"

lemma serve_run_append: "serve_run T L sr (es @ fs) = do { sr \<leftarrow> serve_run T L sr es; serve_run T L sr fs }"
  by (induction es arbitrary: sr) (auto intro: Option.bind_cong)

lemma tasks_step_result:
  assumes "tasks_step T L cx i br (chs, tk) = Some (chs', tk')" and "tk_result tk' = None"
  shows "tk_result tk = None"
  using assms by (auto simp: tasks_step_def split: if_splits)

lemma handle_run_result: "handle_run T L s es = Some s' \<Longrightarrow> tk_result (snd s') = None \<Longrightarrow> tk_result (snd s) = None"
proof (induction es arbitrary: s)
  case (Cons e es)
  then obtain x where x: "handle_step T L s e = Some x" "handle_run T L x es = Some s'" by (auto simp: option_bind_eq_Some)
  from Cons.IH [OF x(2) Cons.prems(2)] have r: "tk_result (snd x) = None" .
  obtain mcs tk where s: "s = (mcs, tk)" by force
  show ?case using x(1) r s tasks_step_result [of T L _ _ _ "mcs_channels mcs" tk] by (cases e) auto
qed simp

text \<open>The handle touches the channel set of the type it is used for, and no other.\<close>

lemma handle_ops_frame:
  assumes "N \<noteq> M"
  shows "MessageChannels_try_send L N m mcs = Some (mcs', r) \<Longrightarrow> mcs_channels mcs' M = mcs_channels mcs M"
    and "MessageChannels_try_recv L N mcs = Some (mcs', r) \<Longrightarrow> mcs_channels mcs' M = mcs_channels mcs M"
    and "MessageChannels_try_flush L N mcs = Some (mcs', r') \<Longrightarrow> mcs_channels mcs' M = mcs_channels mcs M \<and>
      mcs_disconnected mcs' = mcs_disconnected mcs"
proof -
  consider "ChannelsMap_get N (mcs_channels mcs) = None" | e where "ChannelsMap_get N (mcs_channels mcs) = Some (Inl e)"
    | cs where "ChannelsMap_get N (mcs_channels mcs) = Some (Inr cs)"
    by (cases "ChannelsMap_get N (mcs_channels mcs)") (auto, metis sumE)
  note look = this
  show "mcs_channels mcs' M = mcs_channels mcs M" if "MessageChannels_try_send L N m mcs = Some (mcs', r)"
    using look
  proof cases
    case (3 cs)
    obtain s q where "Sender_try_send L (cs_outgoing cs) m = (s, q)" by force
    then show ?thesis using 3 that assms
      by (auto simp: MessageChannels_try_send_def put_channel_set_def Let_def split: sum.splits try_send_error.splits if_splits)
  qed (use that in \<open>auto simp: MessageChannels_try_send_def\<close>)
  show "mcs_channels mcs' M = mcs_channels mcs M" if "MessageChannels_try_recv L N mcs = Some (mcs', r)"
    using look
  proof cases
    case (3 cs)
    obtain s q where "Receiver_try_recv L (cs_incoming cs) = (s, q)" by force
    then show ?thesis using 3 that assms
      by (auto simp: MessageChannels_try_recv_def put_channel_set_def Let_def split: sum.splits try_recv_error.splits if_splits)
  qed (use that in \<open>auto simp: MessageChannels_try_recv_def\<close>)
  show "mcs_channels mcs' M = mcs_channels mcs M \<and> mcs_disconnected mcs' = mcs_disconnected mcs"
    if "MessageChannels_try_flush L N mcs = Some (mcs', r')"
    using look that assms by cases (auto simp: MessageChannels_try_flush_def put_channel_set_def)
qed

lemma serves_send:
  assumes "serves M order sr (mcs, tk)" and "MessageChannels_try_send L N m mcs = Some (mcs', r)" and "\<not> mcs_disconnected mcs'"
  shows "\<exists>sr'. serve_run T L sr (project M order (Handle_send N m)) = Some sr' \<and> serves M order sr' (mcs', tk) \<and>
     sr_asked sr' = sr_asked sr @ (if N = M \<and> r = Inr None then [m] else []) \<and> sr_received sr' = sr_received sr"
proof (cases "N = M")
  case True
  obtain s q where p: "Sender_try_send L (cs_outgoing (sr_set sr)) m = (s, q)" by force
  have "mcs' = mcs\<lparr>mcs_channels := (mcs_channels mcs)(M \<mapsto> (M, (sr_set sr)\<lparr>cs_outgoing := s\<rparr>))\<rparr>" "r = Inr None \<longleftrightarrow> (\<exists>u. q = Inr u)"
    using assms p True
    by (auto simp: serves_def MessageChannels_try_send_def ChannelsMap_get_def put_channel_set_def Let_def split: sum.splits try_send_error.splits)
  then show ?thesis using assms(1) p True by (auto simp: serves_def split: sum.splits)
next
  case False
  from handle_ops_frame(1) [OF False assms(2)] have "mcs_channels mcs' M = mcs_channels mcs M" .
  then show ?thesis using assms(1,3) False by (simp add: serves_def)
qed

lemma serves_recv:
  assumes "serves M order sr (mcs, tk)" and "MessageChannels_try_recv L N mcs = Some (mcs', r)" and "\<not> mcs_disconnected mcs'"
  shows "\<exists>sr'. serve_run T L sr (project M order (Handle_recv N)) = Some sr' \<and> serves M order sr' (mcs', tk) \<and>
     sr_asked sr' = sr_asked sr \<and> sr_received sr' = sr_received sr @ (case r of Inr (Some m) \<Rightarrow> if N = M then [m] else [] | _ \<Rightarrow> [])"
proof (cases "N = M")
  case True
  obtain s q where p: "Receiver_try_recv L (cs_incoming (sr_set sr)) = (s, q)" by force
  have "mcs' = mcs\<lparr>mcs_channels := (mcs_channels mcs)(M \<mapsto> (M, (sr_set sr)\<lparr>cs_incoming := s\<rparr>))\<rparr>"
    "(case r of Inr (Some m) \<Rightarrow> [m] | _ \<Rightarrow> []) = (case q of Inr m \<Rightarrow> [m] | Inl _ \<Rightarrow> [])"
    using assms p True
    by (auto simp: serves_def MessageChannels_try_recv_def ChannelsMap_get_def put_channel_set_def Let_def split: sum.splits try_recv_error.splits)
  then show ?thesis using assms(1) p True by (auto simp: serves_def cong: sum.case_cong option.case_cong)
next
  case False
  from handle_ops_frame(2) [OF False assms(2)] have "mcs_channels mcs' M = mcs_channels mcs M" .
  then show ?thesis using assms(1,3) False by (simp add: serves_def split: sum.splits option.splits)
qed

lemma serves_flush:
  assumes "serves M order sr (mcs, tk)" and "MessageChannels_try_flush L N mcs = Some (mcs', r)"
  shows "\<exists>sr'. serve_run T L sr (project M order (Handle_flush N)) = Some sr' \<and> serves M order sr' (mcs', tk) \<and>
     sr_asked sr' = sr_asked sr \<and> sr_received sr' = sr_received sr"
proof (cases "N = M")
  case True
  then show ?thesis using assms by (auto simp: serves_def MessageChannels_try_flush_def ChannelsMap_get_def put_channel_set_def)
next
  case False
  then show ?thesis using assms handle_ops_frame(3) [OF False assms(2)] by (simp add: serves_def)
qed

lemma serves_tasks:
  assumes sv: "serves M order sr (mcs, tk)" and d: "distinct order"
    and step: "tasks_step T L cx i br (mcs_channels mcs, tk) = Some (chs, tk')" and r: "tk_result tk' = None"
  shows "\<exists>sr'. serve_run T L sr (project M order (Poll_tasks cx i br)) = Some sr' \<and> serves M order sr' (mcs\<lparr>mcs_channels := chs\<rparr>, tk') \<and>
     sr_asked sr' = sr_asked sr \<and> sr_received sr' = sr_received sr"
proof (cases "i < length (tk_tasks tk)")
  case False
  then show ?thesis using sv step by (auto simp: serves_def tasks_step_def split: if_splits)
next
  case True
  have k: "map fst (tk_tasks tk) = order" "(M, sr_task sr) \<in> set (tk_tasks tk)" "mcs_channels mcs M = Some (M, sr_set sr)"
    "tk_result tk = None" "\<not> mcs_disconnected mcs" using sv by (simp_all add: serves_def)
  obtain N ct where x: "tk_tasks tk ! i = (N, ct)" by force
  then have N: "order ! i = N" "i < length order" using True k(1) by (auto simp flip: k(1))
  obtain tag cs cs' ct' where s: "mcs_channels mcs N = Some (tag, cs)" "channel_task_step T L cx br (cs, ct) = Some (cs', ct')"
    using step True x k(4) by (auto simp: tasks_step_def Let_def option_bind_eq_Some split: if_splits)
  have eq: "chs = (mcs_channels mcs)(N \<mapsto> (tag, cs'))" "tk' = tk\<lparr>tk_tasks := (tk_tasks tk)[i := (N, ct')]\<rparr>"
    using step r True x s k(4) by (auto simp: tasks_step_def Let_def split: if_splits task_pc.splits)
  have fst: "map fst ((tk_tasks tk)[i := (N, ct')]) = order" using k(1) N(1) by (simp add: map_update) (metis list_update_id)
  have new: "(N, ct') \<in> set ((tk_tasks tk)[i := (N, ct')])" by (rule set_update_memI [OF True])
  show ?thesis
  proof (cases "N = M")
    case True
    then have "ct = sr_task sr" using d k(1,2) x \<open>i < length (tk_tasks tk)\<close>
      by (metis eq_key_imp_eq_value nth_mem)
    then show ?thesis using True s k N fst new eq by (auto simp: serves_def Let_def)
  next
    case False
    then have "(M, sr_task sr) \<in> set ((tk_tasks tk)[i := (N, ct')])" using k(2) x
      by (metis fst_conv in_set_conv_nth length_list_update nth_list_update_neq)
    then show ?thesis using False k N fst eq by (simp add: serves_def)
  qed
qed

lemma serves_step:
  assumes "serves M order sr s" and "distinct order" and "handle_step T L s e = Some (mcs', tk')"
    and "tk_result tk' = None" and "\<not> mcs_disconnected mcs'"
  shows "\<exists>sr'. serve_run T L sr (project M order e) = Some sr' \<and> serves M order sr' (mcs', tk') \<and>
     sr_asked sr' = sr_asked sr @ send_accepted L M s e \<and> sr_received sr' = sr_received sr @ recv_returned L M s e"
proof -
  obtain mcs tk where s: "s = (mcs, tk)" by force
  show ?thesis
  proof (cases e)
    case (Handle_send N m)
    then obtain r where "MessageChannels_try_send L N m mcs = Some (mcs', r)" "tk' = tk" using assms(3) s by auto
    from serves_send [OF assms(1) [unfolded s] this(1) assms(5)] this show ?thesis using Handle_send s by simp
  next
    case (Handle_flush N)
    then obtain r where "MessageChannels_try_flush L N mcs = Some (mcs', r)" "tk' = tk" using assms(3) s by auto
    from serves_flush [OF assms(1) [unfolded s] this(1)] this show ?thesis using Handle_flush s by simp
  next
    case (Handle_recv N)
    then obtain r where "MessageChannels_try_recv L N mcs = Some (mcs', r)" "tk' = tk" using assms(3) s by auto
    from serves_recv [OF assms(1) [unfolded s] this(1) assms(5)] this show ?thesis using Handle_recv s by simp
  next
    case (Poll_tasks cx i br)
    then obtain chs where "tasks_step T L cx i br (mcs_channels mcs, tk) = Some (chs, tk')" "mcs' = mcs\<lparr>mcs_channels := chs\<rparr>"
      using assms(3) s by auto
    from serves_tasks [OF assms(1) [unfolded s] assms(2) this(1) assms(4)] this show ?thesis using Poll_tasks s by simp
  qed
qed

lemma build_tasks_new:
  assumes "build_tasks P L tm cap order mx chs = Some (mx', chs', cts)" and "distinct (map fst order)"
  shows "map fst cts = map fst order \<and> (\<forall>x\<in>set cts. snd x = channel_task_new (ct_channel (snd x))) \<and>
     (\<forall>(M, st)\<in>set order. chs' M = Some (M, channel_set_new L (ms_message_buffer_size st) (ms_channel st))) \<and>
     (\<forall>M. M \<notin> fst ` set order \<longrightarrow> chs' M = chs M)"
  using assms
proof (induction order arbitrary: mx chs mx' cts)
  case (Cons x order)
  obtain M st where x: "x = (M, st)" by force
  obtain mx1 chs1 ct cts' where b: "register_message_type P L tm cap M st mx chs = Some (mx1, chs1, ct)"
    "build_tasks P L tm cap order mx1 chs1 = Some (mx', chs', cts')" "cts = (M, ct) # cts'"
    using Cons.prems(1) x by (auto simp: option_bind_eq_Some)
  have r: "chs1 = chs(M \<mapsto> (M, channel_set_new L (ms_message_buffer_size st) (ms_channel st)))" "ct = channel_task_new (ct_channel ct)"
    using b(1) by (auto simp: register_message_type_def Let_def option_bind_eq_Some ChannelsMap_insert_def channel_task_new_def split: prod.splits)
  have "M \<notin> fst ` set order" using Cons.prems(2) x by simp
  with Cons.IH [OF b(2)] Cons.prems(2) x b(3) r show ?case by simp
qed simp

lemma serves_build:
  assumes "build P L tm cap order mb mx = Some (mx', mcs, tk)" and "distinct order" and "(M, ct) \<in> set (tk_tasks tk)"
    and "st = the (mb_register_fns mb M)"
  shows "serves M order (serve_start (channel_set_new L (ms_message_buffer_size st) (ms_channel st)) (ct_channel ct)) (mcs, tk)"
proof -
  let ?os = "map (\<lambda>M. (M, the (mb_register_fns mb M))) order"
  obtain chs cts where b: "build_tasks P L tm cap ?os mx Map.empty = Some (mx', chs, cts)"
    "mcs = \<lparr>mcs_disconnected = False, mcs_channels = chs\<rparr>" "tk = \<lparr>tk_tasks = cts, tk_result = None\<rparr>"
    using assms(1) by (auto simp: build_def option_bind_eq_Some)
  have o: "map fst ?os = order" by (simp add: comp_def)
  note n = build_tasks_new [OF b(1), unfolded o, OF assms(2)]
  moreover have "M \<in> set (map fst cts)" using assms(3) b(3) by force
  ultimately have "M \<in> set order" by simp
  then have "chs M = Some (M, channel_set_new L (ms_message_buffer_size st) (ms_channel st))" using n assms(4) by auto
  with n assms(3) show ?thesis by (auto simp: serves_def serve_start_def b(2,3))
qed

lemma serves_run:
  assumes "spsc_laws L items room tx_gone rx_gone waiting woken" and "handle_run T L s es = Some (mcs, tk)"
    and "serves M order sr s" and "handle_inv tx_gone rx_gone s" and "distinct order" and "tk_result tk = None"
  shows "\<exists>sr'. serve_run T L sr (concat (map (project M order) es)) = Some sr' \<and> serves M order sr' (mcs, tk) \<and>
     sr_asked sr' = sr_asked sr @ handle_log (send_accepted L M) T L s es \<and>
     sr_received sr' = sr_received sr @ handle_log (recv_returned L M) T L s es"
  using assms(2-4)
proof (induction es arbitrary: s sr)
  case (Cons e es)
  then obtain mcs1 tk1 where x: "handle_step T L s e = Some (mcs1, tk1)" "handle_run T L (mcs1, tk1) es = Some (mcs, tk)"
    by (auto simp: option_bind_eq_Some)
  have inv: "handle_inv tx_gone rx_gone (mcs1, tk1)" by (rule spsc_laws.handle_step_inv(1) [OF assms(1) Cons.prems(3) x(1)])
  have r: "tk_result tk1 = None" using handle_run_result [OF x(2)] assms(6) by simp
  then have "\<not> mcs_disconnected mcs1" using inv by (simp add: handle_inv_def)
  from serves_step [OF Cons.prems(2) assms(5) x(1) r this] obtain sr1 where
    s: "serve_run T L sr (project M order e) = Some sr1" "serves M order sr1 (mcs1, tk1)"
    "sr_asked sr1 = sr_asked sr @ send_accepted L M s e" "sr_received sr1 = sr_received sr @ recv_returned L M s e" by blast
  from Cons.IH [OF x(2) s(2) inv] s x(1) show ?case by (auto simp: serve_run_append)
qed simp

subsection \<open>Properties\<close>

text \<open>
  C9: registration gives a working set of typed channels. Whatever was registered on a new builder,
  successfully or not, and in whatever order the hash map is visited, \<open>build\<close> returns a connected handle
  when the multiplexer has none of the channels open and the settings pass the assertions of the
  channels: the \<open>expect\<close> on a duplicate channel cannot fail. Every registered type, and no other, then has
  its channel set: the lookup finds it under its own type, so that the downcast succeeds, its queues are
  new, its channel is open in the multiplexer, and its task runs.
\<close>

theorem build_serves_registered_types:
  fixes P :: "('p, 'w, byte list, 'k) spsc_lib" and L :: "('q, 'w, 'm, 'k) spsc_lib" and tm :: "'i timer"
    and order :: "'t list"
  assumes mb: "mb = register_all regs MessageChannelsBuilder_new"
    and order: "distinct order" "set order = dom (mb_register_fns mb)"
    and closed: "\<forall>M st. mb_register_fns mb M = Some st \<longrightarrow> mx_channels mx (ms_channel st) = None"
    and modes: "\<forall>M st mc. mb_register_fns mb M = Some st \<longrightarrow>
      typed_channel_new tm cap (ms_channel_mode st) (mc :: ('p, 'w) mux_channel) \<noteq> None"
  shows "\<exists>mx' mcs (tk :: ('t, ('p, 'w, 'i) typed_channel, 'm, 'e) channel_tasks).
     build P L tm cap order mb mx = Some (mx', mcs, tk) \<and> is_connected mcs \<and>
     map fst (tk_tasks tk) = order \<and> tk_result tk = None \<and> (\<forall>(M, ct)\<in>set (tk_tasks tk). ct_pc ct = Selecting) \<and>
     (\<forall>M. ChannelsMap_get M (mcs_channels mcs) = Some (case mb_register_fns mb M of
         None \<Rightarrow> Inl (MessageTypeUnregistered M)
       | Some st \<Rightarrow> Inr (channel_set_new L (ms_message_buffer_size st) (ms_channel st)))) \<and>
     (\<forall>M st. mb_register_fns mb M = Some st \<longrightarrow> mx_channels mx' (ms_channel st) \<noteq> None)"
proof -
  let ?f = "\<lambda>M. (M, the (mb_register_fns mb M))"
  have ok: "builder_ok mb" unfolding mb by (rule register_all_ok) (simp add: builder_ok_def MessageChannelsBuilder_new_def)
  have some: "mb_register_fns mb M = Some (the (mb_register_fns mb M))" if "M \<in> set order" for M using that order(2) by auto
  have "inj_on (\<lambda>M. ms_channel (the (mb_register_fns mb M))) (set order)"
    using ok some unfolding builder_ok_def inj_on_def by metis
  then have d: "distinct (map fst (map ?f order))" "distinct (map (ms_channel \<circ> snd) (map ?f order))"
    using order(1) by (simp_all add: comp_def distinct_map)
  have c: "\<forall>(M, st)\<in>set (map ?f order). mx_channels mx (ms_channel st) = None" using closed some by auto
  have m: "\<forall>(M, st)\<in>set (map ?f order). \<forall>mc :: ('p, 'w) mux_channel. \<exists>ch. typed_channel_new tm cap (ms_channel_mode st) mc = Some ch"
    using modes some by fastforce
  from build_tasks_returns [OF d c m, of P L Map.empty] obtain mx'
    and cts :: "('t \<times> (('p, 'w, 'i) typed_channel, 'm, 'e) channel_task) list" where
    b: "build_tasks P L tm cap (map ?f order) mx Map.empty = Some (mx', Map.empty ++
       map_of (map (\<lambda>(M, st). (M, (M, channel_set_new L (ms_message_buffer_size st) (ms_channel st)))) (map ?f order)), cts)"
    "map fst cts = map fst (map ?f order)" "\<forall>(M, ct)\<in>set cts. ct_pc ct = Selecting"
    "\<forall>ch. mx_channels mx' ch = None \<longleftrightarrow> mx_channels mx ch = None \<and> ch \<notin> ms_channel ` snd ` set (map ?f order)"
    by blast
  let ?chs = "Map.empty ++ map_of (map (\<lambda>(M, st). (M, (M, channel_set_new L (ms_message_buffer_size st) (ms_channel st)))) (map ?f order))"
  have chs: "?chs = map_of (map (\<lambda>M. (M, (M, channel_set_new L (ms_message_buffer_size (the (mb_register_fns mb M)))
      (ms_channel (the (mb_register_fns mb M)))))) order)" by (simp add: comp_def)
  have look: "?chs M = (if M \<in> set order then Some (M, channel_set_new L (ms_message_buffer_size (the (mb_register_fns mb M)))
      (ms_channel (the (mb_register_fns mb M)))) else None)" for M
    unfolding chs map_of_map_restrict by (simp add: restrict_map_def)
  let ?mcs = "\<lparr>mcs_disconnected = False, mcs_channels = ?chs\<rparr>"
  show ?thesis
  proof (rule exI [of _ mx'], rule exI [of _ ?mcs], rule exI [of _ "\<lparr>tk_tasks = cts, tk_result = None\<rparr>"], intro conjI allI impI)
    show "build P L tm cap order mb mx = Some (mx', ?mcs, \<lparr>tk_tasks = cts, tk_result = None\<rparr>)"
      using b(1) by (simp add: build_def)
    show "ChannelsMap_get M (mcs_channels ?mcs) = Some (case mb_register_fns mb M of None \<Rightarrow> Inl (MessageTypeUnregistered M)
       | Some st \<Rightarrow> Inr (channel_set_new L (ms_message_buffer_size st) (ms_channel st)))" for M
      unfolding ChannelsMap_get_def message_channels.select_convs look
      using order(2) by (cases "mb_register_fns mb M") (auto simp: domIff)
    show "mx_channels mx' (ms_channel st) \<noteq> None" if "mb_register_fns mb M = Some st" for M st
    proof -
      have "M \<in> set order" using that order(2) by auto
      then have "ms_channel st \<in> ms_channel ` snd ` set (map ?f order)" using that by (force simp: image_iff)
      then show ?thesis using b(4) by blast
    qed
  qed (use b(2,3) in \<open>simp_all add: is_connected_def comp_def\<close>)
qed

text \<open>Two types, one reliable and one not, and two registrations that fail.\<close>

definition small_registrations :: "(nat \<times> message_channel_settings) list" where
  "small_registrations =
     [(1, \<lparr>ms_channel = 0, ms_channel_mode = Mode_reliable small_settings, ms_message_buffer_size = 4, ms_packet_buffer_size = 4\<rparr>),
      (2, \<lparr>ms_channel = 0, ms_channel_mode = Mode_reliable small_settings, ms_message_buffer_size = 4, ms_packet_buffer_size = 4\<rparr>),
      (1, \<lparr>ms_channel = 1, ms_channel_mode = Mode_compressed small_settings, ms_message_buffer_size = 4, ms_packet_buffer_size = 4\<rparr>),
      (2, \<lparr>ms_channel = 2, ms_channel_mode = Mode_unreliable \<lparr>uc_bandwidth = 9, uc_burst_bandwidth = 9\<rparr>, ms_message_buffer_size = 4, ms_packet_buffer_size = 4\<rparr>)]"

lemma small_registered:
  "mb_register_fns (register_all small_registrations MessageChannelsBuilder_new) =
     [1 \<mapsto> snd (small_registrations ! 0), 2 \<mapsto> snd (small_registrations ! 3)]"
  by (simp add: register_all_def small_registrations_def register_def MessageChannelsBuilder_new_def Let_def)

theorem build_serves_registered_types_witness:
  "\<exists>mx' mcs (tk :: (nat, (byte list fifo, unit option \<times> unit list, nat) typed_channel, byte, unit) channel_tasks).
     build fifo_lib fifo_lib nano_timer 101 [2, 1] (register_all small_registrations MessageChannelsBuilder_new)
       PacketMultiplexer_new = Some (mx', mcs, tk) \<and> is_connected mcs \<and>
     ChannelsMap_get 1 (mcs_channels mcs) = Some (Inr (channel_set_new fifo_lib 4 0)) \<and>
     ChannelsMap_get 3 (mcs_channels mcs) = Some (Inl (MessageTypeUnregistered 3)) \<and> mx_channels mx' 2 \<noteq> None"
proof -
  let ?mb = "register_all small_registrations MessageChannelsBuilder_new :: nat builder"
  obtain ch where ch: "ReliableChannel_new nano_timer 100 small_settings = Some ch" using small_channel by blast
  have reg: "mb_register_fns ?mb M = Some st \<longleftrightarrow> M = 1 \<and> st = snd (small_registrations ! 0) \<or> M = 2 \<and> st = snd (small_registrations ! 3)"
    for M st by (auto simp: small_registered)
  have order: "distinct [2, 1 :: nat]" "set [2, 1] = dom (mb_register_fns ?mb)" by (auto simp: small_registered)
  have closed: "\<forall>M st. mb_register_fns ?mb M = Some st \<longrightarrow> mx_channels PacketMultiplexer_new (ms_channel st) = None"
    by (simp add: PacketMultiplexer_new_def)
  have modes: "\<forall>M st mc. mb_register_fns ?mb M = Some st \<longrightarrow>
      typed_channel_new nano_timer 101 (ms_channel_mode st) (mc :: (byte list fifo, unit option \<times> unit list) mux_channel) \<noteq> None"
    unfolding reg using ch by (auto simp: small_registrations_def typed_channel_new_def MuxPacketPool_capacity_def usize_sub_def)
  from build_serves_registered_types [OF refl order closed modes, of fifo_lib fifo_lib] obtain mx' mcs
    and tk :: "(nat, (byte list fifo, unit option \<times> unit list, nat) typed_channel, byte, unit) channel_tasks" where
    b: "build fifo_lib fifo_lib nano_timer 101 [2, 1] ?mb PacketMultiplexer_new = Some (mx', mcs, tk)" "is_connected mcs"
    "\<forall>M. ChannelsMap_get M (mcs_channels mcs) = Some (case mb_register_fns ?mb M of None \<Rightarrow> Inl (MessageTypeUnregistered M)
       | Some st \<Rightarrow> Inr (channel_set_new fifo_lib (ms_message_buffer_size st) (ms_channel st)))"
    "\<forall>M st. mb_register_fns ?mb M = Some st \<longrightarrow> mx_channels mx' (ms_channel st) \<noteq> None" by blast
  have "mb_register_fns ?mb 2 = Some (snd (small_registrations ! 3))" unfolding reg by simp
  then have "mx_channels mx' (ms_channel (snd (small_registrations ! 3))) \<noteq> None" using b(4) by blast
  then have "mx_channels mx' 2 \<noteq> None" by (simp add: small_registrations_def)
  moreover have "ChannelsMap_get 1 (mcs_channels mcs) = Some (Inr (channel_set_new fifo_lib 4 0))"
    "ChannelsMap_get 3 (mcs_channels mcs) = Some (Inl (MessageTypeUnregistered 3))"
    unfolding b(3) [rule_format] small_registered by (simp_all add: small_registrations_def)
  ultimately show ?thesis using b(1,2) by (intro exI conjI)
qed

text \<open>
  C10: errors and disconnection. From a built handle, in every interleaving of sends, flushes and receives
  of any types with polls of the tasks: nothing but a message channel can panic, so no downcast fails; a
  task fails only with an error of its message channel; and the handle counts as disconnected only after
  a task has failed, and then for good. Once a task has failed, with its error for result, all tasks are
  gone: on every registered type, not only the failing one, a send hands the message back and a receive
  returns what was already queued or nothing, and both leave the handle disconnected.
\<close>

theorem task_error_disconnects:
  assumes laws: "spsc_laws L items room tx_gone rx_gone waiting woken"
    and built: "build P L tm cap order mb mx = Some (mx', mcs0, tk0)"
    and run: "handle_run T L (mcs0, tk0) es = Some (mcs, tk)"
  shows "(\<forall>M. ChannelsMap_get M (mcs_channels mcs) \<noteq> None) \<and>
     (\<forall>e. handle_step T L (mcs, tk) e = None \<longrightarrow>
        (\<exists>c. mc_poll_recv T c = None \<or> (\<exists>m. mc_poll_send T m c = None) \<or> mc_poll_flush T c = None)) \<and>
     (\<forall>M e. tk_result tk = Some (Task_failed M e) \<longrightarrow> (\<exists>x. e = Channel_error x)) \<and>
     (mcs_disconnected mcs \<longrightarrow> tk_result tk \<noteq> None \<and>
        (\<forall>es' s'. handle_run T L (mcs, tk) es' = Some s' \<longrightarrow> mcs_disconnected (fst s'))) \<and>
     (tk_result tk \<noteq> None \<longrightarrow> (\<forall>M cs m. ChannelsMap_get M (mcs_channels mcs) = Some (Inr cs) \<longrightarrow>
        (\<exists>mcs'. MessageChannels_try_send L M m mcs = Some (mcs', Inr (Some m)) \<and> mcs_disconnected mcs') \<and>
        (\<exists>mcs' r. MessageChannels_try_recv L M mcs = Some (mcs', r) \<and> (r = Inr None \<longrightarrow> mcs_disconnected mcs'))))"
proof (intro conjI allI impI)
  have inv: "handle_inv tx_gone rx_gone (mcs, tk)"
    using spsc_laws.handle_run_inv [OF laws run spsc_laws.build_inv [OF laws built]] by blast
  show "ChannelsMap_get M (mcs_channels mcs) \<noteq> None" for M using spsc_laws.handle_lookup [OF laws inv, of M] by simp
  show "\<exists>c. mc_poll_recv T c = None \<or> (\<exists>m. mc_poll_send T m c = None) \<or> mc_poll_flush T c = None"
    if "handle_step T L (mcs, tk) e = None" for e by (rule spsc_laws.handle_step_panics [OF laws inv that])
  show "\<exists>x. e = Channel_error x" if "tk_result tk = Some (Task_failed M e)" for M e using inv that by (simp add: handle_inv_def)
  show "tk_result tk \<noteq> None" if "mcs_disconnected mcs" using inv that by (auto simp: handle_inv_def)
  show "mcs_disconnected (fst s')" if "mcs_disconnected mcs" "handle_run T L (mcs, tk) es' = Some s'" for es' s'
    using spsc_laws.handle_run_inv [OF laws that(2) inv] that(1) by simp
  fix M cs m
  assume failed: "tk_result tk \<noteq> None" and "ChannelsMap_get M (mcs_channels mcs) = Some (Inr cs)"
  then have reg: "mcs_channels mcs M \<noteq> None" by (auto simp: ChannelsMap_get_def split: option.splits)
  show "\<exists>mcs'. MessageChannels_try_send L M m mcs = Some (mcs', Inr (Some m)) \<and> mcs_disconnected mcs'"
    using spsc_laws.handle_try_send_inv [OF laws inv, of M m] failed reg by blast
  show "\<exists>mcs' r. MessageChannels_try_recv L M mcs = Some (mcs', r) \<and> (r = Inr None \<longrightarrow> mcs_disconnected mcs')"
    using spsc_laws.handle_try_recv_inv [OF laws inv, of M] failed reg by blast
qed

text \<open>A message channel that fails at once.\<close>

definition broken_channel :: "('c, 'm, unit) message_channel" where
  "broken_channel = \<lparr>mc_poll_recv = (\<lambda>c. Some (c, Ready (Inl ()))), mc_poll_send = (\<lambda>m c. Some (c, Ready (Inl ()))),
     mc_poll_flush = (\<lambda>c. Some (c, Ready (Inl ())))\<rparr>"

lemma small_build:
  "\<exists>mx' c1 c2. build fifo_lib fifo_lib nano_timer 101 [2, 1] (register_all small_registrations MessageChannelsBuilder_new)
       PacketMultiplexer_new =
     Some (mx', \<lparr>mcs_disconnected = False, mcs_channels =
         [2 \<mapsto> (2, channel_set_new fifo_lib 4 2), 1 \<mapsto> (1, channel_set_new fifo_lib 4 0)]\<rparr>,
       \<lparr>tk_tasks = [(2, channel_task_new c2), (1, channel_task_new c1)], tk_result = None\<rparr>)"
proof -
  obtain ch where ch: "ReliableChannel_new nano_timer 100 small_settings = Some ch" using small_channel by blast
  have cap: "MuxPacketPool_capacity 101 = Some 100" by (simp add: MuxPacketPool_capacity_def usize_sub_def)
  show ?thesis
    unfolding build_def small_registered
    by (simp add: small_registrations_def register_message_type_def open_channel_def PacketMultiplexer_new_def
        ChannelsMap_insert_def typed_channel_new_def ch cap) blast
qed

theorem task_error_disconnects_witness:
  "\<exists>mx' mcs0 tk0 mcs tk mcs'.
     build fifo_lib fifo_lib nano_timer 101 [2, 1] (register_all small_registrations MessageChannelsBuilder_new)
       PacketMultiplexer_new = Some (mx', mcs0, tk0) \<and>
     handle_run broken_channel fifo_lib (mcs0, tk0) [Poll_tasks () 0 Incoming_branch] = Some (mcs, tk) \<and>
     tk_result tk = Some (Task_failed 2 (Channel_error ())) \<and>
     MessageChannels_try_send fifo_lib 1 (7 :: byte) mcs = Some (mcs', Inr (Some 7)) \<and> mcs_disconnected mcs'"
proof -
  obtain mx' c1 c2 where b: "build fifo_lib fifo_lib nano_timer 101 [2, 1] (register_all small_registrations MessageChannelsBuilder_new)
       PacketMultiplexer_new =
     Some (mx', \<lparr>mcs_disconnected = False, mcs_channels =
         [2 \<mapsto> (2, channel_set_new fifo_lib 4 2), 1 \<mapsto> (1, channel_set_new fifo_lib 4 0)]\<rparr>,
       \<lparr>tk_tasks = [(2, channel_task_new c2), (1, channel_task_new c1)], tk_result = None\<rparr>
         :: (nat, (byte list fifo, unit option \<times> unit list, nat) typed_channel, byte, unit) channel_tasks)"
    (is "_ = Some (_, ?mcs0, ?tk0)")
    using small_build by blast
  obtain mcs tk where r: "handle_run broken_channel fifo_lib (?mcs0, ?tk0) [Poll_tasks () 0 Incoming_branch] = Some (mcs, tk)"
    "tk_result tk = Some (Task_failed 2 (Channel_error ()))" "\<exists>cs. ChannelsMap_get 1 (mcs_channels mcs) = Some (Inr cs)"
    by (simp add: tasks_step_def channel_task_step_def channel_task_new_def broken_channel_def drop_all_tasks_def ChannelsMap_get_def Let_def)
  from task_error_disconnects [OF fifo.spsc_laws_axioms b r(1)] r(2,3)
  obtain mcs' where "MessageChannels_try_send fifo_lib 1 (7 :: byte) mcs = Some (mcs', Inr (Some 7))" "mcs_disconnected mcs'" by blast
  with b r(1,2) show ?thesis by blast
qed

text \<open>
  C11: each registered type has a pipe of its own. As long as no task has failed, what the handle and the
  tasks do to one message type \<open>M\<close>, in any interleaving with all other types, is a run of the application
  and the serving task of \<open>M\<close> alone: the run of the events that name \<open>M\<close> or poll its task. Its queues and
  its task are those of the handle and of the shared future, it was handed exactly the messages the
  handle accepted for \<open>M\<close>, and the application received exactly what the handle gave back for \<open>M\<close>. So a type
  neither delays, reorders nor receives the messages of another: what reached the message channel of
  \<open>M\<close> is a prefix of what was accepted, and what was given back is a prefix of what came from it.
\<close>

theorem handle_refines_serving:
  assumes laws: "spsc_laws L items room tx_gone rx_gone waiting woken"
    and built: "build P L tm cap order mb mx = Some (mx', mcs0, tk0)" and order: "distinct order"
    and task: "(M, ct0) \<in> set (tk_tasks tk0)" and st: "mb_register_fns mb M = Some st"
    and run: "handle_run T L (mcs0, tk0) es = Some (mcs, tk)" and runs: "tk_result tk = None"
  shows "\<exists>sr. serve_run T L (serve_start (channel_set_new L (ms_message_buffer_size st) (ms_channel st)) (ct_channel ct0))
       (concat (map (project M order) es)) = Some sr \<and>
     ChannelsMap_get M (mcs_channels mcs) = Some (Inr (sr_set sr)) \<and> (M, sr_task sr) \<in> set (tk_tasks tk) \<and>
     sr_asked sr = handle_log (send_accepted L M) T L (mcs0, tk0) es \<and>
     sr_received sr = handle_log (recv_returned L M) T L (mcs0, tk0) es \<and>
     prefix (sr_sent sr) (handle_log (send_accepted L M) T L (mcs0, tk0) es) \<and>
     prefix (handle_log (recv_returned L M) T L (mcs0, tk0) es) (sr_got sr)"
proof -
  have "st = the (mb_register_fns mb M)" using st by simp
  note start = serves_build [OF built order task this]
  from serves_run [OF laws run start spsc_laws.build_inv [OF laws built] order runs] obtain sr where
    s: "serve_run T L (serve_start (channel_set_new L (ms_message_buffer_size st) (ms_channel st)) (ct_channel ct0))
       (concat (map (project M order) es)) = Some sr" "serves M order sr (mcs, tk)"
    "sr_asked sr = handle_log (send_accepted L M) T L (mcs0, tk0) es" "sr_received sr = handle_log (recv_returned L M) T L (mcs0, tk0) es"
    by (auto simp: serve_start_def)
  have "serve_inv items tx_gone rx_gone sr" by (rule spsc_laws.serve_run_inv [OF laws s(1) spsc_laws.serve_inv_new [OF laws]])
  then have "prefix (sr_sent sr) (sr_asked sr)" "prefix (sr_received sr) (sr_got sr)" by (auto simp: serve_inv_def Let_def)
  with s show ?thesis by (auto simp: serves_def ChannelsMap_get_def)
qed

text \<open>A message channel that takes every message, and gives none.\<close>

definition sink_channel :: "('c, 'm, unit) message_channel" where
  "sink_channel = \<lparr>mc_poll_recv = (\<lambda>c. Some (c, Pending)), mc_poll_send = (\<lambda>m c. Some (c, Ready (Inr ()))),
     mc_poll_flush = (\<lambda>c. Some (c, Ready (Inr ())))\<rparr>"

theorem handle_refines_serving_witness:
  "\<exists>mx' mcs0 tk0 c1 mcs tk sr.
     build fifo_lib fifo_lib nano_timer 101 [2, 1] (register_all small_registrations MessageChannelsBuilder_new)
       PacketMultiplexer_new = Some (mx', mcs0, tk0) \<and>
     handle_run sink_channel fifo_lib (mcs0, tk0)
       [Handle_send 1 7, Handle_send 2 9, Handle_recv 1, Poll_tasks () 1 Outgoing_branch, Poll_tasks () 0 Outgoing_branch,
        Poll_tasks () 1 Outgoing_branch] = Some (mcs, tk) \<and>
     serve_run sink_channel fifo_lib (serve_start (channel_set_new fifo_lib 4 (0 :: packet_channel)) c1)
       [Ask_send (7 :: byte), Ask_recv, Task_poll () Outgoing_branch, Task_poll () Outgoing_branch] = Some sr \<and>
     (1 :: nat, sr_task sr) \<in> set (tk_tasks tk) \<and> sr_asked sr = [7] \<and> sr_sent sr = [7]"
proof -
  let ?es = "[Handle_send 1 7, Handle_send 2 9, Handle_recv 1, Poll_tasks () 1 Outgoing_branch, Poll_tasks () 0 Outgoing_branch,
        Poll_tasks () 1 Outgoing_branch] :: (nat, byte, unit) handle_event list"
  let ?mb = "register_all small_registrations MessageChannelsBuilder_new :: nat builder"
  obtain mx' c1 c2 where b: "build fifo_lib fifo_lib nano_timer 101 [2, 1] ?mb PacketMultiplexer_new =
     Some (mx', \<lparr>mcs_disconnected = False, mcs_channels =
         [2 \<mapsto> (2, channel_set_new fifo_lib 4 2), 1 \<mapsto> (1, channel_set_new fifo_lib 4 0)]\<rparr>,
       \<lparr>tk_tasks = [(2, channel_task_new c2), (1, channel_task_new c1)], tk_result = None\<rparr>
         :: (nat, (byte list fifo, unit option \<times> unit list, nat) typed_channel, byte, unit) channel_tasks)"
    (is "_ = Some (_, ?mcs0, ?tk0)")
    using small_build by blast
  note eval = serve_eval sink_channel_def tasks_step_def MessageChannels_try_send_def MessageChannels_try_recv_def
    ChannelsMap_get_def put_channel_set_def Receiver_poll_next_def
  obtain mcs tk where r: "handle_run sink_channel fifo_lib (?mcs0, ?tk0) ?es = Some (mcs, tk)" "tk_result tk = None"
    by (simp add: eval)
  have log: "handle_log (send_accepted fifo_lib 1) sink_channel fifo_lib (?mcs0, ?tk0) ?es = [7]" by (simp add: eval)
  have reg: "mb_register_fns ?mb 1 = Some (snd (small_registrations ! 0))" by (simp add: small_registered)
  have mem: "(1, channel_task_new c1) \<in> set (tk_tasks ?tk0)" by simp
  have one: "concat (map (project 1 [2, 1]) ?es) = [Ask_send 7, Ask_recv, Task_poll () Outgoing_branch, Task_poll () Outgoing_branch]"
    by simp
  have ty: "ms_message_buffer_size (snd (small_registrations ! 0)) = 4" "ms_channel (snd (small_registrations ! 0)) = 0"
    "ct_channel (channel_task_new c1 :: (_, byte, unit) channel_task) = c1"
    by (simp_all add: small_registrations_def channel_task_new_def)
  have d: "distinct [2, 1 :: nat]" by simp
  from handle_refines_serving [OF fifo.spsc_laws_axioms b d mem reg r, unfolded log one ty] obtain sr where
    s: "serve_run sink_channel fifo_lib (serve_start (channel_set_new fifo_lib 4 (0 :: packet_channel)) c1)
       [Ask_send (7 :: byte), Ask_recv, Task_poll () Outgoing_branch, Task_poll () Outgoing_branch] = Some sr"
    "(1, sr_task sr) \<in> set (tk_tasks tk)" "sr_asked sr = [7]"
    by blast
  moreover have "sr_sent sr = [7]" using s(1) by (auto simp: eval)
  ultimately show ?thesis using b r(1) by blast
qed

end
