(* ===== verification/Spec2Isabelle.thy ===== *)
theory Spec2Isabelle
  imports Window_Properties Reliable_Properties Unreliable_Properties Event_Watch Packet_Multiplexer Async_Calls Message_Channels
begin

text \<open>
  A verification of \<open>turbulence\<close>, a Rust library that multiplexes reliable and unreliable channels over
  an unreliable packet network.

  \<^bold>\<open>The program.\<close> Packets are byte buffers of bounded size (\<open>packet.rs\<close>, \<open>buffer.rs\<close>). A multiplexer
  (\<open>packet_multiplexer.rs\<close>) joins numbered packet channels into one stream of packets, with the number in
  a header byte, and routes incoming packets to the queues of their channels (\<open>spsc.rs\<close>). On a packet channel
  runs an unreliable channel (\<open>unreliable_channel.rs\<close>), which packs short messages into packets, or a
  reliable channel (\<open>reliable_channel.rs\<close>), a byte stream with acknowledgements and retransmission. The
  reliable channel keeps its stream in a send window and a receive window (\<open>windows.rs\<close>), both over a ring
  buffer (\<open>ring_buffer.rs\<close>), counts positions modulo \<open>2 ^ 32\<close>, and like the unreliable channel limits its
  rate (\<open>bandwidth_limiter.rs\<close>). Typed messages go over these channels in three ways: one serialized
  message per unreliable message (\<open>unreliable_bincode_channel.rs\<close>), length-prefixed on the reliable stream
  (\<open>reliable_bincode_channel.rs\<close>), or collected into compressed chunks (\<open>compressed_bincode_channel.rs\<close>). On top,
  \<open>message_channels.rs\<close> gives an application one queue in each direction for every message type, served
  by a task, with a flush signal (\<open>event_watch.rs\<close>).

  \<^bold>\<open>How it is modelled.\<close> A struct is a record, an enum a datatype, an operation a function on the state. A
  panic, which includes failed assertions, slices out of range and overflow in checked arithmetic, is the
  value \<open>None\<close> of an option; an error is the left side of a sum; a poll answers \<open>Pending\<close> or \<open>Ready\<close>.
  Stream positions are 32-bit words and statistics 64-bit words; sizes are natural numbers with the bound
  written out where the code could exceed it (\<open>usize_add\<close>, \<open>usize_sub\<close>); \<open>f64\<close> is a real number rounded to
  53 bits after every operation. Hash maps that are iterated take the order of iteration as an argument.
  The clock, the sleep and the network are the environment's: they are arguments and events of runs.
  Other packages are arguments with their documented laws as locales: \<open>spsc_laws\<close> (\<open>crossbeam_channel\<close> and
  \<open>AtomicWaker\<close>), \<open>bincode_laws\<close> and \<open>snap_laws\<close>.

  \<^bold>\<open>The theories.\<close>

  \<^item> \<open>Turbulence_Prelude\<close>: polls, checked arithmetic, vectors and slices, binary search, little-endian
  encodings, and the lemmas on them that all components share. \<open>Float64\<close>: rounding to \<open>f64\<close>.

  \<^item> \<open>Stream_Pos\<close>, \<open>Stream_Ranges\<close>: the wrapping comparisons of \<open>windows.rs\<close> and their meaning on logical
  positions; ordered lists of ranges and the sets they stand for. \<open>Ring_Buffer\<close>: all of \<open>ring_buffer.rs\<close>.

  \<^item> \<open>Send_Window\<close>, \<open>Recv_Window\<close>, \<open>Recv_Window_Spec\<close>: the two windows with their invariants; \<open>Window_Properties\<close>
  states their properties: both windows refine sets of positions, the receive window reassembles any
  sequence of blocks, the send window keeps every unacknowledged byte, the ring is a bounded queue.

  \<^item> \<open>Packet\<close>: the trait \<open>Packet\<close> as a locale, with \<open>BufferPacket\<close> as its interpretation; \<open>Packet_Multiplexer\<close>:
  \<open>MuxPacket\<close> as another one, opening channels, the incoming sink, the outgoing stream and the statistics.

  \<^item> \<open>Bandwidth_Limiter\<close>: the limiter and the bounds on its credit and debt.

  \<^item> \<open>Reliable_Channel\<close>: the task of the reliable channel with every handler, the rounds of its main loop and
  the handle of the application. \<open>Reliable_Task\<close> and \<open>Reliable_Recv\<close>: the invariant of the task and that every
  handler keeps it. \<open>Reliable_Network\<close>: two channels over a network that loses, repeats and reorders packets,
  and the invariant that ties the two ends together. \<open>Reliable_Properties\<close>: ordered delivery, retention,
  completeness, progress, and the behaviour of the handlers on good and bad packets.

  \<^item> \<open>Spsc\<close>: the queue under every interleaving of its two ends, and its wake-ups. \<open>Event_Watch\<close>: the flush
  signal as a step relation over atomic actions.

  \<^item> \<open>Unreliable_Channel\<close>, \<open>Unreliable_Properties\<close>: packing messages into packets and reading them back.

  \<^item> \<open>Byte_Stream\<close>: the contracts of a byte sink and a byte source, on which the loops that fill and empty
  buffers are shown to return, and their interpretation on the reliable channel over the network.
  \<open>Message_Stream\<close>: the trait \<open>MessageBincodeChannel\<close>, runs of two message channels over the network, and the
  contract \<open>message_stream\<close> of a message channel, from which end to end delivery follows.

  \<^item> \<open>Bincode\<close>, \<open>Reliable_Bincode\<close>, \<open>Compressed_Bincode\<close>, \<open>Unreliable_Bincode\<close>: the interface of \<open>bincode\<close> and the three
  message channels; the first two of them satisfy \<open>message_stream\<close>. \<open>Typed_Channels\<close>: one poll of each
  \<open>async\<close> method, the wrappers that fix the message type, and that a wrapper keeps the contract of its
  channel. \<open>Async_Calls\<close>: calls whose futures are polled and dropped in any order are cancel safe.

  \<^item> \<open>Channel_Task\<close>: the task that serves a message type, as a state machine over the points where it awaits.
  \<open>Served_Network\<close>: applications, serving tasks, message channels and reliable channels together, over the
  lossy network. \<open>Message_Channels\<close>: the builder, the map of channels by type, the handle, and the future
  that runs the tasks; each type is shown to have a pipe of its own, as if it were the only one, until a
  task fails.

  \<^bold>\<open>Bounds.\<close> The properties over the network ask that each direction carries less than \<open>2 ^ 31\<close> bytes less
  the receive window: beyond half the span of positions an old packet may be taken for a new one, which
  the protocol does not exclude. The windows alone have no such limit. The typed unreliable channel is
  shown free of failures while fewer than \<open>2 ^ 32\<close> bytes are sent, since its sleeps may be cut short by the
  environment and the debt of its limiter then grows. No loop is bounded by fuel: loops that may not end
  are partial functions, and the properties state that they return.

  \<^bold>\<open>Not modelled.\<close> Memory allocation, the \<open>unsafe\<close> accesses of the ring buffer as such and the weak memory
  orderings: operations on shared state are atomic steps in an interleaving. How long sleeps last, the
  executor, and the traits \<open>Spawn\<close> and \<open>Timer\<close> beyond what the code asks of them. The \<open>From\<close>
  implementations, which only call \<open>new\<close>, and what is formatted for messages of errors. \<open>lib.rs\<close> has
  declarations only.
\<close>

end
